(* ===== verification/Prelude.thy ===== *)
theory Prelude
  imports Main "HOL-Library.Word" "HOL-Library.AList" "HOL-Library.List_Lexorder"
begin

text \<open>
  Shared vocabulary of the development.

  \<^item> Machine integers: \<open>u16\<close>, \<open>u32\<close>, \<open>u64\<close> are words, so \<open>+\<close> wraps around as the release
    build of the program does.
  \<^item> Strings: a Rust \<open>String\<close> is a list of Unicode scalar values (natural numbers). UTF-8 keeps
    the code point order, so the lexicographic order on \<open>str\<close> is the byte order of Rust's \<open>cmp\<close>;
    \<open>str_len\<close> is the length in bytes, as \<open>str::len\<close>. \<open>lit\<close> turns an ASCII literal into a \<open>str\<close>.
  \<^item> \<open>DashMap\<close>: an association list without repeated keys. Its order stands for the iteration
    order, which \<open>DashMap\<close> leaves open.
  \<^item> HTTP status codes and the error values of fallible operations (\<open>error + 'a\<close>).

  The two locales are the contracts the components rely on: \<open>keyed_store\<close> for a concurrent map,
  \<open>sharded_store\<close> for the two-level store \<open>Partition ID -> Key -> Value\<close> that both the
  distributed map and the task queue keep.
\<close>

named_theorems dm_simps \<open>facts about the contents of a DashMap after an operation\<close>
named_theorems unfold_ops \<open>definitions of the operations of the component at hand\<close>

subsection \<open>Integers, strings\<close>

type_synonym u16 = "16 word"
type_synonym u32 = "32 word"
type_synonym u64 = "64 word"

type_synonym str = "nat list"

definition lit :: "string \<Rightarrow> str" where
  "lit s = map of_char s"

lemma lit_simps:
  "lit [] = []"
  "lit (c # cs) = of_char c # lit cs"
  by (simp_all add: lit_def)

lemma length_lit [simp]: "length (lit s) = length s"
  by (simp add: lit_def)

text \<open>The number of bytes UTF-8 takes for a scalar value, and for a string.\<close>

definition utf8_width :: "nat \<Rightarrow> nat" where
  "utf8_width c = (if c < 128 then 1 else if c < 2048 then 2 else if c < 65536 then 3 else 4)"

definition str_len :: "str \<Rightarrow> nat" where
  "str_len s = sum_list (map utf8_width s)"

lemma str_len_simps [simp]:
  "str_len [] = 0"
  "str_len (c # s) = utf8_width c + str_len s"
  "str_len (s @ t) = str_len s + str_len t"
  by (simp_all add: str_len_def)

lemma utf8_width_bounds: "1 \<le> utf8_width c" "utf8_width c \<le> 4"
  by (simp_all add: utf8_width_def)

lemma length_le_str_len: "length s \<le> str_len s"
  by (induction s) (auto simp: utf8_width_def)

lemma str_len_ascii: "list_all (\<lambda>c. c < 128) s \<Longrightarrow> str_len s = length s"
  by (induction s) (auto simp: utf8_width_def)

text \<open>\<open>SocketAddr\<close>: an IP address (as text) and a port.\<close>

type_synonym sock_addr = "str \<times> u16"

subsection \<open>HTTP status codes and errors\<close>

datatype status =
    OK | CREATED | ACCEPTED | BAD_REQUEST | NOT_FOUND | UNPROCESSABLE_ENTITY
  | INTERNAL_SERVER_ERROR | BAD_GATEWAY

fun status_code :: "status \<Rightarrow> nat" where
  "status_code OK = 200"
| "status_code CREATED = 201"
| "status_code ACCEPTED = 202"
| "status_code BAD_REQUEST = 400"
| "status_code NOT_FOUND = 404"
| "status_code UNPROCESSABLE_ENTITY = 422"
| "status_code INTERNAL_SERVER_ERROR = 500"
| "status_code BAD_GATEWAY = 502"

definition is_success :: "status \<Rightarrow> bool" where
  "is_success s \<longleftrightarrow> 200 \<le> status_code s \<and> status_code s < 300"

lemma is_success_simps [simp]:
  "is_success OK" "is_success CREATED" "is_success ACCEPTED"
  "\<not> is_success BAD_REQUEST" "\<not> is_success NOT_FOUND" "\<not> is_success UNPROCESSABLE_ENTITY"
  "\<not> is_success INTERNAL_SERVER_ERROR" "\<not> is_success BAD_GATEWAY"
  by (simp_all add: is_success_def)

text \<open>The error values of \<open>anyhow::Result\<close>, one constructor per kind of message of the source.\<close>

datatype error =
    NodeNotFound
  | SerializeError
  | DeserializeError
  | KeyParseError
  | TransportError
  | RetriesExhausted
  | BadStatus status
  | TaskNotFound
  | TaskNotRunning
  | HandlerError str

subsection \<open>DashMap\<close>

type_synonym ('k, 'v) dashmap = "('k \<times> 'v) list"

definition dm_get :: "('k, 'v) dashmap \<Rightarrow> 'k \<Rightarrow> 'v option" where
  "dm_get m k = map_of m k"

definition dm_insert :: "'k \<Rightarrow> 'v \<Rightarrow> ('k, 'v) dashmap \<Rightarrow> ('k, 'v) dashmap" where
  "dm_insert k v m = AList.update k v m"

definition dm_contains_key :: "('k, 'v) dashmap \<Rightarrow> 'k \<Rightarrow> bool" where
  "dm_contains_key m k \<longleftrightarrow> dm_get m k \<noteq> None"

definition dm_values :: "('k, 'v) dashmap \<Rightarrow> 'v list" where
  "dm_values m = map snd m"

text \<open>No key twice: what every reachable \<open>DashMap\<close> satisfies.\<close>

definition dm_wf :: "('k, 'v) dashmap \<Rightarrow> bool" where
  "dm_wf m \<longleftrightarrow> distinct (map fst m)"

lemma dm_get_empty [simp]: "dm_get [] k = None"
  by (simp add: dm_get_def)

lemma dm_wf_empty [simp]: "dm_wf []"
  by (simp add: dm_wf_def)

lemma dm_get_insert [simp, dm_simps]:
  "dm_get (dm_insert k v m) k' = (if k' = k then Some v else dm_get m k')"
  by (simp add: dm_get_def dm_insert_def update_conv')

lemma dm_wf_insert [simp, intro]: "dm_wf m \<Longrightarrow> dm_wf (dm_insert k v m)"
  by (simp add: dm_wf_def dm_insert_def distinct_update)

lemma dm_contains_key_insert [simp, dm_simps]:
  "dm_contains_key (dm_insert k v m) k' \<longleftrightarrow> k' = k \<or> dm_contains_key m k'"
  by (simp add: dm_contains_key_def)

lemma dm_contains_key_empty [simp]: "\<not> dm_contains_key [] k"
  by (simp add: dm_contains_key_def)

lemma dm_get_in_set: "dm_get m k = Some v \<Longrightarrow> (k, v) \<in> set m"
  by (simp add: dm_get_def map_of_SomeD)

lemma dm_get_eq_Some_iff: "dm_wf m \<Longrightarrow> dm_get m k = Some v \<longleftrightarrow> (k, v) \<in> set m"
  by (simp add: dm_get_def dm_wf_def)

lemma set_dm_insert:
  "dm_wf m \<Longrightarrow> set (dm_insert k v m) = {(k, v)} \<union> {(k', v') \<in> set m. k' \<noteq> k}"
  using dm_wf_insert [of m k v] dm_get_eq_Some_iff [of m]
    dm_get_eq_Some_iff [of "dm_insert k v m"] dm_get_insert [of k v m]
  by (fastforce split: if_splits)

lemma dm_get_in_values: "dm_get m k = Some v \<Longrightarrow> v \<in> snd ` set m"
  by (force dest: dm_get_in_set)

lemma dm_insert_insert [simp]: "dm_insert k v (dm_insert k w m) = dm_insert k v m"
  by (simp add: dm_insert_def update_last)

lemma dm_insert_triv: "dm_get m k = Some v \<Longrightarrow> dm_insert k v m = m"
  by (simp add: dm_get_def dm_insert_def update_triv)

lemma keys_dm_insert: "fst ` set (dm_insert k v m) = insert k (fst ` set m)"
  by (simp add: dm_insert_def dom_update)

lemma values_dm_insert_subset: "snd ` set (dm_insert k v m) \<subseteq> insert v (snd ` set m)"
proof (induction m)
  case Nil
  then show ?case by (simp add: dm_insert_def)
next
  case (Cons a m)
  then show ?case by (cases a) (auto simp: dm_insert_def)
qed

lemma dm_insert_all_values:
  "(\<forall>v' \<in> snd ` set m. P v') \<Longrightarrow> P v \<Longrightarrow> \<forall>v' \<in> snd ` set (dm_insert k v m). P v'"
  using values_dm_insert_subset [of k v m] by blast

lemma length_dm_insert:
  "length (dm_insert k v m) = (if dm_contains_key m k then length m else Suc (length m))"
  by (induction m) (auto simp: dm_insert_def dm_contains_key_def dm_get_def)

subsection \<open>Contract: a concurrent map\<close>

text \<open>
  What the components rely on when they call \<open>DashMap\<close>: a lookup after an insertion, and the
  well-formedness every operation keeps. The client lemmas are about inserting many entries, as
  the bulk operations of both stores do.
\<close>

locale keyed_store =
  fixes get :: "'m \<Rightarrow> 'k \<Rightarrow> 'v option"
    and put :: "'k \<Rightarrow> 'v \<Rightarrow> 'm \<Rightarrow> 'm"
    and wf :: "'m \<Rightarrow> bool"
  assumes get_put: "wf m \<Longrightarrow> get (put k v m) k' = (if k' = k then Some v else get m k')"
    and wf_put: "wf m \<Longrightarrow> wf (put k v m)"
begin

lemma wf_fold: "wf m \<Longrightarrow> wf (fold (\<lambda>(k, v). put k v) es m)"
  by (induction es arbitrary: m) (auto simp: wf_put)

lemma get_fold:
  "wf m \<Longrightarrow> get (fold (\<lambda>(k, v). put k v) es m) k
     = (case map_of (rev es) k of None \<Rightarrow> get m k | Some v \<Rightarrow> Some v)"
proof (induction es arbitrary: m)
  case Nil
  then show ?case by simp
next
  case (Cons e es)
  then show ?case
    by (cases e) (auto simp: get_put wf_put map_add_def split: option.splits)
qed

lemma put_put: "wf m \<Longrightarrow> get (put k v' (put k v m)) = get (put k v' m)"
  by (rule ext) (simp add: get_put wf_put)

lemma put_commute:
  "wf m \<Longrightarrow> k \<noteq> k' \<Longrightarrow> get (put k v (put k' v' m)) = get (put k' v' (put k v m))"
  by (rule ext) (simp add: get_put wf_put)

end

interpretation dm: keyed_store dm_get dm_insert dm_wf
  by unfold_locales auto

subsection \<open>Contract: the two-level store\<close>

text \<open>
  \<open>Partition ID -> Key -> Value\<close>. The two stores of the program differ in what a write does to a
  key that is already there: the distributed map overwrites it, the task queue keeps the old
  entry. The contract leaves that to \<open>merge\<close>, which must make a repeated write harmless.
\<close>

locale sharded_store =
  fixes lookup :: "'s \<Rightarrow> u32 \<Rightarrow> 'k \<Rightarrow> 'v option"
    and store :: "u32 \<Rightarrow> 'k \<Rightarrow> 'v \<Rightarrow> 's \<Rightarrow> 's"
    and merge :: "'v option \<Rightarrow> 'v \<Rightarrow> 'v"
    and inv :: "'s \<Rightarrow> bool"
  assumes lookup_store: "inv s \<Longrightarrow> lookup (store p k v s) p' k'
      = (if p' = p \<and> k' = k then Some (merge (lookup s p k) v) else lookup s p' k')"
    and inv_store: "inv s \<Longrightarrow> inv (store p k v s)"
    and merge_merge: "merge (Some (merge ov v)) v = merge ov v"
begin

lemma store_store: "inv s \<Longrightarrow> lookup (store p k v (store p k v s)) = lookup (store p k v s)"
  by (intro ext) (simp add: lookup_store inv_store merge_merge)

lemma inv_bulk: "inv s \<Longrightarrow> inv (fold (\<lambda>(k, v). store p k v) es s)"
  by (induction es arbitrary: s) (auto simp: inv_store)

lemma lookup_bulk_other:
  "inv s \<Longrightarrow> p' \<noteq> p \<or> k \<notin> fst ` set es \<Longrightarrow>
     lookup (fold (\<lambda>(k, v). store p k v) es s) p' k = lookup s p' k"
proof (induction es arbitrary: s)
  case Nil
  then show ?case by simp
next
  case (Cons e es)
  then show ?case by (cases e) (auto simp: lookup_store inv_store)
qed

lemma lookup_bulk:
  "inv s \<Longrightarrow> distinct (map fst es) \<Longrightarrow>
     lookup (fold (\<lambda>(k, v). store p k v) es s) p k
     = (case map_of es k of None \<Rightarrow> lookup s p k | Some v \<Rightarrow> Some (merge (lookup s p k) v))"
proof (induction es arbitrary: s)
  case Nil
  then show ?case by simp
next
  case (Cons e es)
  obtain k' v where e: "e = (k', v)" by (cases e)
  have inv': "inv (store p k' v s)" using Cons.prems by (simp add: inv_store)
  show ?case
  proof (cases "k = k'")
    case True
    have "k \<notin> fst ` set es" using Cons.prems e True by auto
    with inv' have "lookup (fold (\<lambda>(k, v). store p k v) es (store p k' v s)) p k
        = lookup (store p k' v s) p k"
      by (intro lookup_bulk_other) auto
    with Cons.prems e True show ?thesis by (simp add: lookup_store)
  next
    case False
    with Cons.prems have "lookup (store p k' v s) p k = lookup s p k"
      by (simp add: lookup_store)
    with Cons.IH [OF inv'] Cons.prems e False show ?thesis by (auto split: option.splits)
  qed
qed

end

subsection \<open>Small facts on lists and options\<close>

lemma find_SomeD: "List.find P xs = Some x \<Longrightarrow> x \<in> set xs \<and> P x"
  by (auto simp: find_Some_iff)

lemma map_of_distinct_cong:
  "distinct (map fst xs) \<Longrightarrow> distinct (map fst ys) \<Longrightarrow> set xs = set ys \<Longrightarrow> map_of xs = map_of ys"
  by (rule map_of_eqI) auto

end
