(* ===== verification/Membership.thy ===== *)
theory Membership
  imports Prelude
begin

text \<open>
  The membership service of one node (\<open>src/src/membership/types.rs\<close>, \<open>service.rs\<close>): its records
  and messages, the handler of each message, the tick of the gossip loop and the tick of the
  failure detector.

  Every operation takes the service and the current instant and returns the new service with the
  datagrams it hands to the socket, as pairs of a destination and a message. Instants are
  milliseconds of a monotonic clock. A datagram carries no \<open>last_seen\<close> (\<open>#[serde(skip)]\<close>), which
  \<open>wire\<close> models. The loops only log an error of \<open>send_to\<close> or of \<open>bincode\<close>, after the state has
  changed, so it has no counterpart here; \<open>new\<close> returns the error of \<open>bind\<close> and of \<open>send_to\<close>, and
  \<open>new_service\<close> does too. (\<open>bincode\<close> does not fail on the message it sends there.)

  Inputs of the model that are not code of the repository: the random id of a new node (an
  argument of \<open>new_service\<close>), whether the socket is bound and each \<open>Join\<close> sent, and the random index of the gossip loop.
\<close>

subsection \<open>Types\<close>

datatype node_state = Alive | Suspect | Dead

record node =
  nid :: str
  gossip_addr :: sock_addr
  http_addr :: sock_addr
  nstate :: node_state
  incarnation :: u64
  last_seen :: "nat option"

datatype gossip_message =
    Ping str u64
  | Ack str u64 "node list"
  | Join node
  | SuspectMsg str u64
  | AliveMsg str u64

record membership =
  local_node :: node
  members :: "(str, node) dashmap"
  incarnation_counter :: u64

type_synonym datagrams = "(sock_addr \<times> gossip_message) list"

definition GOSSIP_INTERVAL :: nat where "GOSSIP_INTERVAL = 500"
definition FAILURE_DETECTION_INTERVAL :: nat where "FAILURE_DETECTION_INTERVAL = 2000"
definition SUSPECT_TIMEOUT :: nat where "SUSPECT_TIMEOUT = 5000"
definition DEAD_TIMEOUT :: nat where "DEAD_TIMEOUT = 10000"

definition skip_last_seen :: "node \<Rightarrow> node" where
  "skip_last_seen m = m\<lparr>last_seen := None\<rparr>"

fun wire :: "gossip_message \<Rightarrow> gossip_message" where
  "wire (Ack from inc ms) = Ack from inc (map skip_last_seen ms)"
| "wire (Join m) = Join (skip_last_seen m)"
| "wire msg = msg"

text \<open>The convention HTTP port = gossip port + 1000, in \<open>u16\<close> arithmetic.\<close>

definition http_addr_of :: "sock_addr \<Rightarrow> sock_addr" where
  "http_addr_of a = (fst a, snd a + 1000)"

subsection \<open>Construction and queries\<close>

definition initial_service :: "str \<Rightarrow> sock_addr \<Rightarrow> nat \<Rightarrow> membership" where
  "initial_service uuid bind_addr now =
     (let ln = \<lparr>nid = uuid, gossip_addr = bind_addr, http_addr = http_addr_of bind_addr,
                nstate = Alive, incarnation = 1, last_seen = Some now\<rparr>
      in \<lparr>local_node = ln, members = dm_insert uuid ln [], incarnation_counter = 1\<rparr>)"

text \<open>The loop over the seeds: \<open>sendable k\<close> says whether the \<open>k\<close>-th \<open>send_to\<close> succeeds; the first one
  that fails ends the loop, and the start-up, with an error.\<close>

fun join_seeds :: "(nat \<Rightarrow> bool) \<Rightarrow> node \<Rightarrow> sock_addr list \<Rightarrow> bool \<times> datagrams" where
  "join_seeds sendable ln [] = (True, [])"
| "join_seeds sendable ln (seed # seeds) =
     (if sendable 0 then
        (case join_seeds (\<lambda>k. sendable (Suc k)) ln seeds of
           (ok, out) \<Rightarrow> (ok, (seed, wire (Join ln)) # out))
      else (False, []))"

text \<open>\<open>None\<close> is the error that \<open>?\<close> returns: the socket cannot be bound, or a \<open>Join\<close> cannot be sent;
  what was sent before stays sent.\<close>

definition new_service :: "str \<Rightarrow> sock_addr \<Rightarrow> nat \<Rightarrow> bool \<Rightarrow> (nat \<Rightarrow> bool) \<Rightarrow> sock_addr list
    \<Rightarrow> membership option \<times> datagrams" where
  "new_service uuid bind_addr now bound sendable seed_nodes =
     (if bound then
        (let s = initial_service uuid bind_addr now
         in case join_seeds sendable (local_node s) seed_nodes of
              (ok, out) \<Rightarrow> (if ok then Some s else None, out))
      else (None, []))"

definition get_member :: "membership \<Rightarrow> str \<Rightarrow> node option" where
  "get_member s i = dm_get (members s) i"

definition get_alive_members :: "membership \<Rightarrow> node list" where
  "get_alive_members s = filter (\<lambda>m. nstate m = Alive) (dm_values (members s))"

text \<open>To every member that is alive, except the local node.\<close>

definition broadcast_message :: "membership \<Rightarrow> gossip_message \<Rightarrow> datagrams" where
  "broadcast_message s msg =
     map (\<lambda>m. (gossip_addr m, wire msg))
       (filter (\<lambda>m. nid m \<noteq> nid (local_node s) \<and> nstate m = Alive) (dm_values (members s)))"

subsection \<open>The gossip loop\<close>

text \<open>
  One round of the loop. \<open>idx\<close> is the value of \<open>gen_range(0..alive_members.len())\<close>: an index
  of the list when it is not empty. An index out of range cannot be drawn; it sends nothing.
\<close>

definition gossip_targets :: "membership \<Rightarrow> node list" where
  "gossip_targets s =
     filter (\<lambda>m. nid m \<noteq> nid (local_node s) \<and> nstate m = Alive) (dm_values (members s))"

definition gossip_tick :: "nat \<Rightarrow> membership \<Rightarrow> datagrams" where
  "gossip_tick idx s =
     (let alive_members = gossip_targets s
      in if alive_members = [] then []
         else if idx < length alive_members
           then [(gossip_addr (alive_members ! idx),
                  wire (Ping (nid (local_node s)) (incarnation_counter s)))]
           else [])"

subsection \<open>The handlers\<close>

definition handle_ping :: "nat \<Rightarrow> str \<Rightarrow> u64 \<Rightarrow> sock_addr \<Rightarrow> membership \<Rightarrow> membership \<times> datagrams" where
  "handle_ping now from from_incarnation src s =
     (let ms = (case dm_get (members s) from of
            Some m \<Rightarrow>
              (let m1 = m\<lparr>last_seen := Some now\<rparr>
               in dm_insert from
                    (if from_incarnation > incarnation m1 then m1\<lparr>incarnation := from_incarnation\<rparr>
                     else m1) (members s))
          | None \<Rightarrow>
              dm_insert from
                \<lparr>nid = from, gossip_addr = src, http_addr = http_addr_of src, nstate = Alive,
                 incarnation = from_incarnation, last_seen = Some now\<rparr> (members s))
      in (s\<lparr>members := ms\<rparr>,
          [(src, wire (Ack (nid (local_node s)) (incarnation_counter s) (dm_values ms)))]))"

definition merge_member :: "nat \<Rightarrow> node \<Rightarrow> membership \<Rightarrow> membership" where
  "merge_member now new_member s =
     (case dm_get (members s) (nid new_member) of
        Some existing \<Rightarrow>
          if nstate existing = Dead then s
          else if incarnation new_member > incarnation existing
            then s\<lparr>members := dm_insert (nid new_member)
                   (existing\<lparr>nstate := nstate new_member, incarnation := incarnation new_member,
                             last_seen := Some now\<rparr>) (members s)\<rparr>
            else s
      | None \<Rightarrow>
          if nstate new_member = Dead then s
          else s\<lparr>members := dm_insert (nid new_member)
                 (new_member\<lparr>last_seen := Some now\<rparr>) (members s)\<rparr>)"

definition handle_ack :: "nat \<Rightarrow> str \<Rightarrow> u64 \<Rightarrow> node list \<Rightarrow> membership \<Rightarrow> membership" where
  "handle_ack now from from_incarnation ms s =
     (case dm_get (members s) from of
        Some m \<Rightarrow>
          if nstate m = Dead then s
          else
            (let m1 = m\<lparr>last_seen := Some now\<rparr>;
                 m2 = (if from_incarnation > incarnation m1 then m1\<lparr>incarnation := from_incarnation\<rparr>
                       else m1)
             in fold (merge_member now) ms (s\<lparr>members := dm_insert from m2 (members s)\<rparr>))
      | None \<Rightarrow> fold (merge_member now) ms s)"

definition handle_suspect :: "nat \<Rightarrow> str \<Rightarrow> u64 \<Rightarrow> membership \<Rightarrow> membership \<times> datagrams" where
  "handle_suspect now i inc s =
     (case dm_get (members s) i of
        Some existing \<Rightarrow>
          if nstate existing = Dead then (s, [])
          else if inc > incarnation existing then
            (if nid existing = nid (local_node s) then
               (let my_incarnation = incarnation_counter s + 1;
                    s1 = s\<lparr>incarnation_counter := my_incarnation,
                           members := dm_insert i
                             (existing\<lparr>incarnation := my_incarnation, nstate := Alive,
                                       last_seen := Some now\<rparr>) (members s)\<rparr>
                in (s1, broadcast_message s1 (AliveMsg i my_incarnation)))
             else
               (s\<lparr>members := dm_insert i
                    (existing\<lparr>nstate := Suspect, incarnation := inc, last_seen := Some now\<rparr>)
                    (members s)\<rparr>, []))
          else (s, [])
      | None \<Rightarrow> (s, []))"

definition handle_alive :: "nat \<Rightarrow> str \<Rightarrow> u64 \<Rightarrow> membership \<Rightarrow> membership" where
  "handle_alive now i inc s =
     (case dm_get (members s) i of
        Some existing \<Rightarrow>
          if nstate existing = Dead then s
          else if inc > incarnation existing
               \<or> inc = incarnation existing \<and> nstate existing = Suspect
            then s\<lparr>members := dm_insert i
                   (existing\<lparr>nstate := Alive, incarnation := inc, last_seen := Some now\<rparr>)
                   (members s)\<rparr>
            else s
      | None \<Rightarrow> s)"

definition handle_join :: "nat \<Rightarrow> node \<Rightarrow> membership \<Rightarrow> membership" where
  "handle_join now m s = s\<lparr>members := dm_insert (nid m) (m\<lparr>last_seen := Some now\<rparr>) (members s)\<rparr>"

fun handle_message :: "nat \<Rightarrow> gossip_message \<Rightarrow> sock_addr \<Rightarrow> membership \<Rightarrow> membership \<times> datagrams" where
  "handle_message now (Ping from inc) src s = handle_ping now from inc src s"
| "handle_message now (Ack from inc ms) src s = (handle_ack now from inc ms s, [])"
| "handle_message now (Join m) src s = (handle_join now m s, [])"
| "handle_message now (SuspectMsg i inc) src s = handle_suspect now i inc s"
| "handle_message now (AliveMsg i inc) src s = (handle_alive now i inc s, [])"

subsection \<open>The failure detector\<close>

text \<open>
  The body of the loop over \<open>members.iter_mut()\<close>: the entry after the tick and the message it
  adds to \<open>messages_to_broadcast\<close>. \<open>duration_since\<close> saturates at zero, as \<open>-\<close> on \<open>nat\<close>.
\<close>

definition detect_member :: "nat \<Rightarrow> str \<Rightarrow> node \<Rightarrow> node \<times> gossip_message list" where
  "detect_member now local_id m =
     (if nid m = local_id then (m, [])
      else if nstate m = Dead then (m, [])
      else case last_seen m of
        Some seen \<Rightarrow>
          (let elapsed = now - seen
           in case nstate m of
             Alive \<Rightarrow>
               if elapsed > SUSPECT_TIMEOUT
               then (m\<lparr>nstate := Suspect\<rparr>, [SuspectMsg (nid m) (incarnation m)])
               else (m, [])
           | Suspect \<Rightarrow>
               if elapsed > DEAD_TIMEOUT then (m\<lparr>nstate := Dead\<rparr>, []) else (m, [])
           | Dead \<Rightarrow> (m, []))
      | None \<Rightarrow> (m\<lparr>last_seen := Some now\<rparr>, []))"

definition failure_detection_tick :: "nat \<Rightarrow> membership \<Rightarrow> membership \<times> datagrams" where
  "failure_detection_tick now s =
     (let local_id = nid (local_node s);
          s1 = s\<lparr>members := map (\<lambda>(k, m). (k, fst (detect_member now local_id m))) (members s)\<rparr>;
          msgs = concat (map (\<lambda>(k, m). snd (detect_member now local_id m)) (members s))
      in (s1, concat (map (broadcast_message s1) msgs)))"

text \<open>The three background loops, one iteration each.\<close>

datatype gossip_event = Recv sock_addr gossip_message | GossipTick nat | DetectTick

fun service_step :: "nat \<Rightarrow> gossip_event \<Rightarrow> membership \<Rightarrow> membership \<times> datagrams" where
  "service_step now (Recv src msg) s = handle_message now msg src s"
| "service_step now (GossipTick idx) s = (s, gossip_tick idx s)"
| "service_step now DetectTick s = failure_detection_tick now s"

text \<open>The member a \<open>Join\<close> message would overwrite.\<close>

fun joins :: "gossip_event \<Rightarrow> str \<Rightarrow> bool" where
  "joins (Recv src (Join m)) i \<longleftrightarrow> nid m = i"
| "joins _ _ \<longleftrightarrow> False"

subsection \<open>How one member evolves\<close>

text \<open>
  \<open>member_later loc i m m'\<close>: what every operation except a \<open>Join\<close> of \<open>i\<close> may do to the entry of
  \<open>i\<close> in the service of node \<open>loc\<close>. A dead member stays dead, addresses and identity stay, and
  the incarnation of another node never falls. \<open>entry_later\<close> lifts this to services.
\<close>

definition member_later :: "str \<Rightarrow> str \<Rightarrow> node \<Rightarrow> node \<Rightarrow> bool" where
  "member_later loc i m m' \<longleftrightarrow>
     (nstate m = Dead \<longrightarrow> nstate m' = Dead) \<and>
     nid m' = nid m \<and> gossip_addr m' = gossip_addr m \<and> http_addr m' = http_addr m \<and>
     (i \<noteq> loc \<longrightarrow> incarnation m \<le> incarnation m')"

definition entry_later :: "str \<Rightarrow> membership \<Rightarrow> membership \<Rightarrow> bool" where
  "entry_later i s s' \<longleftrightarrow>
     local_node s' = local_node s \<and>
     (\<forall>m. dm_get (members s) i = Some m \<longrightarrow>
        (\<exists>m'. dm_get (members s') i = Some m' \<and> member_later (nid (local_node s)) i m m'))"

lemma member_later_refl [simp, intro]: "member_later loc i m m"
  by (simp add: member_later_def)

lemma member_later_trans [trans]:
  "member_later loc i a b \<Longrightarrow> member_later loc i b c \<Longrightarrow> member_later loc i a c"
  by (auto simp: member_later_def)

lemma entry_later_refl [simp, intro]: "entry_later i s s"
  by (simp add: entry_later_def)

lemma entry_later_trans [trans]:
  "entry_later i a b \<Longrightarrow> entry_later i b c \<Longrightarrow> entry_later i a c"
  unfolding entry_later_def using member_later_trans by (metis (no_types, lifting))

lemma entry_later_update:
  "(i = k \<Longrightarrow> \<forall>m. dm_get (members s) i = Some m \<longrightarrow> member_later (nid (local_node s)) i m m')
     \<Longrightarrow> entry_later i s (s\<lparr>members := dm_insert k m' (members s)\<rparr>)"
  by (auto simp: entry_later_def)

text \<open>Keys are the ids of their entries, no key twice, and the local node is a member.\<close>

definition members_ok :: "membership \<Rightarrow> bool" where
  "members_ok s \<longleftrightarrow>
     dm_wf (members s) \<and> (\<forall>(k, m) \<in> set (members s). nid m = k) \<and>
     dm_get (members s) (nid (local_node s)) \<noteq> None"

lemma members_okD:
  "members_ok s \<Longrightarrow> dm_get (members s) i = Some m \<Longrightarrow> nid m = i"
  by (auto simp: members_ok_def dest: dm_get_in_set)

lemma members_ok_insert:
  "members_ok s \<Longrightarrow> nid m = k \<Longrightarrow> members_ok (s\<lparr>members := dm_insert k m (members s)\<rparr>)"
  by (auto simp: members_ok_def set_dm_insert)

lemma members_ok_initial: "members_ok (initial_service uuid a now)"
  by (simp add: members_ok_def initial_service_def dm_insert_def dm_wf_def dm_get_def Let_def)

lemma new_service_SomeD:
  "fst (new_service uuid a now bound sendable seeds) = Some s \<Longrightarrow> s = initial_service uuid a now"
  by (auto simp: new_service_def Let_def split: prod.splits if_splits)

lemma join_seeds_fails: "fst (join_seeds sendable ln seeds) \<longleftrightarrow> (\<forall>k < length seeds. sendable k)"
  by (induction sendable ln seeds rule: join_seeds.induct)
     (auto simp: All_less_Suc2 split: prod.splits)

lemma new_service_NoneD:
  "fst (new_service uuid a now bound sendable seeds) = None
     \<Longrightarrow> \<not> (bound \<and> list_all sendable [0..<length seeds])"
  using join_seeds_fails [of sendable "local_node (initial_service uuid a now)" seeds]
  by (auto simp: new_service_def Let_def list_all_iff split: prod.splits if_splits)

lemma initial_service_simps [simp]:
  "nid (local_node (initial_service uuid a now)) = uuid"
  "http_addr (local_node (initial_service uuid a now)) = http_addr_of a"
  "incarnation_counter (initial_service uuid a now) = 1"
  by (simp_all add: initial_service_def Let_def)

text \<open>Each handler, first for the evolution of entries, then for well-formedness.\<close>

lemma handle_ping_later: "entry_later i s (fst (handle_ping now from inc src s))"
  by (auto simp: handle_ping_def Let_def member_later_def
      intro!: entry_later_update split: option.splits)

lemma merge_member_later: "entry_later i s (merge_member now new s)"
  by (auto simp: merge_member_def member_later_def intro!: entry_later_update split: option.splits)

lemma fold_merge_later: "entry_later i s (fold (merge_member now) ms s)"
proof (induction ms arbitrary: s)
  case Nil
  then show ?case by simp
next
  case (Cons m ms)
  have "entry_later i s (merge_member now m s)" by (rule merge_member_later)
  also have "entry_later i (merge_member now m s) (fold (merge_member now) (m # ms) s)"
    using Cons.IH by simp
  finally show ?case .
qed

lemma handle_ack_later: "entry_later i s (handle_ack now from inc ms s)"
proof (cases "dm_get (members s) from")
  case None
  then show ?thesis by (simp add: handle_ack_def fold_merge_later)
next
  case (Some m)
  let ?m1 = "m\<lparr>last_seen := Some now\<rparr>"
  let ?m2 = "if inc > incarnation ?m1 then ?m1\<lparr>incarnation := inc\<rparr> else ?m1"
  let ?s1 = "s\<lparr>members := dm_insert from ?m2 (members s)\<rparr>"
  have "entry_later i s ?s1"
    using Some by (intro entry_later_update) (auto simp: member_later_def)
  also have "entry_later i ?s1 (fold (merge_member now) ms ?s1)" by (rule fold_merge_later)
  finally show ?thesis using Some by (simp add: handle_ack_def Let_def)
qed

lemma handle_suspect_later:
  assumes "members_ok s"
  shows "entry_later i s (fst (handle_suspect now k inc s))"
proof (cases "dm_get (members s) k")
  case None
  then show ?thesis by (simp add: handle_suspect_def)
next
  case (Some m)
  with assms have "nid m = k" by (rule members_okD)
  with Some show ?thesis
    by (auto simp: handle_suspect_def Let_def entry_later_def member_later_def)
qed

lemma handle_alive_later: "entry_later i s (handle_alive now k inc s)"
  by (auto simp: handle_alive_def member_later_def intro!: entry_later_update split: option.splits)

lemma handle_join_later: "nid m \<noteq> i \<Longrightarrow> entry_later i s (handle_join now m s)"
  by (auto simp: handle_join_def intro!: entry_later_update)

lemma detect_member_later: "member_later loc i m (fst (detect_member now loc' m))"
  by (auto simp: detect_member_def member_later_def Let_def split: option.splits node_state.splits)

lemma map_of_map_snd: "map_of (map (\<lambda>(k, v). (k, f v)) xs) k = map_option f (map_of xs k)"
  by (induction xs) auto

lemma get_failure_detection:
  "dm_get (members (fst (failure_detection_tick now s))) i
     = map_option (\<lambda>m. fst (detect_member now (nid (local_node s)) m)) (dm_get (members s) i)"
  by (simp add: failure_detection_tick_def Let_def dm_get_def map_of_map_snd)

lemma failure_detection_later: "entry_later i s (fst (failure_detection_tick now s))"
  by (auto simp: entry_later_def get_failure_detection detect_member_later)
     (simp add: failure_detection_tick_def Let_def)

lemmas handlers_later = handle_ping_later handle_ack_later handle_suspect_later
  handle_alive_later failure_detection_later

lemma service_step_later:
  assumes "members_ok s" and "\<not> joins e i"
  shows "entry_later i s (fst (service_step now e s))"
  using assms
  by (induction now e s rule: service_step.induct, case_tac msg)
     (auto simp: handlers_later handle_join_later)

lemma merge_member_ok: "members_ok s \<Longrightarrow> members_ok (merge_member now new s)"
  by (auto simp: merge_member_def dest: members_okD intro!: members_ok_insert split: option.splits)

lemma fold_merge_ok: "members_ok s \<Longrightarrow> members_ok (fold (merge_member now) ms s)"
  by (induction ms arbitrary: s) (auto intro: merge_member_ok)

lemma handle_ack_ok: "members_ok s \<Longrightarrow> members_ok (handle_ack now from inc ms s)"
  by (auto simp: handle_ack_def Let_def dest: members_okD
      intro!: fold_merge_ok members_ok_insert split: option.splits)

lemma handle_ping_ok: "members_ok s \<Longrightarrow> members_ok (fst (handle_ping now from inc src s))"
  by (auto simp: handle_ping_def Let_def dest: members_okD
      intro!: members_ok_insert split: option.splits)

lemma members_ok_counter [simp]:
  "members_ok (s\<lparr>incarnation_counter := c, members := ms\<rparr>) = members_ok (s\<lparr>members := ms\<rparr>)"
  by (simp add: members_ok_def)

lemma handle_suspect_ok:
  assumes ok: "members_ok s"
  shows "members_ok (fst (handle_suspect now k inc s))"
proof (cases "dm_get (members s) k")
  case None
  with ok show ?thesis by (simp add: handle_suspect_def)
next
  case (Some m)
  with ok have "nid m = k" by (rule members_okD)
  with ok Some show ?thesis
    by (simp add: handle_suspect_def Let_def members_ok_insert)
qed

lemma handle_alive_ok: "members_ok s \<Longrightarrow> members_ok (handle_alive now k inc s)"
  by (auto simp: handle_alive_def dest: members_okD intro!: members_ok_insert split: option.splits)

lemma handle_join_ok: "members_ok s \<Longrightarrow> members_ok (handle_join now m s)"
  by (simp add: handle_join_def members_ok_insert)

lemma detect_member_nid [simp]: "nid (fst (detect_member now loc m)) = nid m"
  by (auto simp: detect_member_def Let_def split: option.splits node_state.splits)

lemma failure_detection_ok: "members_ok s \<Longrightarrow> members_ok (fst (failure_detection_tick now s))"
proof -
  assume ok: "members_ok s"
  let ?f = "\<lambda>(k, m). (k, fst (detect_member now (nid (local_node s)) m))"
  have keys: "map fst (map ?f (members s)) = map fst (members s)" by (auto intro: map_cong)
  have "dm_wf (map ?f (members s))"
    using ok keys unfolding members_ok_def dm_wf_def by metis
  moreover have "\<forall>(k, m) \<in> set (map ?f (members s)). nid m = k"
    using ok by (auto simp: members_ok_def)
  moreover have "dm_get (map ?f (members s)) (nid (local_node s)) \<noteq> None"
    using ok by (simp add: members_ok_def dm_get_def map_of_map_snd)
  ultimately show ?thesis
    by (simp add: failure_detection_tick_def Let_def members_ok_def)
qed

lemmas handlers_ok = handle_ping_ok handle_ack_ok handle_suspect_ok handle_alive_ok
  handle_join_ok failure_detection_ok

lemma service_step_ok: "members_ok s \<Longrightarrow> members_ok (fst (service_step now e s))"
  by (induction now e s rule: service_step.induct, case_tac msg) (auto simp: handlers_ok)

subsection \<open>Runs of one service\<close>

fun service_run :: "(nat \<times> gossip_event) list \<Rightarrow> membership \<Rightarrow> membership" where
  "service_run [] s = s"
| "service_run ((now, e) # es) s = service_run es (fst (service_step now e s))"

lemma service_run_ok: "members_ok s \<Longrightarrow> members_ok (service_run es s)"
  by (induction es s rule: service_run.induct) (auto simp: service_step_ok)

lemma service_run_later:
  "members_ok s \<Longrightarrow> list_all (\<lambda>(now, e). \<not> joins e i) es \<Longrightarrow> entry_later i s (service_run es s)"
proof (induction es s rule: service_run.induct)
  case (1 s)
  then show ?case by simp
next
  case (2 now e es s)
  let ?s1 = "fst (service_step now e s)"
  have "entry_later i s ?s1" using 2 by (auto intro: service_step_later)
  also have "entry_later i ?s1 (service_run es ?s1)"
    using 2 by (auto simp: service_step_ok)
  finally show ?case by simp
qed

lemma alive_members_iff:
  "members_ok s \<Longrightarrow> m \<in> set (get_alive_members s) \<longleftrightarrow>
     dm_get (members s) (nid m) = Some m \<and> nstate m = Alive"
  by (force simp: get_alive_members_def dm_values_def members_ok_def dm_get_eq_Some_iff)

subsection \<open>Properties\<close>

text \<open>C15: whatever a node receives and whenever its timers fire, from the moment it starts its member
  table holds no id twice, files every entry under its own id, and contains the local node.\<close>
theorem membership_table_ok:
  "case fst (new_service uuid bind_addr now bound sendable seed_nodes) of
     None \<Rightarrow> \<not> (bound \<and> list_all sendable [0..<length seed_nodes])
   | Some s \<Rightarrow> members_ok (service_run es s)"
proof (cases "fst (new_service uuid bind_addr now bound sendable seed_nodes)")
  case None
  then show ?thesis using new_service_NoneD by simp
next
  case (Some s)
  then show ?thesis by (auto dest: new_service_SomeD intro: service_run_ok members_ok_initial)
qed

text \<open>C14: a member declared Dead stays Dead, and out of the list of alive members, through any
  sequence of messages and ticks that holds no Join of that member.\<close>
theorem dead_is_absorbing:
  assumes "members_ok s" and "list_all (\<lambda>(now, e). \<not> joins e i) es"
    and "get_member s i = Some m" and "nstate m = Dead"
  shows "(\<exists>m'. get_member (service_run es s) i = Some m' \<and> nstate m' = Dead) \<and>
    i \<notin> nid ` set (get_alive_members (service_run es s))"
proof -
  have "entry_later i s (service_run es s)" using assms(1,2) by (rule service_run_later)
  with assms(3,4) have dead: "\<exists>m'. get_member (service_run es s) i = Some m' \<and> nstate m' = Dead"
    by (auto simp: entry_later_def get_member_def member_later_def)
  have "members_ok (service_run es s)" using assms(1) by (rule service_run_ok)
  with dead show ?thesis
    by (auto simp: alive_members_iff get_member_def)
qed

text \<open>A service that has joined nobody, and one that knows a dead and a suspected member.\<close>

definition sample_addr :: "nat \<Rightarrow> sock_addr" where
  "sample_addr k = (lit ''10.0.0.1'', of_nat (5000 + k))"

definition sample_member :: "str \<Rightarrow> node_state \<Rightarrow> u64 \<Rightarrow> node" where
  "sample_member i st inc = \<lparr>nid = i, gossip_addr = sample_addr 1, http_addr = sample_addr 1001,
     nstate = st, incarnation = inc, last_seen = Some 0\<rparr>"

definition sample_service :: "node_state \<Rightarrow> u64 \<Rightarrow> membership" where
  "sample_service st inc =
     (let s = initial_service (lit ''a'') (sample_addr 0) 0
      in s\<lparr>members := dm_insert (lit ''b'') (sample_member (lit ''b'') st inc) (members s)\<rparr>)"

lemma sample_service_ok: "members_ok (sample_service st inc)"
  unfolding sample_service_def Let_def
  by (rule members_ok_insert [OF members_ok_initial]) (simp add: sample_member_def)

lemma sample_service_get [simp]:
  "dm_get (members (sample_service st inc)) (lit ''b'') = Some (sample_member (lit ''b'') st inc)"
  by (simp add: sample_service_def Let_def)

lemma sample_service_local [simp]: "nid (local_node (sample_service st inc)) = lit ''a''"
  by (simp add: sample_service_def Let_def)

lemma sample_member_sel [simp]:
  "nid (sample_member i st inc) = i" "nstate (sample_member i st inc) = st"
  "incarnation (sample_member i st inc) = inc" "last_seen (sample_member i st inc) = Some 0"
  by (simp_all add: sample_member_def)

theorem dead_is_absorbing_witness:
  "lit ''b'' \<notin> nid ` set (get_alive_members (service_run
     [(1, Recv (sample_addr 1) (Ping (lit ''b'') 9)), (2, Recv (sample_addr 1) (AliveMsg (lit ''b'') 9))]
     (sample_service Dead 1)))"
  by (rule dead_is_absorbing [OF sample_service_ok, where m = "sample_member (lit ''b'') Dead 1",
        THEN conjunct2])
     (simp_all add: get_member_def)

text \<open>The incarnation recorded for another node never falls, and its identity and addresses
  never change, through any sequence of messages and ticks that holds no Join of that node.\<close>
theorem incarnation_monotone:
  assumes "members_ok s" and "list_all (\<lambda>(now, e). \<not> joins e i) es"
    and "get_member s i = Some m" and "i \<noteq> nid (local_node s)"
  shows "\<exists>m'. get_member (service_run es s) i = Some m' \<and> incarnation m \<le> incarnation m' \<and>
    nid m' = nid m \<and> gossip_addr m' = gossip_addr m \<and> http_addr m' = http_addr m"
  using service_run_later [OF assms(1,2)] assms(3,4)
  by (auto simp: entry_later_def get_member_def member_later_def)

theorem incarnation_monotone_witness:
  "\<exists>m'. get_member (service_run [(1, Recv (sample_addr 1) (Ping (lit ''b'') 2))]
     (sample_service Alive 3)) (lit ''b'') = Some m' \<and> 3 \<le> incarnation m'"
proof -
  have "list_all (\<lambda>(now, e). \<not> joins e (lit ''b'')) [(1::nat, Recv (sample_addr 1) (Ping (lit ''b'') 2))]"
    and "get_member (sample_service Alive 3) (lit ''b'') = Some (sample_member (lit ''b'') Alive 3)"
    and "lit ''b'' \<noteq> nid (local_node (sample_service Alive 3))"
    by (simp, simp add: get_member_def, simp add: lit_simps)
  from incarnation_monotone [OF sample_service_ok this] show ?thesis by auto
qed

text \<open>One tick of the failure detector on a member last heard from at \<open>t\<close>: an Alive member turns
  Suspect exactly when more than SUSPECT_TIMEOUT has passed, a Suspect one turns Dead exactly when
  more than DEAD_TIMEOUT has passed, no step skips Suspect, and nothing else of the entry changes.\<close>
theorem failure_detector_exact:
  assumes "members_ok s" and "get_member s i = Some m" and "i \<noteq> nid (local_node s)"
    and "last_seen m = Some t"
  shows "get_member (fst (failure_detection_tick now s)) i = Some (m\<lparr>nstate :=
     (case nstate m of
        Alive \<Rightarrow> if t + SUSPECT_TIMEOUT < now then Suspect else Alive
      | Suspect \<Rightarrow> if t + DEAD_TIMEOUT < now then Dead else Suspect
      | Dead \<Rightarrow> Dead)\<rparr>)"
proof -
  have "nid m = i" using assms(1,2) by (auto simp: get_member_def members_okD)
  with assms(2-4) show ?thesis
    by (auto simp: get_member_def get_failure_detection detect_member_def Let_def
        SUSPECT_TIMEOUT_def DEAD_TIMEOUT_def split: node_state.splits)
qed

theorem failure_detector_exact_witness:
  "get_member (fst (failure_detection_tick 5001 (sample_service Alive 1))) (lit ''b'')
     = Some (sample_member (lit ''b'') Suspect 1) \<and>
   get_member (fst (failure_detection_tick 5000 (sample_service Alive 1))) (lit ''b'')
     = Some (sample_member (lit ''b'') Alive 1)"
proof -
  have "get_member (sample_service Alive 1) (lit ''b'') = Some (sample_member (lit ''b'') Alive 1)"
    and "lit ''b'' \<noteq> nid (local_node (sample_service Alive 1))"
    and "last_seen (sample_member (lit ''b'') Alive 1) = Some 0"
    by (simp add: get_member_def, simp add: lit_simps, simp)
  from failure_detector_exact [OF sample_service_ok this] show ?thesis
    by (simp add: sample_member_def SUSPECT_TIMEOUT_def)
qed

text \<open>
  A member that nothing new is heard of. \<open>no_news i c e\<close>: the event brings no contact with \<open>i\<close> and
  nothing that outdates incarnation \<open>c\<close>. \<open>detected t\<close> is what one event of a run then does to
  the state of a member last seen at \<open>t\<close>, and \<open>late t d\<close> marks the ticks later than \<open>t + d\<close>.
\<close>

fun no_news :: "str \<Rightarrow> u64 \<Rightarrow> gossip_event \<Rightarrow> bool" where
  "no_news i c (Recv src (Ping from inc)) \<longleftrightarrow> from \<noteq> i"
| "no_news i c (Recv src (Ack from inc ms)) \<longleftrightarrow>
     from \<noteq> i \<and> list_all (\<lambda>m. nid m = i \<longrightarrow> incarnation m \<le> c) ms"
| "no_news i c (Recv src (Join m)) \<longleftrightarrow> nid m \<noteq> i"
| "no_news i c (Recv src (SuspectMsg k inc)) \<longleftrightarrow> (k = i \<longrightarrow> inc \<le> c)"
| "no_news i c (Recv src (AliveMsg k inc)) \<longleftrightarrow> (k = i \<longrightarrow> inc < c)"
| "no_news i c _ \<longleftrightarrow> True"

definition late :: "nat \<Rightarrow> nat \<Rightarrow> nat \<times> gossip_event \<Rightarrow> bool" where
  "late t d x \<longleftrightarrow> snd x = DetectTick \<and> t + d < fst x"

definition detected :: "nat \<Rightarrow> nat \<times> gossip_event \<Rightarrow> node_state \<Rightarrow> node_state" where
  "detected t x st =
     (case st of Alive \<Rightarrow> if late t SUSPECT_TIMEOUT x then Suspect else Alive
      | Suspect \<Rightarrow> if late t DEAD_TIMEOUT x then Dead else Suspect
      | Dead \<Rightarrow> Dead)"

lemma fold_merge_no_news:
  "dm_get (members s) i = Some m \<Longrightarrow> list_all (\<lambda>a. nid a = i \<longrightarrow> incarnation a \<le> incarnation m) ms
     \<Longrightarrow> dm_get (members (fold (merge_member now) ms s)) i = Some m"
proof (induction ms arbitrary: s)
  case (Cons a ms)
  then have "dm_get (members (merge_member now a s)) i = Some m"
    by (auto simp: merge_member_def split: option.splits)
  with Cons show ?case by simp
qed simp

lemma handle_ack_no_news:
  assumes "dm_get (members s) i = Some m" and "from \<noteq> i"
    and "list_all (\<lambda>a. nid a = i \<longrightarrow> incarnation a \<le> incarnation m) ms"
  shows "dm_get (members (handle_ack now from inc ms s)) i = Some m"
  using assms by (auto simp: handle_ack_def Let_def fold_merge_no_news split: option.splits)

lemma service_step_no_news:
  assumes ok: "members_ok s" and m: "get_member s i = Some m" and i: "i \<noteq> nid (local_node s)"
    and t: "last_seen m = Some t" and e: "no_news i (incarnation m) e"
  shows "get_member (fst (service_step now e s)) i = Some (m\<lparr>nstate := detected t (now, e) (nstate m)\<rparr>)"
proof -
  have nid: "nid m = i" using ok m by (auto simp: get_member_def members_okD)
  have same: "m\<lparr>nstate := detected t (now, e) (nstate m)\<rparr> = m" if "e \<noteq> DetectTick"
    using that by (cases m) (auto simp: detected_def late_def split: node_state.splits)
  show ?thesis
  proof (cases e)
    case (Recv src msg)
    then have "get_member (fst (service_step now e s)) i = Some m"
      using m e nid
      by (cases msg) (auto simp: get_member_def handle_ack_no_news handle_ping_def handle_suspect_def
          handle_alive_def handle_join_def Let_def not_less split: option.splits)
    with same Recv show ?thesis by simp
  next
    case (GossipTick k)
    with m same show ?thesis by simp
  next
    case DetectTick
    with failure_detector_exact [OF ok m i t, of now] show ?thesis
      by (simp add: detected_def late_def cong: node_state.case_cong)
  qed
qed

lemma no_news_joins: "no_news i c e \<Longrightarrow> \<not> joins e i"
  by (induction i c e rule: no_news.induct) auto

lemma service_run_no_news:
  "members_ok s \<Longrightarrow> get_member s i = Some m \<Longrightarrow> i \<noteq> nid (local_node s) \<Longrightarrow> last_seen m = Some t
     \<Longrightarrow> list_all (\<lambda>x. no_news i (incarnation m) (snd x)) es
     \<Longrightarrow> get_member (service_run es s) i = Some (m\<lparr>nstate := fold (detected t) es (nstate m)\<rparr>)"
proof (induction es s arbitrary: m rule: service_run.induct)
  case (1 s)
  then show ?case by simp
next
  case (2 now e es s)
  let ?s1 = "fst (service_step now e s)"
  let ?m1 = "m\<lparr>nstate := detected t (now, e) (nstate m)\<rparr>"
  have e: "no_news i (incarnation m) e" using 2 by simp
  have "entry_later i s ?s1" using 2 no_news_joins [OF e] by (intro service_step_later)
  then have "local_node ?s1 = local_node s" by (simp add: entry_later_def)
  moreover have "get_member ?s1 i = Some ?m1" using 2 e by (intro service_step_no_news)
  ultimately have "get_member (service_run es ?s1) i = Some (?m1\<lparr>nstate := fold (detected t) es (nstate ?m1)\<rparr>)"
    using 2 by (intro 2) (auto simp: service_step_ok)
  then show ?case by simp
qed

text \<open>The states that the detector goes through: never back, and Dead only after Suspect.\<close>

lemma detected_simps [simp]:
  "detected t x Alive = (if late t SUSPECT_TIMEOUT x then Suspect else Alive)"
  "detected t x Suspect = (if late t DEAD_TIMEOUT x then Dead else Suspect)"
  "detected t x Dead = Dead"
  by (simp_all add: detected_def)

lemma detected_Dead [simp]: "fold (detected t) es Dead = Dead"
  by (induction es) simp_all

lemma detected_Suspect:
  "fold (detected t) es Suspect = (if list_ex (late t DEAD_TIMEOUT) es then Dead else Suspect)"
  by (induction es) simp_all

lemma detected_Alive_iff:
  "fold (detected t) es Alive = Alive \<longleftrightarrow> \<not> list_ex (late t SUSPECT_TIMEOUT) es"
  by (induction es) (simp_all add: detected_Suspect)

lemma detected_Dead_iff:
  "fold (detected t) es Alive = Dead \<longleftrightarrow>
     (\<exists>before t1 between t2 after. es = before @ (t1, DetectTick) # between @ (t2, DetectTick) # after \<and>
        t + SUSPECT_TIMEOUT < t1 \<and> t + DEAD_TIMEOUT < t2)" (is "_ \<longleftrightarrow> ?two es")
proof (induction es)
  case (Cons x es)
  show ?case
  proof (cases "late t SUSPECT_TIMEOUT x")
    case True
    have "list_ex (late t DEAD_TIMEOUT) es \<longleftrightarrow> ?two (x # es)"
    proof
      assume "list_ex (late t DEAD_TIMEOUT) es"
      then obtain t2 where "(t2, DetectTick) \<in> set es" and t2: "t + DEAD_TIMEOUT < t2"
        by (auto simp: list_ex_iff late_def)
      then obtain between after where "es = between @ (t2, DetectTick) # after" by (meson split_list)
      moreover have "x = (fst x, DetectTick)" "t + SUSPECT_TIMEOUT < fst x"
        using True by (cases x, simp_all add: late_def)
      ultimately have "x # es = [] @ (fst x, DetectTick) # between @ (t2, DetectTick) # after \<and>
          t + SUSPECT_TIMEOUT < fst x \<and> t + DEAD_TIMEOUT < t2"
        using t2 by simp
      then show "?two (x # es)" by blast
    next
      assume "?two (x # es)"
      then show "list_ex (late t DEAD_TIMEOUT) es"
        by (auto simp: Cons_eq_append_conv list_ex_iff late_def)
    qed
    with True show ?thesis by (simp add: detected_Suspect)
  next
    case False
    have "?two (x # es) \<longleftrightarrow> ?two es"
    proof
      assume "?two (x # es)"
      then obtain before t1 between t2 after where
        d: "x # es = before @ (t1, DetectTick) # between @ (t2, DetectTick) # after"
        and l: "t + SUSPECT_TIMEOUT < t1" "t + DEAD_TIMEOUT < t2" by blast
      with False obtain before' where "before = x # before'"
        by (cases before) (auto simp: late_def)
      with d l show "?two es" by (metis append_Cons list.inject)
    qed (metis append_Cons)
    with False Cons.IH show ?thesis by simp
  qed
qed simp

text \<open>C19: what the failure detector makes of a member that stays silent. From an Alive member last seen
  at \<open>t\<close>, through any run of other messages, gossip ticks and failure-detector ticks in which nobody hears
  of it, it is still Alive exactly when no tick came later than \<open>t + SUSPECT_TIMEOUT\<close>, and it is Dead exactly
  when after a tick later than \<open>t + SUSPECT_TIMEOUT\<close> there was another one later than \<open>t + DEAD_TIMEOUT\<close>;
  otherwise it is Suspect, and nothing else of its entry changes. Both timeouts count from the last
  contact: the comment of the failure detector says that a node is Dead if it remains Suspect for
  DEAD_TIMEOUT (10 s), but it can be Dead 5 s after it became Suspect, or, if ticks are late, sooner.\<close>
theorem silent_member_states:
  assumes "members_ok s" and "get_member s i = Some m" and "i \<noteq> nid (local_node s)"
    and "last_seen m = Some t" and "nstate m = Alive"
    and "list_all (\<lambda>x. no_news i (incarnation m) (snd x)) es"
  shows "\<exists>st. get_member (service_run es s) i = Some (m\<lparr>nstate := st\<rparr>) \<and>
    (st = Alive \<longleftrightarrow> \<not> list_ex (\<lambda>(now, e). e = DetectTick \<and> t + SUSPECT_TIMEOUT < now) es) \<and>
    (st = Dead \<longleftrightarrow>
       (\<exists>before t1 between t2 after. es = before @ (t1, DetectTick) # between @ (t2, DetectTick) # after \<and>
          t + SUSPECT_TIMEOUT < t1 \<and> t + DEAD_TIMEOUT < t2))"
proof (intro exI conjI)
  show "get_member (service_run es s) i = Some (m\<lparr>nstate := fold (detected t) es Alive\<rparr>)"
    using service_run_no_news [OF assms(1-4,6)] assms(5) by simp
  show "fold (detected t) es Alive = Alive
      \<longleftrightarrow> \<not> list_ex (\<lambda>(now, e). e = DetectTick \<and> t + SUSPECT_TIMEOUT < now) es"
    by (simp add: detected_Alive_iff list_ex_iff late_def split_beta)
qed (rule detected_Dead_iff)

text \<open>Last seen at 0 and Suspect from 6000 on; other members and old news are heard of in between; Dead at 10001,
  four seconds after the suspicion.\<close>
theorem silent_member_states_witness:
  "get_member (service_run [(2000, DetectTick), (6000, DetectTick), (7000, Recv (sample_addr 2) (Ping (lit ''c'') 1)),
       (8000, Recv (sample_addr 2) (Ack (lit ''c'') 1 [sample_member (lit ''b'') Alive 1])), (10001, DetectTick)]
     (sample_service Alive 1)) (lit ''b'') = Some (sample_member (lit ''b'') Dead 1)"
proof -
  let ?es = "[(2000, DetectTick), (6000, DetectTick), (7000, Recv (sample_addr 2) (Ping (lit ''c'') 1)),
       (8000, Recv (sample_addr 2) (Ack (lit ''c'') 1 [sample_member (lit ''b'') Alive 1])), (10001, DetectTick)]"
  have m: "get_member (sample_service Alive 1) (lit ''b'') = Some (sample_member (lit ''b'') Alive 1)"
    and i: "lit ''b'' \<noteq> nid (local_node (sample_service Alive 1))"
    and t: "last_seen (sample_member (lit ''b'') Alive 1) = Some 0"
    and a: "nstate (sample_member (lit ''b'') Alive 1) = Alive"
    by (simp add: get_member_def, simp add: lit_simps, simp, simp)
  have news: "list_all (\<lambda>x. no_news (lit ''b'') (incarnation (sample_member (lit ''b'') Alive 1)) (snd x)) ?es"
    by (simp add: lit_simps)
  have two: "?es = [(2000, DetectTick)] @ (6000, DetectTick)
      # [(7000, Recv (sample_addr 2) (Ping (lit ''c'') 1)),
         (8000, Recv (sample_addr 2) (Ack (lit ''c'') 1 [sample_member (lit ''b'') Alive 1]))]
      @ (10001, DetectTick) # []" by simp
  have late: "0 + SUSPECT_TIMEOUT < 6000" "0 + DEAD_TIMEOUT < 10001"
    by (simp_all add: SUSPECT_TIMEOUT_def DEAD_TIMEOUT_def)
  show ?thesis
    using silent_member_states [OF sample_service_ok m i t a news] two late
    by (fastforce simp: sample_member_def)
qed

text \<open>Self-defence succeeds only against a suspicion that is at most one ahead of the node's own
  counter. A node that is suspected with incarnation \<open>inc\<close> answers with counter + 1; a peer that
  holds it as Suspect with \<open>inc\<close> takes it back as Alive exactly when \<open>inc\<close> is at most that.\<close>
theorem refutation_accepted_iff:
  assumes "get_member s me = Some m" and "nid m = me" and "nid (local_node s) = me"
    and "nstate m \<noteq> Dead" and "incarnation m < inc"
    and "get_member peer me = Some p" and "nstate p = Suspect" and "incarnation p = inc"
  shows "snd (handle_suspect now me inc s) =
      broadcast_message (fst (handle_suspect now me inc s)) (AliveMsg me (incarnation_counter s + 1)) \<and>
    (\<exists>p'. get_member (handle_alive now' me (incarnation_counter s + 1) peer) me = Some p' \<and>
      (nstate p' = Alive \<longleftrightarrow> inc \<le> incarnation_counter s + 1))"
  using assms by (auto simp: get_member_def handle_suspect_def handle_alive_def Let_def)

theorem refutation_accepted_iff_witness:
  "\<exists>p'. get_member (handle_alive 1 (lit ''b'') 2 (sample_service Suspect 7)) (lit ''b'') = Some p' \<and>
     nstate p' \<noteq> Alive"
proof -
  let ?s = "initial_service (lit ''b'') (sample_addr 1) 0"
  let ?m = "local_node ?s"
  have m: "get_member ?s (lit ''b'') = Some ?m" "nid ?m = lit ''b''" "nstate ?m \<noteq> Dead"
      "incarnation ?m < (7 :: u64)" "incarnation_counter ?s + 1 = 2"
    by (simp_all add: initial_service_def get_member_def Let_def)
  have p: "get_member (sample_service Suspect 7) (lit ''b'') = Some (sample_member (lit ''b'') Suspect 7)"
    by (simp add: get_member_def)
  from refutation_accepted_iff [OF m(1) m(2) m(2) m(3,4) p, of 0 1] m(5) show ?thesis by simp
qed

text \<open>Hearing from a suspected node does not clear the suspicion. A Ping from it, and an Ack of it
  without members, refresh the timestamp and the incarnation of its entry, and leave its state.\<close>
theorem contact_keeps_state:
  assumes "get_member s i = Some m"
  shows "(\<exists>m'. get_member (fst (handle_ping now i inc src s)) i = Some m' \<and>
      nstate m' = nstate m \<and> last_seen m' = Some now) \<and>
    (\<exists>m'. get_member (handle_ack now i inc [] s) i = Some m' \<and> nstate m' = nstate m)"
  using assms by (auto simp: get_member_def handle_ping_def handle_ack_def Let_def)

theorem contact_keeps_state_witness:
  "\<exists>m'. get_member (handle_ack 9 (lit ''b'') 5 [] (sample_service Suspect 1)) (lit ''b'') = Some m' \<and>
     nstate m' = Suspect"
proof -
  have "get_member (sample_service Suspect 1) (lit ''b'') = Some (sample_member (lit ''b'') Suspect 1)"
    by (simp add: get_member_def)
  from contact_keeps_state [OF this] show ?thesis by auto
qed

end
