(* ===== verification/Gossip.thy ===== *)
theory Gossip
  imports Membership
begin

text \<open>
  The cluster of membership services over UDP: any number of nodes, each at its gossip address,
  and the datagrams sent so far. A step starts a node (which may fail), stops one, or lets one iteration of one of
  a node's three loops run at an arbitrary time. A datagram stays in the list after it is
  received, and none has to be received, so datagrams are lost, duplicated and reordered freely.

  The invariant shows how incarnation numbers behave in a closed cluster: they all stay 1, because
  a node raises its own only when it hears a suspicion with a higher number, and a suspicion
  carries the number the suspected node announced. From it: no node ever sends an \<open>Alive\<close> message,
  and a member that has become Suspect in some node's table never becomes Alive there again unless
  a \<open>Join\<close> of it arrives.
\<close>

record gossip_net =
  services :: "sock_addr \<Rightarrow> membership option"
  packets :: "(sock_addr \<times> sock_addr \<times> gossip_message) list"

definition empty_net :: gossip_net where
  "empty_net = \<lparr>services = (\<lambda>_. None), packets = []\<rparr>"

definition stamp :: "sock_addr \<Rightarrow> datagrams \<Rightarrow> (sock_addr \<times> sock_addr \<times> gossip_message) list" where
  "stamp src ds = map (\<lambda>(dst, msg). (src, dst, msg)) ds"

fun deliverable :: "gossip_net \<Rightarrow> sock_addr \<Rightarrow> gossip_event \<Rightarrow> bool" where
  "deliverable n a (Recv src msg) \<longleftrightarrow> (src, a, msg) \<in> set (packets n)"
| "deliverable n a _ \<longleftrightarrow> True"

inductive gossip_step :: "gossip_net \<Rightarrow> gossip_net \<Rightarrow> bool" where
  start_node: "services n a = None \<Longrightarrow> new_service uuid a now bound sendable seeds = (s, out) \<Longrightarrow>
     gossip_step n (n\<lparr>services := (services n)(a := s), packets := packets n @ stamp a out\<rparr>)"
| stop_node: "gossip_step n (n\<lparr>services := (services n)(a := None)\<rparr>)"
| loop_step: "services n a = Some s \<Longrightarrow> deliverable n a e \<Longrightarrow> service_step now e s = (s', out) \<Longrightarrow>
     gossip_step n (n\<lparr>services := (services n)(a := Some s'), packets := packets n @ stamp a out\<rparr>)"

inductive gossip_reachable :: "gossip_net \<Rightarrow> bool" where
  initially: "gossip_reachable empty_net"
| after_step: "gossip_reachable n \<Longrightarrow> gossip_step n n' \<Longrightarrow> gossip_reachable n'"

inductive_cases gossip_stepE: "gossip_step n n'"

subsection \<open>Incarnations stay at one\<close>

definition one_service :: "membership \<Rightarrow> bool" where
  "one_service s \<longleftrightarrow> incarnation_counter s = 1 \<and> (\<forall>m \<in> snd ` set (members s). incarnation m = 1)"

fun one_message :: "gossip_message \<Rightarrow> bool" where
  "one_message (Ping _ inc) \<longleftrightarrow> inc = 1"
| "one_message (Ack _ inc ms) \<longleftrightarrow> inc = 1 \<and> (\<forall>m \<in> set ms. incarnation m = 1)"
| "one_message (Join m) \<longleftrightarrow> incarnation m = 1"
| "one_message (SuspectMsg _ inc) \<longleftrightarrow> inc = 1"
| "one_message (AliveMsg _ _) \<longleftrightarrow> False"

definition one_net :: "gossip_net \<Rightarrow> bool" where
  "one_net n \<longleftrightarrow> (\<forall>a s. services n a = Some s \<longrightarrow> one_service s) \<and>
     (\<forall>(src, dst, msg) \<in> set (packets n). one_message msg)"

fun one_event :: "gossip_event \<Rightarrow> bool" where
  "one_event (Recv src msg) \<longleftrightarrow> one_message msg"
| "one_event _ \<longleftrightarrow> True"

lemma skip_last_seen_incarnation [simp]: "incarnation (skip_last_seen m) = incarnation m"
  by (simp add: skip_last_seen_def)

lemma one_message_wire [simp]: "one_message (wire msg) = one_message msg"
  by (cases msg) auto

lemma one_service_get: "one_service s \<Longrightarrow> dm_get (members s) i = Some m \<Longrightarrow> incarnation m = 1"
  by (force simp: one_service_def dest: dm_get_in_set)

lemma one_service_insert:
  "one_service s \<Longrightarrow> incarnation m = 1 \<Longrightarrow> one_service (s\<lparr>members := dm_insert k m (members s)\<rparr>)"
  by (auto simp: one_service_def dest!: set_mp [OF values_dm_insert_subset, OF imageI])

lemma one_initial_service: "one_service (initial_service uuid a now)"
  by (simp add: initial_service_def Let_def one_service_def dm_insert_def)

lemma one_join_seeds: "incarnation ln = 1 \<Longrightarrow> d \<in> set (snd (join_seeds sendable ln seeds)) \<Longrightarrow> one_message (snd d)"
  by (induction sendable ln seeds rule: join_seeds.induct) (auto split: prod.splits if_splits)

lemma one_new_service:
  assumes "new_service uuid a now bound sendable seeds = (s, out)"
  shows "(\<forall>s'. s = Some s' \<longrightarrow> one_service s') \<and> (\<forall>d \<in> set out. one_message (snd d))"
proof -
  have "incarnation (local_node (initial_service uuid a now)) = 1"
    by (simp add: initial_service_def Let_def)
  then have "one_message (snd d)"
    if "d \<in> set (snd (join_seeds sendable (local_node (initial_service uuid a now)) seeds))" for d
    using that by (rule one_join_seeds)
  then show ?thesis
    using assms by (simp add: new_service_def Let_def one_initial_service split: prod.splits if_splits)
      (auto simp: one_initial_service)
qed

lemma one_broadcast: "one_message msg \<Longrightarrow> d \<in> set (broadcast_message s msg) \<Longrightarrow> one_message (snd d)"
  by (auto simp: broadcast_message_def)

lemma one_handle_ping:
  "one_service s \<Longrightarrow> one_service (fst (handle_ping now from 1 src s)) \<and>
     (\<forall>d \<in> set (snd (handle_ping now from 1 src s)). one_message (snd d))"
proof -
  assume one: "one_service s"
  then have "one_service (fst (handle_ping now from 1 src s))"
    by (auto simp: handle_ping_def Let_def dest: one_service_get
        intro!: one_service_insert split: option.splits)
  moreover have "snd (handle_ping now from 1 src s) =
      [(src, wire (Ack (nid (local_node s)) (incarnation_counter s)
         (dm_values (members (fst (handle_ping now from 1 src s))))))]"
    by (simp add: handle_ping_def Let_def)
  ultimately show ?thesis using one by (simp add: one_service_def dm_values_def)
qed

lemma one_merge_member:
  "one_service s \<Longrightarrow> incarnation new = 1 \<Longrightarrow> one_service (merge_member now new s)"
  by (auto simp: merge_member_def dest: one_service_get intro!: one_service_insert split: option.splits)

lemma one_fold_merge:
  "one_service s \<Longrightarrow> \<forall>m \<in> set ms. incarnation m = 1 \<Longrightarrow> one_service (fold (merge_member now) ms s)"
  by (induction ms arbitrary: s) (auto intro: one_merge_member)

lemma one_handle_ack:
  "one_service s \<Longrightarrow> \<forall>m \<in> set ms. incarnation m = 1 \<Longrightarrow> one_service (handle_ack now from 1 ms s)"
  by (auto simp: handle_ack_def Let_def dest: one_service_get
      intro!: one_fold_merge one_service_insert split: option.splits)

text \<open>A suspicion with the number everybody already has is old news.\<close>

lemma one_handle_suspect: "one_service s \<Longrightarrow> handle_suspect now i 1 s = (s, [])"
  by (auto simp: handle_suspect_def dest: one_service_get split: option.splits)

lemma one_handle_join: "one_service s \<Longrightarrow> incarnation m = 1 \<Longrightarrow> one_service (handle_join now m s)"
  by (simp add: handle_join_def one_service_insert)

lemma detect_member_one:
  "incarnation (fst (detect_member now loc m)) = incarnation m \<and>
     (\<forall>msg \<in> set (snd (detect_member now loc m)). msg = SuspectMsg (nid m) (incarnation m))"
  by (auto simp: detect_member_def Let_def split: option.splits node_state.splits if_splits)

lemma one_failure_detection:
  assumes "one_service s"
  shows "one_service (fst (failure_detection_tick now s)) \<and>
     (\<forall>d \<in> set (snd (failure_detection_tick now s)). one_message (snd d))"
proof -
  let ?loc = "nid (local_node s)"
  let ?s1 = "fst (failure_detection_tick now s)"
  have one: "incarnation m = 1" if "(k, m) \<in> set (members s)" for k m
    using assms that by (force simp: one_service_def)
  have "one_service ?s1"
    using assms one detect_member_one
    by (auto simp: failure_detection_tick_def Let_def one_service_def)
  moreover have "one_message (snd d)" if d: "d \<in> set (snd (failure_detection_tick now s))" for d
  proof -
    from d obtain k m msg where km: "(k, m) \<in> set (members s)"
      and msg: "msg \<in> set (snd (detect_member now ?loc m))" and "d \<in> set (broadcast_message ?s1 msg)"
      by (auto simp: failure_detection_tick_def Let_def)
    have "msg = SuspectMsg (nid m) (incarnation m)" using detect_member_one msg by blast
    with one [OF km] have "one_message msg" by simp
    with \<open>d \<in> set (broadcast_message ?s1 msg)\<close> show ?thesis by (rule one_broadcast [rotated])
  qed
  ultimately show ?thesis by blast
qed

lemma one_gossip_tick: "one_service s \<Longrightarrow> d \<in> set (gossip_tick idx s) \<Longrightarrow> one_message (snd d)"
  by (auto simp: gossip_tick_def Let_def one_service_def split: if_splits)

lemma one_service_step:
  assumes "one_service s" and "one_event e" and "service_step now e s = (s', out)"
  shows "one_service s' \<and> (\<forall>d \<in> set out. one_message (snd d))"
proof (cases e)
  case (Recv src msg)
  show ?thesis
  proof (cases msg)
    case (Ping sender inc)
    with Recv assms have "handle_ping now sender 1 src s = (s', out)" by simp
    with one_handle_ping [OF assms(1), of now sender src] show ?thesis by simp
  qed (use assms Recv in \<open>auto simp: one_handle_ack one_handle_suspect one_handle_join\<close>)
next
  case (GossipTick idx)
  with assms show ?thesis by (auto intro: one_gossip_tick)
next
  case DetectTick
  with assms one_failure_detection [of s now] show ?thesis by auto
qed

lemma one_net_extend:
  "one_net n \<Longrightarrow> \<forall>s'. s = Some s' \<longrightarrow> one_service s' \<Longrightarrow> \<forall>d \<in> set out. one_message (snd d) \<Longrightarrow>
     one_net (n\<lparr>services := (services n)(a := s), packets := packets n @ stamp a out\<rparr>)"
  by (fastforce simp: one_net_def stamp_def)

lemma gossip_step_one: "gossip_step n n' \<Longrightarrow> one_net n \<Longrightarrow> one_net n'"
proof (induction rule: gossip_step.induct)
  case (start_node n a uuid now bound sendable seeds s out)
  then show ?case using one_new_service by (metis one_net_extend)
next
  case (stop_node n a)
  then show ?case by (auto simp: one_net_def)
next
  case (loop_step n a s e now s' out)
  have "one_event e"
    using loop_step.hyps(2) loop_step.prems by (cases e) (auto simp: one_net_def)
  moreover have "one_service s" using loop_step.hyps(1) loop_step.prems unfolding one_net_def by blast
  ultimately have "one_service s' \<and> (\<forall>d \<in> set out. one_message (snd d))"
    using loop_step.hyps(3) by (intro one_service_step)
  with loop_step.prems show ?case by (intro one_net_extend) simp_all
qed

lemma reachable_one: "gossip_reachable n \<Longrightarrow> one_net n"
proof (induction rule: gossip_reachable.induct)
  case initially
  show ?case by (simp add: one_net_def empty_net_def)
next
  case (after_step n n')
  then show ?case by (blast intro: gossip_step_one)
qed

subsection \<open>Properties\<close>

text \<open>In every reachable state of a cluster, in spite of crashes, restarts and of any loss,
  duplication and reordering of datagrams, every incarnation number in every member table is 1,
  so is every node's own counter, and no \<open>Alive\<close> message has ever been sent: the refutation of a
  suspicion never happens.\<close>
theorem incarnations_never_move:
  assumes "gossip_reachable n"
  shows "(\<forall>a s i m. services n a = Some s \<and> get_member s i = Some m \<longrightarrow>
      incarnation_counter s = 1 \<and> incarnation m = 1) \<and>
    (\<forall>src dst i inc. (src, dst, AliveMsg i inc) \<notin> set (packets n))"
proof -
  have one: "one_net n" using assms by (rule reachable_one)
  have "incarnation_counter s = 1 \<and> incarnation m = 1"
    if "services n a = Some s" "get_member s i = Some m" for a s i m
  proof -
    from one that(1) have "one_service s" unfolding one_net_def by blast
    with that(2) show ?thesis
      unfolding get_member_def using one_service_get one_service_def by blast
  qed
  moreover have "(src, dst, AliveMsg i inc) \<notin> set (packets n)" for src dst i inc
    using one unfolding one_net_def by force
  ultimately show ?thesis by blast
qed

text \<open>A cluster of a seed node and a node that joined it, where the seed has come to suspect it.\<close>

definition seed_id :: str where "seed_id = lit ''seed''"
definition peer_id :: str where "peer_id = lit ''peer''"

definition seed_addr :: sock_addr where "seed_addr = sample_addr 0"
definition peer_addr :: sock_addr where "peer_addr = sample_addr 1"

definition seed_start :: membership where
  "seed_start = initial_service seed_id seed_addr 0"

definition peer_start :: membership where
  "peer_start = initial_service peer_id peer_addr 0"

definition seed_joined :: membership where
  "seed_joined = handle_join 0 (skip_last_seen (local_node peer_start)) seed_start"

definition seed_suspecting :: membership where
  "seed_suspecting = fst (failure_detection_tick 6000 seed_joined)"

definition suspecting_net :: gossip_net where
  "suspecting_net =
     \<lparr>services = (\<lambda>_. None)(seed_addr := Some seed_start, peer_addr := Some peer_start, seed_addr := Some seed_joined,
        seed_addr := Some seed_suspecting),
      packets = stamp peer_addr [(seed_addr, wire (Join (local_node peer_start)))] @
        stamp (seed_addr) (snd (failure_detection_tick 6000 seed_joined))\<rparr>"

lemma seed_peer_addr [simp]: "seed_addr \<noteq> peer_addr" "peer_addr \<noteq> seed_addr"
  by (simp_all add: seed_addr_def peer_addr_def sample_addr_def)

lemma stamp_Nil [simp]: "stamp a [] = []"
  by (simp add: stamp_def)

lemma suspecting_net_reachable: "gossip_reachable suspecting_net"
proof -
  let ?n1 = "\<lparr>services = (\<lambda>_. None)(seed_addr := Some seed_start), packets = []\<rparr>"
  let ?join = "[(seed_addr, wire (Join (local_node peer_start)))]"
  let ?n2 = "\<lparr>services = (services ?n1)(peer_addr := Some peer_start), packets = stamp peer_addr ?join\<rparr>"
  let ?n3 = "?n2\<lparr>services := (services ?n2)(seed_addr := Some seed_joined)\<rparr>"
  have s1: "gossip_step empty_net ?n1"
    using gossip_step.start_node [of empty_net seed_addr seed_id 0 True "\<lambda>_. True" "[]" "Some seed_start" "[]"]
    by (simp add: empty_net_def new_service_def seed_start_def Let_def)
  have s2: "gossip_step ?n1 ?n2"
    using gossip_step.start_node [of ?n1 peer_addr peer_id 0 True "\<lambda>_. True" "[seed_addr]" "Some peer_start" ?join]
    by (simp add: new_service_def peer_start_def Let_def)
  have s3: "gossip_step ?n2 ?n3"
    using gossip_step.loop_step [of ?n2 seed_addr seed_start
        "Recv peer_addr (Join (skip_last_seen (local_node peer_start)))" 0 seed_joined "[]"]
    by (simp add: seed_joined_def stamp_def)
  have s4: "gossip_step ?n3 suspecting_net"
    using gossip_step.loop_step [of ?n3 "seed_addr" seed_joined DetectTick 6000 seed_suspecting
        "snd (failure_detection_tick 6000 seed_joined)"]
    by (simp add: seed_suspecting_def suspecting_net_def)
  show ?thesis
    by (rule gossip_reachable.after_step [OF gossip_reachable.after_step [OF gossip_reachable.after_step
          [OF gossip_reachable.after_step [OF gossip_reachable.initially s1] s2] s3] s4])
qed

lemma suspecting_net_seed: "services suspecting_net seed_addr = Some seed_suspecting"
  by (simp add: suspecting_net_def)

lemma seed_suspecting_peer:
  "\<exists>m. get_member seed_suspecting peer_id = Some m \<and> nstate m = Suspect"
  by (simp add: seed_suspecting_def get_member_def get_failure_detection seed_joined_def
      handle_join_def skip_last_seen_def peer_start_def seed_start_def initial_service_def Let_def
      detect_member_def SUSPECT_TIMEOUT_def seed_id_def peer_id_def lit_simps)

theorem incarnations_never_move_witness:
  "gossip_reachable suspecting_net \<and>
   (\<exists>m. get_member seed_suspecting peer_id = Some m \<and> incarnation m = 1)"
  using incarnations_never_move [OF suspecting_net_reachable] suspecting_net_seed
    seed_suspecting_peer suspecting_net_reachable by blast

text \<open>A suspected member under one event that is no \<open>Join\<close> of it, in a closed cluster.\<close>

lemma one_merge_keeps:
  assumes "one_service s" and "incarnation new = 1" and "dm_get (members s) i = Some m"
    and "nstate m \<noteq> Alive"
  shows "\<exists>m'. dm_get (members (merge_member now new s)) i = Some m' \<and> nstate m' \<noteq> Alive"
  using assms one_service_get [OF assms(1), of "nid new"]
  by (auto simp: merge_member_def split: option.splits)

lemma one_fold_merge_keeps:
  "one_service s \<Longrightarrow> \<forall>m \<in> set ms. incarnation m = 1 \<Longrightarrow> dm_get (members s) i = Some m \<Longrightarrow>
     nstate m \<noteq> Alive \<Longrightarrow>
     \<exists>m'. dm_get (members (fold (merge_member now) ms s)) i = Some m' \<and> nstate m' \<noteq> Alive"
proof (induction ms arbitrary: s m)
  case Nil
  then show ?case by simp
next
  case (Cons a ms)
  have "one_service (merge_member now a s)" using Cons.prems by (simp add: one_merge_member)
  moreover obtain m' where "dm_get (members (merge_member now a s)) i = Some m'" "nstate m' \<noteq> Alive"
    using one_merge_keeps [of s a i m now] Cons.prems by auto
  ultimately show ?case using Cons.IH Cons.prems(2) by simp
qed

lemma one_ack_keeps:
  assumes "one_service s" and "\<forall>m \<in> set ms. incarnation m = 1" and "dm_get (members s) i = Some m"
    and "nstate m \<noteq> Alive"
  shows "\<exists>m'. dm_get (members (handle_ack now sender 1 ms s)) i = Some m' \<and> nstate m' \<noteq> Alive"
proof (cases "dm_get (members s) sender")
  case None
  with assms show ?thesis by (simp add: handle_ack_def one_fold_merge_keeps)
next
  case (Some a)
  let ?a = "a\<lparr>last_seen := Some now\<rparr>"
  let ?s = "s\<lparr>members := dm_insert sender ?a (members s)\<rparr>"
  have inc: "incarnation a = 1" using assms(1) Some by (rule one_service_get)
  with assms(1) have "one_service ?s" by (simp add: one_service_insert)
  moreover have "\<exists>m'. dm_get (members ?s) i = Some m' \<and> nstate m' \<noteq> Alive"
    using assms(3,4) Some by auto
  ultimately show ?thesis
    using assms Some inc one_fold_merge_keeps by (auto simp: handle_ack_def Let_def)
qed

lemma one_detect_keeps: "nstate m \<noteq> Alive \<Longrightarrow> nstate (fst (detect_member now loc m)) \<noteq> Alive"
  by (auto simp: detect_member_def Let_def split: option.splits node_state.splits)

lemma one_step_keeps:
  assumes "one_service s" and "one_event e" and "\<not> joins e i"
    and "dm_get (members s) i = Some m" and "nstate m \<noteq> Alive"
  shows "\<exists>m'. dm_get (members (fst (service_step now e s))) i = Some m' \<and> nstate m' \<noteq> Alive"
proof (cases e)
  case (Recv src msg)
  show ?thesis
  proof (cases msg)
    case (Ping sender inc)
    with assms Recv show ?thesis by (auto simp: handle_ping_def Let_def split: option.splits)
  qed (use assms Recv in \<open>auto simp: one_ack_keeps one_handle_suspect handle_join_def\<close>)
next
  case DetectTick
  with assms show ?thesis by (auto simp: get_failure_detection one_detect_keeps)
qed (use assms in auto)

text \<open>C13: suspicion is final. In a reachable cluster, once node \<open>a\<close> has a member as Suspect (or Dead),
  no message that can reach \<open>a\<close> and no tick makes it Alive again in the table of \<open>a\<close>, unless the
  message is a \<open>Join\<close> of that member, which a node sends only when it starts.\<close>
theorem suspicion_is_final:
  assumes "gossip_reachable n" and "services n a = Some s" and "deliverable n a e"
    and "\<not> joins e i" and "get_member s i = Some m" and "nstate m \<noteq> Alive"
  shows "\<exists>m'. get_member (fst (service_step now e s)) i = Some m' \<and> nstate m' \<noteq> Alive"
proof -
  have one: "one_net n" using assms(1) by (rule reachable_one)
  with assms(2) have "one_service s" unfolding one_net_def by blast
  moreover have "one_event e"
    using one assms(3) unfolding one_net_def by (cases e) auto
  ultimately show ?thesis using one_step_keeps assms(4-6) unfolding get_member_def by blast
qed

theorem suspicion_is_final_witness:
  "\<exists>m'. get_member (fst (service_step 7000 DetectTick seed_suspecting)) peer_id = Some m' \<and>
     nstate m' \<noteq> Alive"
proof -
  obtain m where "get_member seed_suspecting peer_id = Some m" "nstate m = Suspect"
    using seed_suspecting_peer by blast
  then show ?thesis
    using suspicion_is_final [OF suspecting_net_reachable suspecting_net_seed, of DetectTick peer_id m]
    by simp
qed

end
