(* ===== verification/Partitioner.thy ===== *)
theory Partitioner
  imports Membership
begin

text \<open>
  The partition manager (\<open>src/src/storage/partitioner.rs\<close>): which partition a key belongs to and
  which nodes own a partition, as seen by one node.

  \<open>hash\<close> stands for \<open>DefaultHasher\<close> applied to a string: the standard library fixes only that it
  is a function of the string (its algorithm is documented as unspecified), so it is an argument
  of the model and every theorem holds for every such function. The manager's
  \<open>Arc<MembershipService>\<close> is the argument \<open>s\<close>: it is the same service the storage layer holds.
\<close>

record partition_manager =
  num_partitions :: u32
  replication_factor :: nat

definition new_with_replication :: "nat \<Rightarrow> partition_manager" where
  "new_with_replication rf = \<lparr>num_partitions = 256, replication_factor = max rf 1\<rparr>"

definition new_partition_manager :: partition_manager where
  "new_partition_manager = new_with_replication 2"

text \<open>\<open>hasher.finish() as u32\<close> truncates to the low 32 bits.\<close>

definition get_partition :: "(str \<Rightarrow> u64) \<Rightarrow> partition_manager \<Rightarrow> str \<Rightarrow> u32" where
  "get_partition hash pm key = (ucast (hash key) :: u32) mod num_partitions pm"

definition get_owners :: "partition_manager \<Rightarrow> membership \<Rightarrow> u32 \<Rightarrow> str list" where
  "get_owners pm s p =
     (let alive_nodes = get_alive_members s
      in if alive_nodes = [] then []
         else
           (let node_ids = sort (map nid alive_nodes);
                primary_idx = unat p mod length node_ids;
                replica_count = min (replication_factor pm) (length node_ids)
            in map (\<lambda>off. node_ids ! ((primary_idx + off) mod length node_ids)) [0..<replica_count]))"

text \<open>The range \<open>0..num_partitions\<close>.\<close>

definition partitions :: "partition_manager \<Rightarrow> u32 list" where
  "partitions pm = map of_nat [0..<unat (num_partitions pm)]"

definition my_primary_partitions :: "partition_manager \<Rightarrow> membership \<Rightarrow> u32 list" where
  "my_primary_partitions pm s =
     filter (\<lambda>p. let owners = get_owners pm s p
                 in owners \<noteq> [] \<and> owners ! 0 = nid (local_node s)) (partitions pm)"

definition my_backup_partitions :: "partition_manager \<Rightarrow> membership \<Rightarrow> u32 list" where
  "my_backup_partitions pm s =
     filter (\<lambda>p. list_ex (\<lambda>owner. owner = nid (local_node s)) (drop 1 (get_owners pm s p)))
       (partitions pm)"

subsection \<open>The sorted ring\<close>

definition ring :: "membership \<Rightarrow> str list" where
  "ring s = sort (map nid (get_alive_members s))"

definition ring_owners :: "nat \<Rightarrow> str list \<Rightarrow> nat \<Rightarrow> str list" where
  "ring_owners rf ids p =
     map (\<lambda>off. ids ! ((p mod length ids + off) mod length ids)) [0..<min rf (length ids)]"

lemma get_owners_ring: "get_owners pm s p = ring_owners (replication_factor pm) (ring s) (unat p)"
  by (simp add: get_owners_def ring_def ring_owners_def Let_def)

lemma ring_Nil_iff [simp]: "ring s = [] \<longleftrightarrow> get_alive_members s = []"
  by (simp add: ring_def flip: length_0_conv)

lemma set_ring: "set (ring s) = nid ` set (get_alive_members s)"
  by (simp add: ring_def)

lemma distinct_ring: "members_ok s \<Longrightarrow> distinct (ring s)"
proof -
  assume ok: "members_ok s"
  have "map nid (dm_values (members s)) = map fst (members s)"
    using ok by (auto simp: dm_values_def members_ok_def)
  with ok have "distinct (map nid (dm_values (members s)))"
    by (simp add: members_ok_def dm_wf_def)
  then show ?thesis
    by (simp add: ring_def get_alive_members_def distinct_map_filter)
qed

text \<open>The ring depends on the set of alive ids only, not on the order of discovery.\<close>

lemma ring_eqI:
  assumes "members_ok s" and "members_ok s'"
    and "nid ` set (get_alive_members s) = nid ` set (get_alive_members s')"
  shows "ring s = ring s'"
proof -
  have "sorted (ring s)" "sorted (ring s')" by (simp_all add: ring_def)
  with assms show ?thesis
    by (intro sorted_distinct_set_unique) (simp_all add: distinct_ring set_ring)
qed

lemma length_ring_owners [simp]: "length (ring_owners rf ids p) = min rf (length ids)"
  by (simp add: ring_owners_def)

lemma ring_owners_Nil_iff: "ring_owners rf ids p = [] \<longleftrightarrow> rf = 0 \<or> ids = []"
  using length_ring_owners [of rf ids p] by (metis length_0_conv min_def le_zero_eq min.absorb_iff2 nat_le_linear)

lemma ring_owners_nth:
  "j < min rf (length ids) \<Longrightarrow> ring_owners rf ids p ! j = ids ! ((p + j) mod length ids)"
  by (simp add: ring_owners_def mod_add_left_eq)

lemma ring_owners_hd: "0 < rf \<Longrightarrow> ids \<noteq> [] \<Longrightarrow> ring_owners rf ids p ! 0 = ids ! (p mod length ids)"
  by (simp add: ring_owners_nth)

lemma set_ring_owners: "set (ring_owners rf ids p) \<subseteq> set ids"
proof (cases "ids = []")
  case True
  then show ?thesis by (simp add: ring_owners_def)
next
  case False
  then have "k mod length ids < length ids" for k by simp
  then show ?thesis by (auto simp: ring_owners_def)
qed

lemma mod_offset_less:
  fixes p i j n :: nat
  assumes "(p + i) mod n = (p + j) mod n" and "j < n" and "i < j"
  shows False
proof -
  have "n dvd (p + j) - (p + i)"
    using assms by (metis add_le_cancel_left less_imp_le mod_eq_dvd_iff_nat)
  with assms show False by (auto dest: dvd_imp_le)
qed

lemma mod_offset_inj:
  fixes p i j n :: nat
  assumes "(p + i) mod n = (p + j) mod n" and "i < n" and "j < n"
  shows "i = j"
  using mod_offset_less [of p i n j] mod_offset_less [of p j n i] assms
  by (metis linorder_neqE_nat)

lemma distinct_ring_owners:
  assumes "distinct ids"
  shows "distinct (ring_owners rf ids p)"
  unfolding distinct_conv_nth
proof (intro allI impI)
  fix i j
  assume i: "i < length (ring_owners rf ids p)" and j: "j < length (ring_owners rf ids p)"
    and "i \<noteq> j"
  then have ij: "i < length ids" "j < length ids" "i < min rf (length ids)" "j < min rf (length ids)"
    by auto
  have "(p + i) mod length ids \<noteq> (p + j) mod length ids"
    using mod_offset_inj [OF _ ij(1,2)] \<open>i \<noteq> j\<close> by blast
  moreover have "(p + k) mod length ids < length ids" for k
    using ij by (intro mod_less_divisor) auto
  ultimately show "ring_owners rf ids p ! i \<noteq> ring_owners rf ids p ! j"
    using assms ij by (simp add: ring_owners_nth nth_eq_iff_index_eq)
qed

lemma set_partitions: "p \<in> set (partitions pm) \<longleftrightarrow> p < num_partitions pm"
proof
  assume "p \<in> set (partitions pm)"
  then obtain i where i: "i < unat (num_partitions pm)" "p = of_nat i" by (auto simp: partitions_def)
  moreover have "unat (num_partitions pm) < 2 ^ 32" using unsigned_less [of "num_partitions pm"] by simp
  ultimately have "unat p = i" by (simp add: unat_of_nat take_bit_nat_eq_self)
  with i show "p < num_partitions pm" by (simp add: word_less_nat_alt)
next
  assume "p < num_partitions pm"
  then show "p \<in> set (partitions pm)"
    by (auto simp: partitions_def word_less_nat_alt intro!: image_eqI [where x = "unat p"])
qed

subsection \<open>Who is primary\<close>

lemma primary_iff:
  assumes "members_ok s" and "0 < replication_factor pm"
  shows "p \<in> set (my_primary_partitions pm s) \<longleftrightarrow>
    p < num_partitions pm \<and> ring s \<noteq> [] \<and> ring s ! (unat p mod length (ring s)) = nid (local_node s)"
  using assms
  by (auto simp: my_primary_partitions_def set_partitions get_owners_ring Let_def
      ring_owners_Nil_iff ring_owners_hd)

lemma count_residues:
  fixes i n N :: nat
  shows "i < n \<Longrightarrow> length (filter (\<lambda>k. k mod n = i) [0..<N])
     = N div n + (if i < N mod n then 1 else 0)"
proof (induction N)
  case 0
  then show ?case by simp
next
  case (Suc N)
  then show ?case by (auto simp: div_Suc mod_Suc)
qed

lemma length_my_primary:
  assumes "members_ok s" and "0 < replication_factor pm" and "i < length (ring s)"
    and "ring s ! i = nid (local_node s)"
  shows "length (my_primary_partitions pm s) =
    (let N = unat (num_partitions pm); n = length (ring s)
     in N div n + (if i < N mod n then 1 else 0))"
proof -
  let ?n = "length (ring s)" and ?N = "unat (num_partitions pm)"
  let ?P = "\<lambda>p. let owners = get_owners pm s p in owners \<noteq> [] \<and> owners ! 0 = nid (local_node s)"
  have small: "unat (of_nat k :: u32) = k" if "k < ?N" for k
  proof -
    have "?N < 2 ^ 32" using unsigned_less [of "num_partitions pm"] by simp
    with that show ?thesis by (simp add: unat_of_nat take_bit_nat_eq_self)
  qed
  have "?P (of_nat k) \<longleftrightarrow> k mod ?n = i" if "k < ?N" for k
  proof -
    have "0 < ?n" using assms(3) by linarith
    then have "k mod ?n < ?n" by simp
    with \<open>0 < ?n\<close> show ?thesis
      using assms small [OF that] distinct_ring [OF assms(1)]
      by (auto simp: get_owners_ring ring_owners_Nil_iff ring_owners_hd Let_def nth_eq_iff_index_eq
          simp flip: assms(4))
  qed
  then have "filter (?P \<circ> of_nat) [0..<?N] = filter (\<lambda>k. k mod ?n = i) [0..<?N]"
    by (intro filter_cong) auto
  then show ?thesis
    using count_residues [OF assms(3), of ?N]
    by (simp add: my_primary_partitions_def partitions_def filter_map Let_def)
qed

subsection \<open>A stable view, for examples\<close>

text \<open>
  The service of node \<open>i\<close> in a cluster whose members \<open>ids\<close> are all alive and known to it; the
  nodes are at distinct addresses. The components built on this one reuse it for their witnesses.
\<close>

definition view_member :: "str \<Rightarrow> node" where
  "view_member i = \<lparr>nid = i, gossip_addr = (i, 5000), http_addr = (i, 6000), nstate = Alive,
     incarnation = 1, last_seen = Some 0\<rparr>"

definition stable_view :: "str list \<Rightarrow> str \<Rightarrow> membership" where
  "stable_view ids i = \<lparr>local_node = view_member i, members = map (\<lambda>j. (j, view_member j)) ids,
     incarnation_counter = 1\<rparr>"

lemma view_member_sel [simp]:
  "nid (view_member i) = i" "http_addr (view_member i) = (i, 6000)" "nstate (view_member i) = Alive"
  by (simp_all add: view_member_def)

lemma stable_view_get [simp]:
  "dm_get (members (stable_view ids i)) j = (if j \<in> set ids then Some (view_member j) else None)"
  by (induction ids) (auto simp: stable_view_def dm_get_def)

lemma stable_view_local [simp]: "nid (local_node (stable_view ids i)) = i"
  by (simp add: stable_view_def)

lemma stable_view_alive [simp]: "get_alive_members (stable_view ids i) = map view_member ids"
  by (simp add: stable_view_def get_alive_members_def dm_values_def comp_def filter_map)

lemma stable_view_ok: "distinct ids \<Longrightarrow> i \<in> set ids \<Longrightarrow> members_ok (stable_view ids i)"
  by (auto simp: members_ok_def dm_wf_def comp_def) (auto simp: stable_view_def comp_def)

lemma ring_stable_view [simp]: "ring (stable_view ids i) = sort ids"
  by (simp add: ring_def comp_def)

definition three_ids :: "str list" where
  "three_ids = [lit ''b'', lit ''c'', lit ''a'']"

lemma three_ids_simps [simp]:
  "distinct three_ids" "set three_ids = {lit ''a'', lit ''b'', lit ''c''}" "length three_ids = 3"
  "sort three_ids = [lit ''a'', lit ''b'', lit ''c'']"
  by (auto simp: three_ids_def lit_simps)

subsection \<open>Properties\<close>

text \<open>Every key is mapped to one of the 256 partitions, for any hash function.\<close>
theorem get_partition_in_range:
  "unat (get_partition hash (new_with_replication rf) key) < 256"
proof -
  have "unat (get_partition hash (new_with_replication rf) key) = unat (ucast (hash key) :: u32) mod 256"
    by (simp add: get_partition_def new_with_replication_def unat_mod)
  then show ?thesis by simp
qed

text \<open>Two nodes that see the same set of alive members compute the same owners of every partition,
  in the same order, whatever the order in which each of them discovered the members.\<close>
theorem owners_agree:
  assumes "members_ok s" and "members_ok s'"
    and "nid ` set (get_alive_members s) = nid ` set (get_alive_members s')"
  shows "get_owners pm s p = get_owners pm s' p"
  using ring_eqI [OF assms] by (simp add: get_owners_ring)

theorem owners_agree_witness:
  "get_owners (new_with_replication 2) (stable_view three_ids (lit ''a'')) 5
     = get_owners (new_with_replication 2) (stable_view (rev three_ids) (lit ''c'')) 5"
  by (rule owners_agree) (simp_all add: stable_view_ok image_image)

text \<open>C25: the owners of a partition are distinct alive members, as many as the replication factor asks
  for and the cluster has; in particular a cluster with an alive node always has a primary.\<close>
theorem owners_wellformed:
  assumes "members_ok s"
  shows "distinct (get_owners (new_with_replication rf) s p) \<and>
    set (get_owners (new_with_replication rf) s p) \<subseteq> nid ` set (get_alive_members s) \<and>
    length (get_owners (new_with_replication rf) s p) = min (max rf 1) (length (get_alive_members s))"
proof -
  have "length (ring s) = length (get_alive_members s)" by (simp add: ring_def)
  then show ?thesis
    using set_ring_owners [of "max rf 1" "ring s" "unat p"] distinct_ring [OF assms]
    by (simp add: get_owners_ring distinct_ring_owners set_ring new_with_replication_def)
qed

theorem owners_wellformed_witness:
  "length (get_owners (new_with_replication 2) (stable_view three_ids (lit ''a'')) 5) = 2 \<and>
   distinct (get_owners (new_with_replication 2) (stable_view three_ids (lit ''a'')) 5)"
  using owners_wellformed [of "stable_view three_ids (lit ''a'')" 2 5] by (simp add: stable_view_ok)

text \<open>C16: the primaries split the partitions: when every alive node sees the same alive members, each
  partition is among the primary partitions of exactly one of them.\<close>
theorem exactly_one_primary:
  assumes "\<And>i. i \<in> ids \<Longrightarrow> members_ok (svc i) \<and> nid (local_node (svc i)) = i \<and>
      nid ` set (get_alive_members (svc i)) = ids"
    and "ids \<noteq> {}" and "p < num_partitions (new_with_replication rf)"
  shows "\<exists>!i. i \<in> ids \<and> p \<in> set (my_primary_partitions (new_with_replication rf) (svc i))"
proof -
  obtain i0 where i0: "i0 \<in> ids" using assms(2) by blast
  let ?r = "ring (svc i0)"
  have rings: "ring (svc i) = ?r" if "i \<in> ids" for i
    using assms(1) [OF that] assms(1) [OF i0] by (intro ring_eqI) auto
  have r: "set ?r = ids" using assms(1) [OF i0] by (simp add: set_ring)
  then have "?r \<noteq> []" using i0 by (metis empty_iff list.set(1))
  let ?q = "?r ! (unat p mod length ?r)"
  have "?q \<in> ids" using r \<open>?r \<noteq> []\<close> nth_mem [of "unat p mod length ?r" ?r] by simp
  moreover have "p \<in> set (my_primary_partitions (new_with_replication rf) (svc i)) \<longleftrightarrow> i = ?q"
    if "i \<in> ids" for i
    using assms(1) [OF that] assms(3) rings [OF that] \<open>?r \<noteq> []\<close>
    by (subst primary_iff) (auto simp: new_with_replication_def)
  ultimately show ?thesis by metis
qed

theorem exactly_one_primary_witness:
  "\<exists>!i. i \<in> set three_ids \<and>
     200 \<in> set (my_primary_partitions (new_with_replication 2) (stable_view three_ids i))"
  by (rule exactly_one_primary)
     (simp_all add: stable_view_ok image_image new_with_replication_def del: three_ids_simps(2),
      simp_all add: three_ids_def)

text \<open>C26: the load is balanced: with \<open>n\<close> alive members every node is primary for \<open>256 div n\<close>
  partitions, or one more.\<close>
theorem primaries_balanced:
  assumes "members_ok s" and "nid (local_node s) \<in> nid ` set (get_alive_members s)"
    and "n = length (get_alive_members s)"
  shows "256 div n \<le> length (my_primary_partitions (new_with_replication rf) s) \<and>
    length (my_primary_partitions (new_with_replication rf) s) \<le> 256 div n + 1"
proof -
  obtain i where "i < length (ring s)" "ring s ! i = nid (local_node s)"
    using assms(2) by (metis set_ring in_set_conv_nth)
  moreover have "length (ring s) = n" using assms(3) by (simp add: ring_def)
  ultimately show ?thesis
    using length_my_primary [OF assms(1), of "new_with_replication rf" i]
    by (simp add: new_with_replication_def Let_def)
qed

theorem primaries_balanced_witness:
  "85 \<le> length (my_primary_partitions (new_with_replication 2) (stable_view three_ids (lit ''b''))) \<and>
   length (my_primary_partitions (new_with_replication 2) (stable_view three_ids (lit ''b''))) \<le> 86"
  using primaries_balanced [of "stable_view three_ids (lit ''b'')" 3 2]
  by (simp add: stable_view_ok image_image)

text \<open>The primary is not the next node of the sorted list that is still alive: after the loss of
  node a of three nodes a, b, c, partition 2 moves from c, which is still alive and still holds
  it, to b.\<close>
theorem failover_moves_surviving_primaries:
  "get_owners (new_with_replication 2) (stable_view [lit ''a'', lit ''b'', lit ''c''] (lit ''b'')) 2
     = [lit ''c'', lit ''a''] \<and>
   get_owners (new_with_replication 2) (stable_view [lit ''b'', lit ''c''] (lit ''b'')) 2
     = [lit ''b'', lit ''c'']"
proof -
  have three: "ring_owners 2 [x, y, z] 2 = [z, x]" for x y z :: str
    by (simp add: ring_owners_def upt_rec)
  have two: "ring_owners 2 [x, y] 2 = [x, y]" for x y :: str
    by (simp add: ring_owners_def upt_rec flip: numeral_2_eq_2)
  have sorts: "sort [lit ''a'', lit ''b'', lit ''c''] = [lit ''a'', lit ''b'', lit ''c'']"
    and sorts2: "sort [lit ''b'', lit ''c''] = [lit ''b'', lit ''c'']"
    by (simp_all add: lit_simps)
  have rf: "replication_factor (new_with_replication 2) = 2"
    by (simp add: new_with_replication_def max_def)
  have "unat (2 :: u32) = 2" by simp
  then show ?thesis
    unfolding get_owners_ring ring_stable_view sorts sorts2 rf by (simp only: three two simp_thms)
qed

end
