(* ===== verification/Http.thy ===== *)
theory Http
  imports Prelude
begin

text \<open>
  Inter-node HTTP as the storage layer and the task queue use it (\<open>post_with_retry\<close> and
  \<open>get_with_retry\<close>, which \<open>storage/memory.rs\<close> and \<open>executor/queue.rs\<close> each carry a copy of).

  The transport is not code of the repository, so what happens to each request is an input of the
  model: \<open>fates\<close> gives the outcome of the n-th request. A request is delivered and answered, is
  lost before the server sees it, or is carried out by the server while the answer is lost (a
  500 ms timeout looks like this to the sender). \<open>listening\<close> tells at which addresses a server
  runs, \<open>jitter\<close> is the source of randomness of the back-off. \<open>sent\<close> and \<open>slept\<close> count the
  requests made and the milliseconds slept.

  A handler runs at an address and may change the whole net, because a handler of the program
  may itself send requests (a forwarded write is replicated before it is answered).
\<close>

datatype fate = Delivered | Lost | ReplyLost

record 's net =
  servers :: "sock_addr \<Rightarrow> 's"
  listening :: "sock_addr \<Rightarrow> bool"
  fates :: "nat \<Rightarrow> fate"
  sent :: nat
  jitter :: "nat \<Rightarrow> u64"
  slept :: nat

type_synonym ('s, 'q, 'r) handler = "sock_addr \<Rightarrow> 'q \<Rightarrow> 's net \<Rightarrow> 'r \<times> 's net"

definition set_server :: "sock_addr \<Rightarrow> 's \<Rightarrow> 's net \<Rightarrow> 's net" where
  "set_server a s n = n\<lparr>servers := (servers n)(a := s)\<rparr>"

text \<open>A handler that touches the state of its own node only.\<close>

definition serve :: "('q \<Rightarrow> 's \<Rightarrow> 'r \<times> 's) \<Rightarrow> ('s, 'q, 'r) handler" where
  "serve h a q n = (case h q (servers n a) of (r, s) \<Rightarrow> (r, set_server a s n))"

text \<open>One \<open>send().await\<close>: \<open>None\<close> is the transport error \<open>Err(e)\<close>.\<close>

definition exchange :: "('s, 'q, 'r) handler \<Rightarrow> sock_addr \<Rightarrow> 'q \<Rightarrow> 's net \<Rightarrow> 'r option \<times> 's net" where
  "exchange h a q n =
     (let n1 = n\<lparr>sent := Suc (sent n)\<rparr>
      in if \<not> listening n a then (None, n1)
         else case fates n (sent n) of
           Delivered \<Rightarrow> (case h a q n1 of (r, n2) \<Rightarrow> (Some r, n2))
         | Lost \<Rightarrow> (None, n1)
         | ReplyLost \<Rightarrow> (None, snd (h a q n1)))"

text \<open>
  The loop \<open>for attempt in 0..attempts\<close>: the argument counts the attempts left, so
  \<open>attempt + 1 == attempts\<close> is the case of none left after this one.
\<close>

fun retry_loop :: "('s, 'q, 'r) handler \<Rightarrow> nat \<Rightarrow> nat \<Rightarrow> sock_addr \<Rightarrow> 'q \<Rightarrow> 's net
    \<Rightarrow> (error + 'r) \<times> 's net" where
  "retry_loop h 0 delay_ms a q n = (Inl RetriesExhausted, n)"
| "retry_loop h (Suc attempts) delay_ms a q n =
     (case exchange h a q n of
        (Some resp, n1) \<Rightarrow> (Inr resp, n1)
      | (None, n1) \<Rightarrow>
          if attempts = 0 then (Inl TransportError, n1)
          else retry_loop h attempts (min (delay_ms * 2) 1200) a q
                 (n1\<lparr>slept := slept n1 + delay_ms + unat (jitter n1 (sent n1) mod 50)\<rparr>))"

definition post_with_retry :: "('s, 'q, 'r) handler \<Rightarrow> sock_addr \<Rightarrow> 'q \<Rightarrow> nat \<Rightarrow> 's net
    \<Rightarrow> (error + 'r) \<times> 's net" where
  "post_with_retry h a payload attempts n = retry_loop h attempts 150 a payload n"

definition get_with_retry :: "('s, 'q, 'r) handler \<Rightarrow> sock_addr \<Rightarrow> 'q \<Rightarrow> nat \<Rightarrow> 's net
    \<Rightarrow> (error + 'r) \<times> 's net" where
  "get_with_retry h a query attempts n = retry_loop h attempts 150 a query n"

text \<open>The copies of \<open>executor/queue.rs\<close>.\<close>

definition post_with_retry_queue :: "('s, 'q, 'r) handler \<Rightarrow> sock_addr \<Rightarrow> 'q \<Rightarrow> nat \<Rightarrow> 's net
    \<Rightarrow> (error + 'r) \<times> 's net" where
  "post_with_retry_queue h a payload attempts n = retry_loop h attempts 150 a payload n"

definition get_with_retry_queue :: "('s, 'q, 'r) handler \<Rightarrow> sock_addr \<Rightarrow> 'q \<Rightarrow> nat \<Rightarrow> 's net
    \<Rightarrow> (error + 'r) \<times> 's net" where
  "get_with_retry_queue h a query attempts n = retry_loop h attempts 150 a query n"

lemmas retry_defs = post_with_retry_def get_with_retry_def
  post_with_retry_queue_def get_with_retry_queue_def

subsection \<open>Basic facts\<close>

lemma servers_set_server [simp]:
  "servers (set_server a s n) b = (if b = a then s else servers n b)"
  by (simp add: set_server_def)

lemma set_server_frame [simp]:
  "listening (set_server a s n) = listening n" "fates (set_server a s n) = fates n"
  "sent (set_server a s n) = sent n" "jitter (set_server a s n) = jitter n"
  "slept (set_server a s n) = slept n"
  by (simp_all add: set_server_def)

lemma set_server_same [simp]: "set_server a (servers n a) n = n"
  by (simp add: set_server_def)

lemma set_server_set_server [simp]: "set_server a s' (set_server a s n) = set_server a s' n"
  by (simp add: set_server_def)

lemma serve_simps [simp]:
  "fst (serve h a q n) = fst (h q (servers n a))"
  "snd (serve h a q n) = set_server a (snd (h q (servers n a))) n"
  by (simp_all add: serve_def split: prod.splits)

text \<open>What the sender's i-th request from now on meets.\<close>

definition fate_at :: "'s net \<Rightarrow> sock_addr \<Rightarrow> nat \<Rightarrow> fate" where
  "fate_at n a i = (if listening n a then fates n (sent n + i) else Lost)"

lemma exchange_serve:
  "exchange (serve h) a q n =
     (case fate_at n a 0 of
        Delivered \<Rightarrow> (Some (fst (h q (servers n a))),
                      set_server a (snd (h q (servers n a))) (n\<lparr>sent := Suc (sent n)\<rparr>))
      | Lost \<Rightarrow> (None, n\<lparr>sent := Suc (sent n)\<rparr>)
      | ReplyLost \<Rightarrow> (None, set_server a (snd (h q (servers n a))) (n\<lparr>sent := Suc (sent n)\<rparr>)))"
  by (simp add: exchange_def fate_at_def Let_def serve_def split: fate.splits prod.splits)

text \<open>A request that is delivered at once.\<close>

lemma retry_loop_delivered:
  assumes "listening n a" and "fates n (sent n) = Delivered"
  shows "retry_loop h (Suc k) d a q n
     = (Inr (fst (h a q (n\<lparr>sent := Suc (sent n)\<rparr>))), snd (h a q (n\<lparr>sent := Suc (sent n)\<rparr>)))"
  using assms by (auto simp: exchange_def Let_def split: prod.splits)

subsection \<open>How long the back-off sleeps\<close>

lemma exchange_serve_frame:
  "exchange (serve h) a q n = (r, n') \<Longrightarrow>
     slept n' = slept n \<and> jitter n' = jitter n \<and> fates n' = fates n \<and>
     listening n' = listening n \<and> sent n' = Suc (sent n)"
  by (auto simp: exchange_serve split: fate.splits)

lemma jitter_less: "unat (j mod 50 :: u64) < 50"
proof -
  have "unat (j mod 50) = unat j mod 50"
    by (simp add: unat_mod)
  then show ?thesis by simp
qed

lemma retry_loop_slept:
  "d \<le> 1200 \<Longrightarrow> slept (snd (retry_loop (serve h) k d a q n)) \<le> slept n + (k - 1) * 1249"
proof (induction k arbitrary: d n)
  case 0
  then show ?case by simp
next
  case (Suc k)
  obtain r n1 where ex: "exchange (serve h) a q n = (r, n1)"
    by (cases "exchange (serve h) a q n")
  then have s1: "slept n1 = slept n" by (simp add: exchange_serve_frame)
  let ?n2 = "n1\<lparr>slept := slept n1 + d + unat (jitter n1 (sent n1) mod 50)\<rparr>"
  show ?case
  proof (cases "r = None \<and> k \<noteq> 0")
    case True
    then obtain j where k: "k = Suc j" by (cases k) auto
    have "slept (snd (retry_loop (serve h) k (min (d * 2) 1200) a q ?n2))
        \<le> slept ?n2 + (k - 1) * 1249"
      by (rule Suc.IH) simp
    moreover have "slept ?n2 \<le> slept n + 1249"
      using s1 Suc.prems jitter_less [of "jitter n1 (sent n1)"] by simp
    ultimately show ?thesis using ex True k by simp
  next
    case False
    with ex s1 show ?thesis by (auto split: option.splits)
  qed
qed

lemma retry_loop_serve_frame:
  "listening (snd (retry_loop (serve h) k d a q n)) = listening n"
  "fates (snd (retry_loop (serve h) k d a q n)) = fates n"
  "sent n \<le> sent (snd (retry_loop (serve h) k d a q n))"
proof -
  have "listening (snd (retry_loop (serve h) k d a q n)) = listening n \<and>
    fates (snd (retry_loop (serve h) k d a q n)) = fates n \<and>
    sent n \<le> sent (snd (retry_loop (serve h) k d a q n))"
  proof (induction k arbitrary: d n)
    case 0
    then show ?case by simp
  next
    case (Suc k)
    obtain r n1 where ex: "exchange (serve h) a q n = (r, n1)"
      by (cases "exchange (serve h) a q n")
    let ?n2 = "n1\<lparr>slept := slept n1 + d + unat (jitter n1 (sent n1) mod 50)\<rparr>"
    from Suc.IH [of "min (d * 2) 1200" ?n2] exchange_serve_frame [OF ex] show ?case
      by (cases r) (auto simp: ex)
  qed
  then show "listening (snd (retry_loop (serve h) k d a q n)) = listening n"
    "fates (snd (retry_loop (serve h) k d a q n)) = fates n"
    "sent n \<le> sent (snd (retry_loop (serve h) k d a q n))" by auto
qed

subsection \<open>Contract: an idempotent service\<close>

text \<open>
  What a sender that retries needs from a handler: carrying the same request out a second time
  gives the same answer and changes nothing more. Then the retries are invisible: the server ends
  in the state one delivery leaves it in, however many of the attempts reached it.
\<close>

locale idempotent_service =
  fixes h :: "'q \<Rightarrow> 's \<Rightarrow> 'r \<times> 's"
  assumes idem: "h q (snd (h q s)) = h q s"
begin

lemma retry_result:
  "0 < k \<Longrightarrow> fst (retry_loop (serve h) k d a q n) =
     (if \<exists>i<k. fate_at n a i = Delivered then Inr (fst (h q (servers n a))) else Inl TransportError)"
proof (induction k arbitrary: d n)
  case 0
  then show ?case by simp
next
  case (Suc k)
  obtain r n1 where ex: "exchange (serve h) a q n = (r, n1)"
    by (cases "exchange (serve h) a q n")
  have ff: "fate_at n1 a i = fate_at n a (Suc i)" for i
    using exchange_serve_frame [OF ex] by (simp add: fate_at_def)
  have split_ex: "(\<exists>i<Suc k. fate_at n a i = Delivered)
      \<longleftrightarrow> fate_at n a 0 = Delivered \<or> (\<exists>i<k. fate_at n1 a i = Delivered)"
    by (auto simp: ff less_Suc_eq_0_disj)
  show ?case
  proof (cases "fate_at n a 0 = Delivered")
    case True
    with ex show ?thesis by (auto simp: exchange_serve)
  next
    case False
    with ex have r: "r = None"
      and hq: "fst (h q (servers n1 a)) = fst (h q (servers n a))"
      by (auto simp: exchange_serve idem split: fate.splits)
    show ?thesis
    proof (cases "k = 0")
      case True
      with ex r False show ?thesis by simp
    next
      case k: False
      let ?n2 = "n1\<lparr>slept := slept n1 + d + unat (jitter n1 (sent n1) mod 50)\<rparr>"
      have "fate_at ?n2 a i = fate_at n1 a i" for i by (simp add: fate_at_def)
      with Suc.IH [of "min (d * 2) 1200" ?n2] k split_ex False hq show ?thesis
        by (simp add: ex r)
    qed
  qed
qed

lemma retry_servers:
  "servers (snd (retry_loop (serve h) k d a q n)) =
     (if \<exists>i<k. fate_at n a i \<noteq> Lost then (servers n)(a := snd (h q (servers n a))) else servers n)"
proof (induction k arbitrary: d n)
  case 0
  then show ?case by simp
next
  case (Suc k)
  obtain r n1 where ex: "exchange (serve h) a q n = (r, n1)"
    by (cases "exchange (serve h) a q n")
  have ff: "fate_at n1 a i = fate_at n a (Suc i)" for i
    using exchange_serve_frame [OF ex] by (simp add: fate_at_def)
  have split_ex: "(\<exists>i<Suc k. fate_at n a i \<noteq> Lost)
      \<longleftrightarrow> fate_at n a 0 \<noteq> Lost \<or> (\<exists>i<k. fate_at n1 a i \<noteq> Lost)"
    by (auto simp: ff less_Suc_eq_0_disj)
  have sv: "servers n1 = (if fate_at n a 0 = Lost then servers n
      else (servers n)(a := snd (h q (servers n a))))"
    using ex by (auto simp: exchange_serve set_server_def split: fate.splits)
  let ?n2 = "n1\<lparr>slept := slept n1 + d + unat (jitter n1 (sent n1) mod 50)\<rparr>"
  have "fate_at ?n2 a i = fate_at n1 a i" for i by (simp add: fate_at_def)
  note IH = Suc.IH [of "min (d * 2) 1200" ?n2, simplified this]
  have r: "r = (if fate_at n a 0 = Delivered then Some (fst (h q (servers n a))) else None)"
    using ex by (auto simp: exchange_serve split: fate.splits)
  show ?case
  proof (cases "r = None \<and> k \<noteq> 0")
    case True
    with ex IH split_ex sv show ?thesis by (auto simp: idem fun_eq_iff)
  next
    case False
    with ex r sv split_ex show ?thesis by (auto split: if_splits)
  qed
qed

end

subsection \<open>Contract: a service that only reads\<close>

text \<open>A handler that answers without changing its node is idempotent, and no retry of it changes anything.\<close>

locale readonly_service =
  fixes h :: "'q \<Rightarrow> 's \<Rightarrow> 'r \<times> 's"
  assumes unchanged: "snd (h q s) = s"

sublocale readonly_service \<subseteq> idempotent_service h
  by unfold_locales (simp add: unchanged)

context readonly_service
begin

lemma retry_keeps: "servers (snd (retry_loop (serve h) k d a q n)) = servers n"
  by (simp add: retry_servers unchanged)

end

subsection \<open>Properties\<close>

lemma retry_loop_sent:
  "sent (snd (retry_loop (serve h) k d a q n)) \<le> sent n + k"
proof (induction k arbitrary: d n)
  case 0
  then show ?case by simp
next
  case (Suc k)
  obtain r n1 where ex: "exchange (serve h) a q n = (r, n1)"
    by (cases "exchange (serve h) a q n")
  let ?n2 = "n1\<lparr>slept := slept n1 + d + unat (jitter n1 (sent n1) mod 50)\<rparr>"
  from Suc.IH [of "min (d * 2) 1200" ?n2] exchange_serve_frame [OF ex] show ?case
    by (cases r) (auto simp: ex)
qed

lemma retry_loop_error:
  "0 < k \<Longrightarrow> fst (retry_loop h k d a q n) = Inl TransportError \<or> (\<exists>r. fst (retry_loop h k d a q n) = Inr r)"
proof (induction k arbitrary: d n)
  case 0
  then show ?case by simp
next
  case (Suc k)
  then show ?case by (auto split: prod.splits option.splits)
qed

text \<open>C27: a request of the storage layer is retried a bounded number of times with a bounded delay: of the
  three attempts at most three are sent, the back-off sleeps at most 150 + 49 + 300 + 49
  milliseconds in all, and the only error is that of the last attempt.\<close>
theorem post_with_retry_bounded:
  "sent (snd (post_with_retry (serve h) a q 3 n)) \<le> sent n + 3 \<and>
   slept (snd (post_with_retry (serve h) a q 3 n)) \<le> slept n + 548 \<and>
   (fst (post_with_retry (serve h) a q 3 n) = Inl TransportError \<or>
     (\<exists>r. fst (post_with_retry (serve h) a q 3 n) = Inr r))"
proof -
  let ?step = "\<lambda>d n. n\<lparr>slept := slept n + d + unat (jitter n (sent n) mod 50)\<rparr>"
  have bound: "slept (?step d n1) \<le> slept n1 + d + 49" for d and n1 :: "'a net"
    using jitter_less [of "jitter n1 (sent n1)"] by simp
  have last: "slept (snd (retry_loop (serve h) (Suc 0) d a q n1)) = slept n1" for d n1
    by (cases "exchange (serve h) a q n1") (auto dest: exchange_serve_frame split: option.splits)
  have two: "slept (snd (retry_loop (serve h) (Suc (Suc 0)) d a q n1)) \<le> slept n1 + d + 49" for d n1
  proof (cases "exchange (serve h) a q n1")
    case (Pair r n2)
    then show ?thesis using last bound [of n2 d] exchange_serve_frame [OF Pair]
      by (cases r) auto
  qed
  have three: "slept (snd (retry_loop (serve h) 3 150 a q n)) \<le> slept n + 548"
  proof (cases "exchange (serve h) a q n")
    case (Pair r n2)
    then show ?thesis using two [of 300 "?step 150 n2"] bound [of n2 150] exchange_serve_frame [OF Pair]
      by (cases r) (auto simp: numeral_3_eq_3 simp del: retry_loop.simps(2) simp: retry_loop.simps(2) [of _ "Suc (Suc 0)"])
  qed
  show ?thesis using retry_loop_sent [of h 3 150 a q n] three retry_loop_error [of 3 "serve h" 150 a q n]
    by (simp add: post_with_retry_def)
qed

end
