(* ===== verification/Replication.thy ===== *)
theory Replication
  imports Http
begin

text \<open>
  Writing a copy to every backup, as the distributed map and the task queue both do: a handler that
  stores idempotently, a sender that retries, and a loop over the backups that stops at the first
  failure. The effect of such a loop is stated once, whatever the network does: the nodes that have
  carried out the write form a set \<open>S\<close> of the backups, all of them if the loop succeeds.
\<close>

definition same_network :: "'s net \<Rightarrow> 's net \<Rightarrow> bool" where
  "same_network n n' \<longleftrightarrow> listening n' = listening n \<and> fates n' = fates n"

definition reliable :: "'s net \<Rightarrow> bool" where
  "reliable n \<longleftrightarrow> (\<forall>i. fates n i = Delivered)"

lemma same_network_refl [simp]: "same_network n n"
  by (simp add: same_network_def)

lemma same_network_trans: "same_network a b \<Longrightarrow> same_network b c \<Longrightarrow> same_network a c"
  by (simp add: same_network_def)

lemma same_network_set_server [simp]: "same_network n (set_server a s n') \<longleftrightarrow> same_network n n'"
  by (simp add: same_network_def)

lemma reliable_same: "same_network n n' \<Longrightarrow> reliable n' \<longleftrightarrow> reliable n"
  by (simp add: same_network_def reliable_def)

lemma some_try_delivered:
  "reliable n \<Longrightarrow> (\<exists>t<3. fate_at n a t = Delivered) \<longleftrightarrow> listening n a"
  using exI [of "\<lambda>t::nat. t < 3" 0] by (simp add: reliable_def fate_at_def)

text \<open>The servers after some of them, at the addresses \<open>S\<close>, have carried out \<open>f\<close>.\<close>

definition upd_at :: "'a set \<Rightarrow> ('s \<Rightarrow> 's) \<Rightarrow> ('a \<Rightarrow> 's) \<Rightarrow> 'a \<Rightarrow> 's" where
  "upd_at S f sv a = (if a \<in> S then f (sv a) else sv a)"

lemma upd_at_empty [simp]: "upd_at {} f sv = sv"
  by (simp add: upd_at_def fun_eq_iff)

lemma upd_at_single:
  "upd_at (if c then {a} else {}) f sv = (if c then sv(a := f (sv a)) else sv)"
  by (simp add: upd_at_def fun_eq_iff)

lemma upd_at_upd_at:
  "(\<And>x. f (f x) = f x) \<Longrightarrow> upd_at T f (upd_at S f sv) = upd_at (S \<union> T) f sv"
  by (auto simp: upd_at_def fun_eq_iff)

subsection \<open>One backup\<close>

context idempotent_service
begin

text \<open>What three attempts at one server come to, for a request that has the effect \<open>f\<close>.\<close>

lemma three_attempts:
  assumes "\<And>s. h q s = (x, f s)"
  shows "\<exists>r n' S. retry_loop (serve h) 3 d a q n = (r, n') \<and> same_network n n' \<and>
    S \<subseteq> {a} \<and> servers n' = upd_at S f (servers n) \<and>
    (r = Inl TransportError \<or> r = Inr x \<and> S = {a}) \<and>
    (reliable n \<and> listening n a \<longrightarrow> r = Inr x)"
proof -
  obtain r n1 where loop: "retry_loop (serve h) 3 d a q n = (r, n1)"
    by (cases "retry_loop (serve h) 3 d a q n")
  let ?S = "if \<exists>i<3. fate_at n a i \<noteq> Lost then {a} else {}"
  have r: "r = (if \<exists>i<3. fate_at n a i = Delivered then Inr x else Inl TransportError)"
    using retry_result [of 3 d a q n] by (simp add: loop assms)
  have "servers n1 = (if \<exists>i<3. fate_at n a i \<noteq> Lost
      then (servers n)(a := f (servers n a)) else servers n)"
    using retry_servers [of 3 d a q n] by (simp only: loop assms snd_conv)
  then have "servers n1 = upd_at ?S f (servers n)" by (simp only: upd_at_single)
  moreover have "same_network n n1"
    using retry_loop_serve_frame(1,2) [of h 3 d a q n] loop by (simp add: same_network_def)
  moreover have "r = Inl TransportError \<or> r = Inr x \<and> ?S = {a}" using r by (auto split: if_splits)
  moreover have "reliable n \<and> listening n a \<longrightarrow> r = Inr x"
    using r some_try_delivered [of n a] by simp
  ultimately show ?thesis using loop by (intro exI [of _ r] exI [of _ n1] exI [of _ ?S]) auto
qed

end

subsection \<open>Contract: a loop over the backups\<close>

text \<open>
  \<open>send\<close> writes to one backup, \<open>send_all\<close> is the loop with its early return; \<open>f\<close> is what the write
  does at a server; \<open>known addr b n\<close> says that the sender can resolve the backup to \<open>addr b\<close>
  (and encode the message).
\<close>

locale replication_loop =
  fixes send :: "'b \<Rightarrow> 's net \<Rightarrow> (error + unit) \<times> 's net"
    and send_all :: "'b list \<Rightarrow> 's net \<Rightarrow> (error + unit) \<times> 's net"
    and f :: "'s \<Rightarrow> 's"
    and known :: "('b \<Rightarrow> sock_addr) \<Rightarrow> 'b \<Rightarrow> 's net \<Rightarrow> bool"
  assumes send_all_Nil: "send_all [] n = (Inr (), n)"
    and send_all_Cons: "send_all (b # bs) n =
      (case send b n of (Inl e, n1) \<Rightarrow> (Inl e, n1) | (Inr u, n1) \<Rightarrow> send_all bs n1)"
    and f_f: "f (f s) = f s"
    and known_upd: "known addr b n \<Longrightarrow> servers n' = upd_at S f (servers n) \<Longrightarrow> known addr b n'"
    and send_effect: "known addr b n \<Longrightarrow> \<exists>r n' S. send b n = (r, n') \<and> same_network n n' \<and>
      S \<subseteq> {addr b} \<and> servers n' = upd_at S f (servers n) \<and> (r = Inr () \<longrightarrow> S = {addr b}) \<and>
      (reliable n \<and> listening n (addr b) \<longrightarrow> r = Inr ())"
begin

lemma send_all_effect:
  "\<forall>b \<in> set bs. known addr b n \<Longrightarrow> \<exists>r n' S. send_all bs n = (r, n') \<and> same_network n n' \<and>
     S \<subseteq> addr ` set bs \<and> servers n' = upd_at S f (servers n) \<and>
     (r = Inr () \<longrightarrow> S = addr ` set bs) \<and>
     (reliable n \<and> (\<forall>b \<in> set bs. listening n (addr b)) \<longrightarrow> r = Inr ())"
proof (induction bs arbitrary: n)
  case Nil
  show ?case by (intro exI [of _ "Inr ()"] exI [of _ n] exI [of _ "{}"]) (simp add: send_all_Nil)
next
  case (Cons b bs)
  have "known addr b n" using Cons.prems by simp
  from send_effect [OF this] obtain r1 n1 S1 where e1: "send b n = (r1, n1)"
    and net1: "same_network n n1" and S1: "S1 \<subseteq> {addr b}"
    and sv1: "servers n1 = upd_at S1 f (servers n)" and full1: "r1 = Inr () \<longrightarrow> S1 = {addr b}"
    and ok1: "reliable n \<and> listening n (addr b) \<longrightarrow> r1 = Inr ()" by blast
  show ?case
  proof (cases r1)
    case (Inl e)
    with e1 net1 S1 sv1 ok1 show ?thesis
      by (intro exI [of _ r1] exI [of _ n1] exI [of _ S1]) (auto simp: send_all_Cons)
  next
    case (Inr u)
    have "\<forall>b \<in> set bs. known addr b n1" using Cons.prems known_upd [OF _ sv1] by simp
    from Cons.IH [OF this] obtain r2 n2 S2 where e2: "send_all bs n1 = (r2, n2)"
      and net2: "same_network n1 n2" and S2: "S2 \<subseteq> addr ` set bs"
      and sv2: "servers n2 = upd_at S2 f (servers n1)" and full2: "r2 = Inr () \<longrightarrow> S2 = addr ` set bs"
      and ok2: "reliable n1 \<and> (\<forall>b \<in> set bs. listening n1 (addr b)) \<longrightarrow> r2 = Inr ()"
      by blast
    have "servers n2 = upd_at (S1 \<union> S2) f (servers n)"
      by (simp add: sv1 sv2 upd_at_upd_at f_f)
    moreover have "same_network n n2" using net1 net2 by (rule same_network_trans)
    moreover have "reliable n \<and> (\<forall>b \<in> set (b # bs). listening n (addr b)) \<longrightarrow> r2 = Inr ()"
      using ok2 net1 by (auto simp: same_network_def reliable_def)
    moreover have "send_all (b # bs) n = (r2, n2)" using e1 e2 Inr by (simp add: send_all_Cons)
    moreover have "S1 = {addr b}" using full1 Inr by simp
    ultimately show ?thesis
      using S2 full2 by (intro exI [of _ r2] exI [of _ n2] exI [of _ "S1 \<union> S2"]) auto
  qed
qed

end

subsection \<open>What a retry preserves and where its answer comes from\<close>

lemma retry_loop_servers_inv:
  assumes "\<And>n. P (servers n) \<Longrightarrow> P (servers (snd (h a q n)))"
  shows "P (servers n) \<Longrightarrow> P (servers (snd (retry_loop h k d a q n)))"
proof (induction k arbitrary: d n)
  case 0
  then show ?case by simp
next
  case (Suc k)
  obtain r n1 where ex: "exchange h a q n = (r, n1)" by (cases "exchange h a q n")
  have "P (servers n1)"
    using ex Suc.prems assms [of "n\<lparr>sent := Suc (sent n)\<rparr>"]
    by (auto simp: exchange_def Let_def split: if_splits fate.splits prod.splits)
  with Suc.IH [of "n1\<lparr>slept := slept n1 + d + unat (jitter n1 (sent n1) mod 50)\<rparr>"] ex show ?case
    by (auto split: option.splits)
qed

text \<open>An answer is the answer of one run of the handler, the last thing that happened.\<close>

lemma retry_loop_answer:
  assumes "\<And>n. P (servers n) \<Longrightarrow> P (servers (snd (h a q n)))"
  shows "P (servers n) \<Longrightarrow> retry_loop h k d a q n = (Inr x, n') \<Longrightarrow>
    \<exists>n0. P (servers n0) \<and> h a q n0 = (x, n')"
proof (induction k arbitrary: d n)
  case 0
  then show ?case by simp
next
  case (Suc k)
  obtain r n1 where ex: "exchange h a q n = (r, n1)" by (cases "exchange h a q n")
  show ?case
  proof (cases r)
    case (Some y)
    with ex Suc.prems(2) have "y = x" "n1 = n'" by auto
    with ex Some have "h a q (n\<lparr>sent := Suc (sent n)\<rparr>) = (x, n')"
      by (auto simp: exchange_def Let_def split: if_splits fate.splits prod.splits)
    then show ?thesis using Suc.prems(1) by (intro exI [of _ "n\<lparr>sent := Suc (sent n)\<rparr>"]) simp
  next
    case None
    have "P (servers n1)"
      using ex Suc.prems(1) assms [of "n\<lparr>sent := Suc (sent n)\<rparr>"]
      by (auto simp: exchange_def Let_def split: if_splits fate.splits prod.splits)
    moreover have "retry_loop h k (min (d * 2) 1200) a q
        (n1\<lparr>slept := slept n1 + d + unat (jitter n1 (sent n1) mod 50)\<rparr>) = (Inr x, n')"
      using Suc.prems(2) ex None by (auto split: if_splits)
    ultimately show ?thesis
      using Suc.IH [of "n1\<lparr>slept := slept n1 + d + unat (jitter n1 (sent n1) mod 50)\<rparr>"] by simp
  qed
qed

subsection \<open>Nodes that are down\<close>

lemma retry_loop_down:
  assumes "\<not> listening n a"
  shows "\<exists>n'. retry_loop h (Suc k) d a q n = (Inl TransportError, n') \<and> servers n' = servers n \<and>
    same_network n n'"
  using assms
proof (induction k arbitrary: d n)
  case 0
  then show ?case by (simp add: exchange_def Let_def same_network_def)
next
  case (Suc k)
  let ?n1 = "n\<lparr>sent := Suc (sent n)\<rparr>"
  let ?n2 = "?n1\<lparr>slept := slept ?n1 + d + unat (jitter ?n1 (sent ?n1) mod 50)\<rparr>"
  have "\<not> listening ?n2 a" using Suc.prems by simp
  from Suc.IH [OF this, of "min (d * 2) 1200"] Suc.prems show ?case
    by (simp add: exchange_def Let_def same_network_def)
qed

lemma retry_3_down:
  "\<not> listening n a \<Longrightarrow>
     \<exists>n'. retry_loop h 3 d a q n = (Inl TransportError, n') \<and> servers n' = servers n"
  using retry_loop_down [of n a h 2 d q] by (auto simp only: numeral_3_eq_3 numeral_2_eq_2)

end
