(* ===== verification/Placement.thy ===== *)
theory Placement
  imports Partitioner Replication
begin

text \<open>
  Clusters whose nodes agree: \<open>knows ids addr i s\<close> says that \<open>s\<close> is the membership service of
  node \<open>i\<close> and that it knows the nodes \<open>ids\<close>, all alive, at the HTTP addresses \<open>addr\<close>. The owners
  such a node computes are the list \<open>placement\<close>, the same at every node. The storage layer and the
  task queue share this vocabulary, and the example network at the end.
\<close>

definition knows :: "str list \<Rightarrow> (str \<Rightarrow> sock_addr) \<Rightarrow> str \<Rightarrow> membership \<Rightarrow> bool" where
  "knows ids addr i s \<longleftrightarrow> members_ok s \<and> nid (local_node s) = i \<and>
     nid ` set (get_alive_members s) = set ids \<and>
     (\<forall>j \<in> set ids. map_option http_addr (get_member s j) = Some (addr j))"

definition placement :: "str list \<Rightarrow> partition_manager \<Rightarrow> u32 \<Rightarrow> str list" where
  "placement ids pm p = ring_owners (replication_factor pm) (sort ids) (unat p)"

definition all_listening :: "str list \<Rightarrow> (str \<Rightarrow> sock_addr) \<Rightarrow> 's net \<Rightarrow> bool" where
  "all_listening ids addr n \<longleftrightarrow> (\<forall>i \<in> set ids. listening n (addr i))"

lemma knows_ring: "knows ids addr i s \<Longrightarrow> distinct ids \<Longrightarrow> ring s = sort ids"
  by (intro sorted_distinct_set_unique)
     (simp_all add: knows_def distinct_ring set_ring, simp add: ring_def)

lemma knows_owners: "knows ids addr i s \<Longrightarrow> distinct ids \<Longrightarrow> get_owners pm s p = placement ids pm p"
  by (simp add: get_owners_ring placement_def knows_ring)

lemma set_placement: "set (placement ids pm p) \<subseteq> set ids"
  using set_ring_owners [of "replication_factor pm" "sort ids" "unat p"] by (simp add: placement_def)

lemma distinct_placement: "distinct ids \<Longrightarrow> distinct (placement ids pm p)"
  by (simp add: placement_def distinct_ring_owners)

lemma placement_Nil_iff:
  "0 < replication_factor pm \<Longrightarrow> placement ids pm p = [] \<longleftrightarrow> ids = []"
  by (auto simp: placement_def ring_owners_Nil_iff simp flip: length_0_conv)

lemma all_listening_same: "same_network n n' \<Longrightarrow> all_listening ids addr n' \<longleftrightarrow> all_listening ids addr n"
  by (simp add: same_network_def all_listening_def)

subsection \<open>Examples\<close>

definition quiet_net :: "(sock_addr \<Rightarrow> 's) \<Rightarrow> 's net" where
  "quiet_net sv = \<lparr>servers = sv, listening = (\<lambda>_. True), fates = (\<lambda>_. Delivered), sent = 0,
     jitter = (\<lambda>_. 0), slept = 0\<rparr>"

definition node_addr :: "str \<Rightarrow> sock_addr" where
  "node_addr i = (i, 6000)"

definition length_hash :: "str \<Rightarrow> u64" where
  "length_hash s = of_nat (length s)"

lemma inj_node_addr [simp]: "inj_on node_addr S"
  by (simp add: inj_on_def node_addr_def)

lemma quiet_net_simps [simp]:
  "servers (quiet_net sv) = sv" "reliable (quiet_net sv)" "all_listening ids addr (quiet_net sv)"
  "listening (quiet_net sv) a" "fates (quiet_net sv) i = Delivered"
  by (simp_all add: quiet_net_def reliable_def all_listening_def)

lemma three_rf [simp]: "0 < replication_factor new_partition_manager"
  by (simp add: new_partition_manager_def new_with_replication_def)

end
