(* ===== verification/DistributedMap.thy ===== *)
theory DistributedMap
  imports Placement
begin

text \<open>
  One node's part of a distributed map (\<open>src/src/storage/memory.rs\<close>, \<open>protocol.rs\<close>) and the HTTP
  handlers that touch that part only (\<open>src/src/storage/handlers.rs\<close>): the local store, the record
  of processed operations, and the operations on them. What crosses the network is in
  \<open>MapCluster\<close>.

  Inputs of the model that are not code of the repository: \<open>codec\<close> bundles \<open>K::to_string\<close>,
  \<open>K::from_str\<close> and \<open>serde_json\<close> for the value type, and \<open>url_segment\<close>, what the router of the
  receiving node reads off the path when a key is pasted into a URL as it is (\<open>None\<close>: no route
  matches, as with a key that holds a slash); \<open>clock\<close> is what \<open>now_ms()\<close> reads.
\<close>

subsection \<open>State and messages\<close>

record ('k, 'v) codec =
  to_string :: "'k \<Rightarrow> str"
  parse :: "str \<Rightarrow> 'k option"
  to_json :: "'v \<Rightarrow> str option"
  from_json :: "str \<Rightarrow> 'v option"
  url_segment :: "str \<Rightarrow> str option"

text \<open>Documented behaviour of the codec: what is printed can be read back.\<close>

definition codec_ok :: "('k, 'v) codec \<Rightarrow> bool" where
  "codec_ok cd \<longleftrightarrow> (\<forall>k. parse cd (to_string cd k) = Some k) \<and>
     (\<forall>v. \<exists>j. to_json cd v = Some j \<and> from_json cd j = Some v)"

record ('k, 'v) dmap =
  local_data :: "(u32, ('k, 'v) dashmap) dashmap"
  processed_ops :: "(str, u64) dashmap"
  membership :: membership
  partitioner :: partition_manager
  base_path :: str
  clock :: u64

text \<open>\<open>ReplicateRequest\<close> and \<open>ForwardPutRequest\<close> have the same fields.\<close>

record write_request =
  req_partition :: u32
  req_op_id :: str
  req_key :: str
  req_value_json :: str

record put_request =
  put_op_id :: str
  put_key :: str
  put_value_json :: str

record partition_dump =
  dump_partition_id :: u32
  dump_entries :: "(str \<times> str) list"

type_synonym put_response = "status \<times> bool"
type_synonym get_response = "status \<times> str option"

subsection \<open>Construction\<close>

definition trim_end_matches :: "nat \<Rightarrow> str \<Rightarrow> str" where
  "trim_end_matches c s = rev (dropWhile (\<lambda>x. x = c) (rev s))"

definition SLASH :: nat where "SLASH = of_char (CHR ''/'')"

definition new_with_base :: "membership \<Rightarrow> partition_manager \<Rightarrow> str \<Rightarrow> u64 \<Rightarrow> ('k, 'v) dmap" where
  "new_with_base ms pm base now =
     (let cleaned = trim_end_matches SLASH base
      in \<lparr>local_data = [], processed_ops = [], membership = ms, partitioner = pm,
          base_path = (if cleaned = [] then []
                       else if hd cleaned = SLASH then cleaned
                       else SLASH # cleaned),
          clock = now\<rparr>)"

definition new_dmap :: "membership \<Rightarrow> partition_manager \<Rightarrow> u64 \<Rightarrow> ('k, 'v) dmap" where
  "new_dmap ms pm now = new_with_base ms pm [] now"

subsection \<open>Local operations\<close>

definition should_process :: "str \<Rightarrow> ('k, 'v) dmap \<Rightarrow> bool \<times> ('k, 'v) dmap" where
  "should_process op_id m =
     (if dm_contains_key (processed_ops m) op_id then (False, m)
      else
        (let ops = (if length (processed_ops m) > 10000 then [] else processed_ops m)
         in (True, m\<lparr>processed_ops := dm_insert op_id (clock m) ops\<rparr>)))"

definition store_local :: "u32 \<Rightarrow> 'k \<Rightarrow> 'v \<Rightarrow> ('k, 'v) dmap \<Rightarrow> ('k, 'v) dmap" where
  "store_local p key v m =
     (let partition_map = (case dm_get (local_data m) p of Some pm \<Rightarrow> pm | None \<Rightarrow> [])
      in m\<lparr>local_data := dm_insert p (dm_insert key v partition_map) (local_data m)\<rparr>)"

definition dump_partition :: "u32 \<Rightarrow> ('k, 'v) dmap \<Rightarrow> ('k \<times> 'v) list" where
  "dump_partition p m = (case dm_get (local_data m) p of Some pm \<Rightarrow> pm | None \<Rightarrow> [])"

definition has_partition :: "u32 \<Rightarrow> ('k, 'v) dmap \<Rightarrow> bool" where
  "has_partition p m \<longleftrightarrow> (case dm_get (local_data m) p of Some pm \<Rightarrow> pm \<noteq> [] | None \<Rightarrow> False)"

definition apply_partition_entries :: "u32 \<Rightarrow> ('k \<times> 'v) list \<Rightarrow> ('k, 'v) dmap \<Rightarrow> ('k, 'v) dmap" where
  "apply_partition_entries p entries m = fold (\<lambda>(key, v). store_local p key v) entries m"

definition local_partition_count :: "('k, 'v) dmap \<Rightarrow> nat" where
  "local_partition_count m = length (local_data m)"

definition local_entry_count :: "('k, 'v) dmap \<Rightarrow> nat" where
  "local_entry_count m = sum_list (map length (dm_values (local_data m)))"

definition store_replica :: "u32 \<Rightarrow> str \<Rightarrow> 'k \<Rightarrow> 'v \<Rightarrow> ('k, 'v) dmap \<Rightarrow> ('k, 'v) dmap" where
  "store_replica p op_id key v m =
     (case should_process op_id m of (go, m1) \<Rightarrow> if \<not> go then m1 else store_local p key v m1)"

definition key_partition :: "(str \<Rightarrow> u64) \<Rightarrow> ('k, 'v) codec \<Rightarrow> partition_manager \<Rightarrow> 'k \<Rightarrow> u32" where
  "key_partition hash cd pm key = get_partition hash pm (to_string cd key)"

text \<open>The nested lookup \<open>local_data.get(&partition)\<close>, then \<open>partition_map.get(key)\<close>.\<close>

definition peek :: "('k, 'v) dmap \<Rightarrow> u32 \<Rightarrow> 'k \<Rightarrow> 'v option" where
  "peek m p key = (case dm_get (local_data m) p of Some pm \<Rightarrow> dm_get pm key | None \<Rightarrow> None)"

definition get_local :: "(str \<Rightarrow> u64) \<Rightarrow> ('k, 'v) codec \<Rightarrow> 'k \<Rightarrow> ('k, 'v) dmap \<Rightarrow> 'v option" where
  "get_local hash cd key m = peek m (key_partition hash cd (partitioner m) key) key"

subsection \<open>Local HTTP handlers\<close>

definition handle_replicate :: "('k, 'v) codec \<Rightarrow> write_request \<Rightarrow> ('k, 'v) dmap
    \<Rightarrow> put_response \<times> ('k, 'v) dmap" where
  "handle_replicate cd req m =
     (case parse cd (req_key req) of
        None \<Rightarrow> ((BAD_REQUEST, False), m)
      | Some key \<Rightarrow>
          (case from_json cd (req_value_json req) of
             None \<Rightarrow> ((BAD_REQUEST, False), m)
           | Some v \<Rightarrow> ((OK, True), store_replica (req_partition req) (req_op_id req) key v m)))"

definition handle_get_internal :: "(str \<Rightarrow> u64) \<Rightarrow> ('k, 'v) codec \<Rightarrow> str \<Rightarrow> ('k, 'v) dmap
    \<Rightarrow> get_response \<times> ('k, 'v) dmap" where
  "handle_get_internal hash cd key_str m =
     ((case parse cd key_str of
         None \<Rightarrow> (BAD_REQUEST, None)
       | Some k \<Rightarrow>
           (case get_local hash cd k m of
              Some v \<Rightarrow>
                (case to_json cd v of
                   Some value_json \<Rightarrow> (OK, Some value_json)
                 | None \<Rightarrow> (INTERNAL_SERVER_ERROR, None))
            | None \<Rightarrow> (NOT_FOUND, None))), m)"

text \<open>The route \<open>/internal/get/:key\<close> in front of it.\<close>

definition route_get_internal :: "(str \<Rightarrow> u64) \<Rightarrow> ('k, 'v) codec \<Rightarrow> str \<Rightarrow> ('k, 'v) dmap
    \<Rightarrow> get_response \<times> ('k, 'v) dmap" where
  "route_get_internal hash cd path m =
     (case url_segment cd path of
        None \<Rightarrow> ((NOT_FOUND, None), m)
      | Some key_str \<Rightarrow> handle_get_internal hash cd key_str m)"

definition handle_partition_dump :: "('k, 'v) codec \<Rightarrow> u32 \<Rightarrow> ('k, 'v) dmap
    \<Rightarrow> (status \<times> partition_dump) \<times> ('k, 'v) dmap" where
  "handle_partition_dump cd p m =
     ((OK, \<lparr>dump_partition_id = p,
            dump_entries = List.map_filter
              (\<lambda>(key, v). map_option (\<lambda>j. (to_string cd key, j)) (to_json cd v))
              (dump_partition p m)\<rparr>), m)"

subsection \<open>The store is a two-level store\<close>

definition dmap_wf :: "('k, 'v) dmap \<Rightarrow> bool" where
  "dmap_wf m \<longleftrightarrow> dm_wf (local_data m) \<and> (\<forall>pm \<in> snd ` set (local_data m). dm_wf pm) \<and>
     dm_wf (processed_ops m)"

lemma dmap_wf_get: "dmap_wf m \<Longrightarrow> dm_get (local_data m) p = Some pm \<Longrightarrow> dm_wf pm"
  by (force simp: dmap_wf_def dest: dm_get_in_set)

lemma dmap_wf_new: "dmap_wf (new_with_base ms pm base now)"
  by (simp add: dmap_wf_def new_with_base_def Let_def)

lemma peek_store_local [simp]:
  "peek (store_local p k v m) p' k' = (if p' = p \<and> k' = k then Some v else peek m p' k')"
  by (simp add: peek_def store_local_def Let_def split: option.splits)

lemma dmap_wf_store_local:
  assumes "dmap_wf m"
  shows "dmap_wf (store_local p k v m)"
proof -
  let ?pm = "case dm_get (local_data m) p of Some pm \<Rightarrow> pm | None \<Rightarrow> []"
  have "dm_wf ?pm"
    by (cases "dm_get (local_data m) p") (simp_all add: dmap_wf_get [OF assms])
  then have "dm_wf (dm_insert k v ?pm)" by (rule dm_wf_insert)
  moreover have "\<forall>pm \<in> snd ` set (local_data m). dm_wf pm"
    using assms unfolding dmap_wf_def by blast
  ultimately have "\<forall>pm \<in> snd ` set (dm_insert p (dm_insert k v ?pm) (local_data m)). dm_wf pm"
    by (intro dm_insert_all_values)
  moreover have "dm_wf (dm_insert p (dm_insert k v ?pm) (local_data m))"
    using assms by (intro dm_wf_insert) (simp add: dmap_wf_def)
  moreover have "dm_wf (processed_ops m)" using assms by (simp add: dmap_wf_def)
  moreover have "local_data (store_local p k v m) = dm_insert p (dm_insert k v ?pm) (local_data m)"
    "processed_ops (store_local p k v m) = processed_ops m"
    by (simp_all add: store_local_def Let_def)
  ultimately show ?thesis
    unfolding dmap_wf_def by (simp only: simp_thms)
qed

interpretation map_store: sharded_store peek store_local "\<lambda>_ v. v" dmap_wf
  by unfold_locales (auto simp: dmap_wf_store_local)

lemma store_local_frame [simp]:
  "processed_ops (store_local p k v m) = processed_ops m"
  "membership (store_local p k v m) = membership m"
  "partitioner (store_local p k v m) = partitioner m"
  "base_path (store_local p k v m) = base_path m" "clock (store_local p k v m) = clock m"
  by (simp_all add: store_local_def Let_def)

subsection \<open>Idempotency\<close>

lemma should_process_new:
  "\<not> dm_contains_key (processed_ops m) op \<Longrightarrow> fst (should_process op m)"
  by (simp add: should_process_def Let_def)

lemma should_process_frame [simp]:
  "local_data (snd (should_process op m)) = local_data m"
  "membership (snd (should_process op m)) = membership m"
  "partitioner (snd (should_process op m)) = partitioner m"
  "base_path (snd (should_process op m)) = base_path m"
  "clock (snd (should_process op m)) = clock m"
  by (simp_all add: should_process_def Let_def)

lemma peek_should_process [simp]: "peek (snd (should_process op m)) = peek m"
  by (intro ext) (simp add: peek_def)

lemma should_process_marks [simp]: "dm_contains_key (processed_ops (snd (should_process op m))) op"
  by (simp add: should_process_def Let_def)

lemma should_process_again:
  "dm_contains_key (processed_ops m) op \<Longrightarrow> should_process op m = (False, m)"
  by (simp add: should_process_def)

lemma dmap_wf_should_process: "dmap_wf m \<Longrightarrow> dmap_wf (snd (should_process op m))"
  by (auto simp: dmap_wf_def should_process_def Let_def)

lemma store_replica_cases:
  "store_replica p op k v m =
     (if dm_contains_key (processed_ops m) op then m
      else store_local p k v (snd (should_process op m)))"
  by (simp add: store_replica_def should_process_def Let_def)

lemma dmap_wf_store_replica: "dmap_wf m \<Longrightarrow> dmap_wf (store_replica p op k v m)"
  by (simp add: store_replica_cases dmap_wf_should_process dmap_wf_store_local)

lemma not_processed_should_process:
  "\<not> dm_contains_key (processed_ops m) op' \<Longrightarrow> op' \<noteq> op \<Longrightarrow>
     \<not> dm_contains_key (processed_ops (snd (should_process op m))) op'"
  by (simp add: should_process_def Let_def)

lemma not_processed_store_replica:
  "\<not> dm_contains_key (processed_ops m) op' \<Longrightarrow> op' \<noteq> op \<Longrightarrow>
     \<not> dm_contains_key (processed_ops (store_replica p op k v m)) op'"
  by (simp add: store_replica_cases not_processed_should_process)

lemma store_replica_frame [simp]:
  "membership (store_replica p op k v m) = membership m"
  "partitioner (store_replica p op k v m) = partitioner m"
  "base_path (store_replica p op k v m) = base_path m"
  "clock (store_replica p op k v m) = clock m"
  by (simp_all add: store_replica_cases)

lemma store_replica_marks: "dm_contains_key (processed_ops (store_replica p op k v m)) op"
  by (simp add: store_replica_cases)

lemma store_replica_again:
  "dm_contains_key (processed_ops m) op \<Longrightarrow> store_replica p op k v m = m"
  by (simp add: store_replica_cases)

lemma peek_store_replica_new:
  "\<not> dm_contains_key (processed_ops m) op \<Longrightarrow>
     peek (store_replica p op k v m) p' k' = (if p' = p \<and> k' = k then Some v else peek m p' k')"
  by (simp add: store_replica_cases)

lemma store_replica_idem: "store_replica p op k v (store_replica p op k v m) = store_replica p op k v m"
  by (rule store_replica_again) (rule store_replica_marks)

text \<open>The services other nodes retry against: storing a replica is idempotent, the other two only read.\<close>

interpretation replicate: idempotent_service "handle_replicate cd" for cd :: "('k, 'v) codec"
  by unfold_locales (auto simp: handle_replicate_def store_replica_idem split: option.splits)

interpretation get_internal: readonly_service "route_get_internal hash cd"
  for hash :: "str \<Rightarrow> u64" and cd :: "('k, 'v) codec"
  by unfold_locales (simp add: route_get_internal_def handle_get_internal_def split: option.split)

interpretation partition_dump: readonly_service "handle_partition_dump cd" for cd :: "('k, 'v) codec"
  by unfold_locales (simp add: handle_partition_dump_def)

subsection \<open>Examples\<close>

text \<open>A codec for strings, and one node's map, for the examples of this and the next theories.\<close>

definition str_codec :: "(str, str) codec" where
  "str_codec = \<lparr>to_string = (\<lambda>s. s), parse = Some, to_json = Some, from_json = Some,
     url_segment = (\<lambda>s. if SLASH \<in> set s then None else Some s)\<rparr>"

lemma str_codec_ok [simp]: "codec_ok str_codec"
  by (simp add: codec_ok_def str_codec_def)

definition sample_map :: "(str, str) dmap" where
  "sample_map = new_with_base (stable_view three_ids (lit ''a'')) new_partition_manager (lit ''/books'') 7"

subsection \<open>Properties\<close>

lemma dm_get_peek: "dm_get (dump_partition p m) k = peek m p k"
  by (simp add: dump_partition_def peek_def split: option.splits)

lemma dm_wf_dump: "dmap_wf m \<Longrightarrow> dm_wf (dump_partition p m)"
  using dmap_wf_get [of m p] by (simp add: dump_partition_def split: option.splits)

lemma apply_dump:
  assumes "dmap_wf m" and "dmap_wf m'"
  shows "peek (apply_partition_entries p (dump_partition p m) m') p k
    = (case peek m p k of None \<Rightarrow> peek m' p k | Some v \<Rightarrow> Some v)"
  using map_store.lookup_bulk [OF assms(2), of "dump_partition p m" p k] dm_wf_dump [OF assms(1), of p]
    dm_get_peek [of p m k]
  by (simp add: apply_partition_entries_def dm_wf_def dm_get_def)

text \<open>The record of processed operations deduplicates a late copy of an old write only while it is small:
  once it holds more than 10,000 operations the next write empties it, and a copy of an older write of
  the same key that arrives after that write overwrites it.\<close>
theorem dedup_window:
  assumes "dm_contains_key (processed_ops m) op1" and "\<not> dm_contains_key (processed_ops m) op2"
  shows "peek (store_replica p op1 k v1 (store_replica p op2 k v2 m)) p k =
    Some (if length (processed_ops m) > 10000 then v1 else v2)"
proof -
  have "op1 \<noteq> op2" using assms by blast
  then have "dm_contains_key (processed_ops (store_replica p op2 k v2 m)) op1 \<longleftrightarrow> \<not> length (processed_ops m) > 10000"
    using assms by (simp add: store_replica_cases should_process_def Let_def)
  then show ?thesis
    using assms(2) by (cases "length (processed_ops m) > 10000")
      (simp_all add: peek_store_replica_new store_replica_again)
qed

text \<open>A partition dumped by one node and applied by another arrives complete: the receiver then holds
  every entry of the sender, keeps its own entry where the sender has none, and its other
  partitions are untouched.\<close>
theorem dump_apply_roundtrip:
  assumes "dmap_wf m" and "dmap_wf m'"
  shows "peek (apply_partition_entries p (dump_partition p m) m') p' k
    = (if p' = p then (case peek m p k of None \<Rightarrow> peek m' p k | Some v \<Rightarrow> Some v) else peek m' p' k)"
  using apply_dump [OF assms, of p k] map_store.lookup_bulk_other [OF assms(2), of p' p k "dump_partition p m"]
  by (simp add: apply_partition_entries_def)

theorem dump_apply_roundtrip_witness:
  "peek (apply_partition_entries 3 (dump_partition 3 (store_local 3 (lit ''k'') (lit ''v'') sample_map))
     sample_map) 3 (lit ''k'') = Some (lit ''v'')"
  using dump_apply_roundtrip [of "store_local 3 (lit ''k'') (lit ''v'') sample_map" sample_map 3 3 "lit ''k''"]
  by (simp add: sample_map_def dmap_wf_new dmap_wf_store_local)

text \<open>The memory of processed operations stays bounded: whatever operations arrive, it never holds more
  than 10001 ids, and the operation just seen is always among them.\<close>
theorem processed_ops_bounded:
  assumes "length (processed_ops m) \<le> 10001"
  shows "length (processed_ops (fold (\<lambda>(p, op, k, v). store_replica p op k v) ws m)) \<le> 10001 \<and>
    (ws \<noteq> [] \<longrightarrow> dm_contains_key (processed_ops (fold (\<lambda>(p, op, k, v). store_replica p op k v) ws m))
       (fst (snd (last ws))))"
proof -
  have step: "length (processed_ops (store_replica p op k v m)) \<le> 10001"
    if "length (processed_ops m) \<le> 10001" for p op k v and m :: "('a, 'b) dmap"
    using that
    by (simp add: store_replica_cases should_process_def Let_def length_dm_insert)
  have "length (processed_ops (fold (\<lambda>(p, op, k, v). store_replica p op k v) ws m)) \<le> 10001"
    using assms by (induction ws arbitrary: m) (auto intro: step)
  moreover have "dm_contains_key (processed_ops (fold (\<lambda>(p, op, k, v). store_replica p op k v) ws m))
      (fst (snd (last ws)))" if "ws \<noteq> []"
    using that by (induction ws rule: rev_induct) (auto simp: store_replica_marks)
  ultimately show ?thesis by blast
qed

theorem processed_ops_bounded_witness:
  "dm_contains_key (processed_ops (fold (\<lambda>(p, op, k, v). store_replica p op k v)
     [(1, lit ''op1'', lit ''k'', lit ''v''), (2, lit ''op2'', lit ''k'', lit ''w'')] sample_map)) (lit ''op2'')"
  using processed_ops_bounded [of sample_map
    "[(1, lit ''op1'', lit ''k'', lit ''v''), (2, lit ''op2'', lit ''k'', lit ''w'')]"]
  by (simp add: sample_map_def new_with_base_def Let_def)

text \<open>The URL prefix of a map is in normal form, empty or a path that starts with a slash and does not end
  with one, whatever prefix was asked for, and building a map with a normalised prefix keeps it.\<close>
theorem base_path_normal:
  "(base_path (new_with_base ms pm base now :: ('k, 'v) dmap) = [] \<or>
      hd (base_path (new_with_base ms pm base now :: ('k, 'v) dmap)) = SLASH \<and>
      last (base_path (new_with_base ms pm base now :: ('k, 'v) dmap)) \<noteq> SLASH) \<and>
   base_path (new_with_base ms' pm' (base_path (new_with_base ms pm base now :: ('k, 'v) dmap)) now' :: ('k, 'v) dmap)
     = base_path (new_with_base ms pm base now :: ('k, 'v) dmap)"
proof -
  let ?t = "trim_end_matches SLASH"
  have last_trim: "last (?t s) \<noteq> SLASH" if "?t s \<noteq> []" for s
    using that hd_dropWhile [of "\<lambda>x. x = SLASH" "rev s"] by (simp add: trim_end_matches_def last_rev)
  have keep: "?t s = s" if "s = [] \<or> last s \<noteq> SLASH" for s
    using that by (cases s rule: rev_cases) (auto simp: trim_end_matches_def)
  have form: "base_path (new_with_base ms pm b now :: ('k, 'v) dmap) = (if ?t b = [] then []
      else if hd (?t b) = SLASH then ?t b else SLASH # ?t b)" for ms pm b now
    by (simp add: new_with_base_def Let_def)
  let ?b = "base_path (new_with_base ms pm base now :: ('k, 'v) dmap)"
  have nf: "?b = [] \<or> hd ?b = SLASH \<and> last ?b \<noteq> SLASH"
    unfolding form using last_trim [of base] by auto
  moreover have "?t ?b = ?b" using nf by (intro keep) auto
  then have "base_path (new_with_base ms' pm' ?b now' :: ('k, 'v) dmap) = ?b"
    using nf by (auto simp: form [of ms' pm' ?b])
  ultimately show ?thesis by blast
qed

end
