(* ===== verification/MapCluster.thy ===== *)
theory MapCluster
  imports DistributedMap
begin

text \<open>
  The operations of the distributed map that involve several nodes (\<open>src/src/storage/memory.rs\<close>:
  forwarding, replication, the public \<open>put\<close> and \<open>get\<close>; \<open>handlers.rs\<close>: the handlers that call
  them; \<open>src/src/main.rs\<close>: the anti-entropy pass \<open>sync_partitions\<close>). The state is a \<open>net\<close> of nodes;
  an operation runs at the node whose HTTP address is \<open>self\<close>, and reads and writes the other nodes
  through \<open>post_with_retry\<close> and \<open>get_with_retry\<close> only.

  The abstract specification is one map from keys to values: \<open>consistent\<close> says that every owner of
  a key's partition holds the value the abstract map has, and nobody else holds any.
\<close>

type_synonym ('k, 'v) cluster = "('k, 'v) dmap net"

subsection \<open>Writing\<close>

definition replicate_to_backup :: "('k, 'v) codec \<Rightarrow> sock_addr \<Rightarrow> str \<Rightarrow> u32 \<Rightarrow> str \<Rightarrow> 'k \<Rightarrow> 'v
    \<Rightarrow> ('k, 'v) cluster \<Rightarrow> (error + unit) \<times> ('k, 'v) cluster" where
  "replicate_to_backup cd self backup p op_id key v n =
     (case get_member (membership (servers n self)) backup of
        None \<Rightarrow> (Inl NodeNotFound, n)
      | Some node \<Rightarrow>
          (case to_json cd v of
             None \<Rightarrow> (Inl SerializeError, n)
           | Some value_json \<Rightarrow>
               (case post_with_retry (serve (handle_replicate cd)) (http_addr node)
                       \<lparr>req_partition = p, req_op_id = op_id, req_key = to_string cd key,
                        req_value_json = value_json\<rparr> 3 n of
                  (Inl e, n1) \<Rightarrow> (Inl e, n1)
                | (Inr response, n1) \<Rightarrow>
                    if \<not> is_success (fst response) then (Inl (BadStatus (fst response)), n1)
                    else (Inr (), n1))))"

text \<open>The loop \<open>for backup in owners.iter().skip(1) { ... .await?; }\<close>.\<close>

fun replicate_all :: "('k, 'v) codec \<Rightarrow> sock_addr \<Rightarrow> str list \<Rightarrow> u32 \<Rightarrow> str \<Rightarrow> 'k \<Rightarrow> 'v
    \<Rightarrow> ('k, 'v) cluster \<Rightarrow> (error + unit) \<times> ('k, 'v) cluster" where
  "replicate_all cd self [] p op_id key v n = (Inr (), n)"
| "replicate_all cd self (backup # backups) p op_id key v n =
     (case replicate_to_backup cd self backup p op_id key v n of
        (Inl e, n1) \<Rightarrow> (Inl e, n1)
      | (Inr _, n1) \<Rightarrow> replicate_all cd self backups p op_id key v n1)"

definition owners_at :: "sock_addr \<Rightarrow> u32 \<Rightarrow> ('k, 'v) cluster \<Rightarrow> str list" where
  "owners_at self p n = get_owners (partitioner (servers n self)) (membership (servers n self)) p"

definition store_as_primary :: "('k, 'v) codec \<Rightarrow> sock_addr \<Rightarrow> u32 \<Rightarrow> str \<Rightarrow> 'k \<Rightarrow> 'v
    \<Rightarrow> ('k, 'v) cluster \<Rightarrow> (error + unit) \<times> ('k, 'v) cluster" where
  "store_as_primary cd self p op_id key v n =
     (case should_process op_id (servers n self) of (go, m1) \<Rightarrow>
        if \<not> go then (Inr (), set_server self m1 n)
        else
          (let n2 = set_server self (store_local p key v m1) n;
               owners = owners_at self p n2
           in replicate_all cd self (drop 1 owners) p op_id key v n2))"

definition handle_forward_put :: "('k, 'v) codec \<Rightarrow> sock_addr \<Rightarrow> write_request \<Rightarrow> ('k, 'v) cluster
    \<Rightarrow> put_response \<times> ('k, 'v) cluster" where
  "handle_forward_put cd self req n =
     (case parse cd (req_key req) of
        None \<Rightarrow> ((BAD_REQUEST, False), n)
      | Some key \<Rightarrow>
          (case from_json cd (req_value_json req) of
             None \<Rightarrow> ((BAD_REQUEST, False), n)
           | Some v \<Rightarrow>
               (case store_as_primary cd self (req_partition req) (req_op_id req) key v n of
                  (Inr _, n1) \<Rightarrow> ((OK, True), n1)
                | (Inl e, n1) \<Rightarrow> ((INTERNAL_SERVER_ERROR, False), n1))))"

definition forward_put :: "('k, 'v) codec \<Rightarrow> sock_addr \<Rightarrow> str \<Rightarrow> u32 \<Rightarrow> str \<Rightarrow> 'k \<Rightarrow> 'v
    \<Rightarrow> ('k, 'v) cluster \<Rightarrow> (error + unit) \<times> ('k, 'v) cluster" where
  "forward_put cd self primary p op_id key v n =
     (case get_member (membership (servers n self)) primary of
        None \<Rightarrow> (Inl NodeNotFound, n)
      | Some node \<Rightarrow>
          (case to_json cd v of
             None \<Rightarrow> (Inl SerializeError, n)
           | Some value_json \<Rightarrow>
               (case post_with_retry (handle_forward_put cd) (http_addr node)
                       \<lparr>req_partition = p, req_op_id = op_id, req_key = to_string cd key,
                        req_value_json = value_json\<rparr> 3 n of
                  (Inl e, n1) \<Rightarrow> (Inl e, n1)
                | (Inr response, n1) \<Rightarrow>
                    if \<not> is_success (fst response) then (Inl (BadStatus (fst response)), n1)
                    else (Inr (), n1))))"

definition put_with_op :: "(str \<Rightarrow> u64) \<Rightarrow> ('k, 'v) codec \<Rightarrow> sock_addr \<Rightarrow> 'k \<Rightarrow> 'v \<Rightarrow> str
    \<Rightarrow> ('k, 'v) cluster \<Rightarrow> (error + unit) \<times> ('k, 'v) cluster" where
  "put_with_op hash cd self key v op_id n =
     (case should_process op_id (servers n self) of (go, m1) \<Rightarrow>
        let n1 = set_server self m1 n
        in if \<not> go then (Inr (), n1)
           else
             (let p = key_partition hash cd (partitioner m1) key;
                  owners = owners_at self p n1
              in if owners = [] then (Inr (), set_server self (store_local p key v m1) n1)
                 else if nid (local_node (membership m1)) \<noteq> owners ! 0
                 then forward_put cd self (owners ! 0) p op_id key v n1
                 else
                   (let n2 = set_server self (store_local p key v m1) n1
                    in if length owners > 1
                       then replicate_all cd self (drop 1 owners) p op_id key v n2
                       else (Inr (), n2))))"

text \<open>\<open>put\<close> draws a fresh UUID, the argument \<open>op_id\<close>.\<close>

definition put :: "(str \<Rightarrow> u64) \<Rightarrow> ('k, 'v) codec \<Rightarrow> sock_addr \<Rightarrow> 'k \<Rightarrow> 'v \<Rightarrow> str
    \<Rightarrow> ('k, 'v) cluster \<Rightarrow> (error + unit) \<times> ('k, 'v) cluster" where
  "put hash cd self key v op_id n = put_with_op hash cd self key v op_id n"

definition put_local :: "(str \<Rightarrow> u64) \<Rightarrow> ('k, 'v) codec \<Rightarrow> sock_addr \<Rightarrow> 'k \<Rightarrow> 'v \<Rightarrow> str
    \<Rightarrow> ('k, 'v) cluster \<Rightarrow> (error + unit) \<times> ('k, 'v) cluster" where
  "put_local hash cd self key v uuid n =
     (let m = servers n self;
          p = key_partition hash cd (partitioner m) key;
          n1 = set_server self (store_local p key v m) n;
          owners = owners_at self p n1
      in if length owners > 1
         then replicate_all cd self (drop 1 owners) p uuid key v n1
         else (Inr (), n1))"

definition handle_put :: "(str \<Rightarrow> u64) \<Rightarrow> ('k, 'v) codec \<Rightarrow> sock_addr \<Rightarrow> put_request \<Rightarrow> ('k, 'v) cluster
    \<Rightarrow> put_response \<times> ('k, 'v) cluster" where
  "handle_put hash cd self req n =
     (case parse cd (put_key req) of
        None \<Rightarrow> ((BAD_REQUEST, False), n)
      | Some key \<Rightarrow>
          (case from_json cd (put_value_json req) of
             None \<Rightarrow> ((BAD_REQUEST, False), n)
           | Some v \<Rightarrow>
               (case put_with_op hash cd self key v (put_op_id req) n of
                  (Inr _, n1) \<Rightarrow> ((OK, True), n1)
                | (Inl e, n1) \<Rightarrow> ((INTERNAL_SERVER_ERROR, False), n1))))"

subsection \<open>Reading\<close>

definition fetch_remote :: "(str \<Rightarrow> u64) \<Rightarrow> ('k, 'v) codec \<Rightarrow> sock_addr \<Rightarrow> str \<Rightarrow> 'k
    \<Rightarrow> ('k, 'v) cluster \<Rightarrow> (error + 'v option) \<times> ('k, 'v) cluster" where
  "fetch_remote hash cd self owner_id key n =
     (case get_member (membership (servers n self)) owner_id of
        None \<Rightarrow> (Inl NodeNotFound, n)
      | Some node \<Rightarrow>
          (case get_with_retry (serve (route_get_internal hash cd)) (http_addr node)
                  (to_string cd key) 3 n of
             (Inl e, n1) \<Rightarrow> (Inl e, n1)
           | (Inr (st, value_json), n1) \<Rightarrow>
               if st = NOT_FOUND then (Inr None, n1)
               else if \<not> is_success st then (Inl (BadStatus st), n1)
               else
                 (case value_json of
                    Some json_str \<Rightarrow>
                      (case from_json cd json_str of
                         None \<Rightarrow> (Inl DeserializeError, n1)
                       | Some v \<Rightarrow> (Inr (Some v), n1))
                  | None \<Rightarrow> (Inr None, n1))))"

fun fetch_backups :: "(str \<Rightarrow> u64) \<Rightarrow> ('k, 'v) codec \<Rightarrow> sock_addr \<Rightarrow> str list \<Rightarrow> 'k
    \<Rightarrow> ('k, 'v) cluster \<Rightarrow> 'v option \<times> ('k, 'v) cluster" where
  "fetch_backups hash cd self [] key n = (None, n)"
| "fetch_backups hash cd self (backup # backups) key n =
     (case fetch_remote hash cd self backup key n of
        (Inr (Some v), n1) \<Rightarrow> (Some v, n1)
      | (Inr None, n1) \<Rightarrow> fetch_backups hash cd self backups key n1
      | (Inl e, n1) \<Rightarrow> fetch_backups hash cd self backups key n1)"

definition get :: "(str \<Rightarrow> u64) \<Rightarrow> ('k, 'v) codec \<Rightarrow> sock_addr \<Rightarrow> 'k
    \<Rightarrow> ('k, 'v) cluster \<Rightarrow> 'v option \<times> ('k, 'v) cluster" where
  "get hash cd self key n =
     (let m = servers n self;
          p = key_partition hash cd (partitioner m) key
      in case peek m p key of
           Some v \<Rightarrow> (Some v, n)
         | None \<Rightarrow>
             (let owners = owners_at self p n
              in if owners = [] then (None, n)
                 else if owners ! 0 = nid (local_node (membership m))
                 then fetch_backups hash cd self (drop 1 owners) key n
                 else
                   (case fetch_remote hash cd self (owners ! 0) key n of
                      (Inr (Some v), n1) \<Rightarrow> (Some v, n1)
                    | (Inr None, n1) \<Rightarrow> fetch_backups hash cd self (drop 1 owners) key n1
                    | (Inl e, n1) \<Rightarrow> fetch_backups hash cd self (drop 1 owners) key n1)))"

definition handle_get :: "(str \<Rightarrow> u64) \<Rightarrow> ('k, 'v) codec \<Rightarrow> sock_addr \<Rightarrow> str \<Rightarrow> ('k, 'v) cluster
    \<Rightarrow> get_response \<times> ('k, 'v) cluster" where
  "handle_get hash cd self key_str n =
     (case parse cd key_str of
        None \<Rightarrow> ((BAD_REQUEST, None), n)
      | Some key \<Rightarrow>
          (case get hash cd self key n of
             (Some v, n1) \<Rightarrow>
               (case to_json cd v of
                  Some value_json \<Rightarrow> ((OK, Some value_json), n1)
                | None \<Rightarrow> ((INTERNAL_SERVER_ERROR, None), n1))
           | (None, n1) \<Rightarrow> ((NOT_FOUND, None), n1)))"

subsection \<open>Anti-entropy\<close>

fun decode_entries :: "('k, 'v) codec \<Rightarrow> (str \<times> str) list \<Rightarrow> error + ('k \<times> 'v) list" where
  "decode_entries cd [] = Inr []"
| "decode_entries cd ((key_str, value_json) # items) =
     (case parse cd key_str of
        None \<Rightarrow> Inl KeyParseError
      | Some key \<Rightarrow>
          (case from_json cd value_json of
             None \<Rightarrow> Inl DeserializeError
           | Some v \<Rightarrow>
               (case decode_entries cd items of
                  Inl e \<Rightarrow> Inl e
                | Inr entries \<Rightarrow> Inr ((key, v) # entries))))"

definition fetch_partition :: "('k, 'v) codec \<Rightarrow> sock_addr \<Rightarrow> str \<Rightarrow> u32
    \<Rightarrow> ('k, 'v) cluster \<Rightarrow> (error + ('k \<times> 'v) list) \<times> ('k, 'v) cluster" where
  "fetch_partition cd self owner_id p n =
     (case get_member (membership (servers n self)) owner_id of
        None \<Rightarrow> (Inl NodeNotFound, n)
      | Some node \<Rightarrow>
          (case get_with_retry (serve (handle_partition_dump cd)) (http_addr node) p 3 n of
             (Inl e, n1) \<Rightarrow> (Inl e, n1)
           | (Inr (st, dump), n1) \<Rightarrow>
               if st = NOT_FOUND then (Inr [], n1)
               else if \<not> is_success st then (Inl (BadStatus st), n1)
               else (decode_entries cd (dump_entries dump), n1)))"

text \<open>
  One turn of the loop of \<open>sync_partitions\<close>. The set \<open>target_partitions\<close> is a \<open>HashSet\<close>; the
  order in which it is visited is the argument \<open>order\<close>.
\<close>

definition sync_partition :: "('k, 'v) codec \<Rightarrow> sock_addr \<Rightarrow> u32 \<Rightarrow> ('k, 'v) cluster \<Rightarrow> ('k, 'v) cluster" where
  "sync_partition cd self p n =
     (let m = servers n self; owners = owners_at self p n
      in if owners = [] then n
         else
           (let is_primary = (owners ! 0 = nid (local_node (membership m)));
                source_owner =
                  (if is_primary
                   then if has_partition p m then None
                        else (if length owners > 1 then Some (owners ! 1) else None)
                   else Some (owners ! 0))
            in case source_owner of
                 None \<Rightarrow> n
               | Some source \<Rightarrow>
                   (case fetch_partition cd self source p n of
                      (Inr entries, n1) \<Rightarrow>
                        if entries \<noteq> []
                        then set_server self (apply_partition_entries p entries (servers n1 self)) n1
                        else n1
                    | (Inl e, n1) \<Rightarrow> n1)))"

definition target_partitions :: "partition_manager \<Rightarrow> membership \<Rightarrow> u32 set" where
  "target_partitions pm s = set (my_primary_partitions pm s) \<union> set (my_backup_partitions pm s)"

definition sync_partitions :: "('k, 'v) codec \<Rightarrow> (u32 set \<Rightarrow> u32 list) \<Rightarrow> sock_addr \<Rightarrow> ('k, 'v) cluster
    \<Rightarrow> ('k, 'v) cluster" where
  "sync_partitions cd order self n =
     (let m = servers n self
      in fold (sync_partition cd self) (order (target_partitions (partitioner m) (membership m))) n)"

end
