(* ===== verification/MapSpec.thy ===== *)
theory MapSpec
  imports MapCluster
begin

text \<open>
  What the distributed map promises, and the proofs that \<open>MapCluster\<close> keeps it. \<open>healthy\<close>
  describes a cluster whose nodes agree on the membership (\<open>knows\<close>, in \<open>Placement\<close>), \<open>consistent\<close>
  relates the cluster to an abstract map. Theorems without \<open>reliable\<close> hold whatever the network
  does.
\<close>

definition healthy :: "str list \<Rightarrow> (str \<Rightarrow> sock_addr) \<Rightarrow> partition_manager \<Rightarrow> ('k, 'v) cluster \<Rightarrow> bool" where
  "healthy ids addr pm n \<longleftrightarrow> distinct ids \<and> inj_on addr (set ids) \<and> 0 < replication_factor pm \<and>
     (\<forall>i \<in> set ids. knows ids addr i (membership (servers n (addr i))) \<and>
        partitioner (servers n (addr i)) = pm)"

definition consistent :: "(str \<Rightarrow> u64) \<Rightarrow> ('k, 'v) codec \<Rightarrow> str list \<Rightarrow> (str \<Rightarrow> sock_addr)
    \<Rightarrow> partition_manager \<Rightarrow> ('k, 'v) cluster \<Rightarrow> ('k \<Rightarrow> 'v option) \<Rightarrow> bool" where
  "consistent hash cd ids addr pm n A \<longleftrightarrow>
     (\<forall>i \<in> set ids. \<forall>k. peek (servers n (addr i)) (key_partition hash cd pm k) k =
        (if i \<in> set (placement ids pm (key_partition hash cd pm k)) then A k else None))"

definition fresh_op :: "str \<Rightarrow> str list \<Rightarrow> (str \<Rightarrow> sock_addr) \<Rightarrow> ('k, 'v) cluster \<Rightarrow> bool" where
  "fresh_op op_id ids addr n \<longleftrightarrow>
     (\<forall>i \<in> set ids. \<not> dm_contains_key (processed_ops (servers n (addr i))) op_id)"

lemma consistentD:
  "consistent hash cd ids addr pm n A \<Longrightarrow> i \<in> set ids \<Longrightarrow>
     peek (servers n (addr i)) (key_partition hash cd pm k) k =
       (if i \<in> set (placement ids pm (key_partition hash cd pm k)) then A k else None)"
  by (simp add: consistent_def)

lemma consistentI:
  "(\<And>i k. i \<in> set ids \<Longrightarrow> peek (servers n (addr i)) (key_partition hash cd pm k) k =
       (if i \<in> set (placement ids pm (key_partition hash cd pm k)) then A k else None)) \<Longrightarrow>
     consistent hash cd ids addr pm n A"
  by (simp add: consistent_def)

subsection \<open>Placement\<close>

lemma healthyD:
  assumes "healthy ids addr pm n" and "i \<in> set ids"
  shows "knows ids addr i (membership (servers n (addr i)))"
    and "partitioner (servers n (addr i)) = pm"
    and "owners_at (addr i) p n = placement ids pm p"
    and "nid (local_node (membership (servers n (addr i)))) = i"
  using assms by (auto simp: healthy_def owners_at_def knows_owners) (auto simp: knows_def)

lemma healthy_member:
  assumes "healthy ids addr pm n" and "i \<in> set ids" and "j \<in> set ids"
  shows "\<exists>node. get_member (membership (servers n (addr i))) j = Some node \<and> http_addr node = addr j"
  using healthyD(1) [OF assms(1,2)] assms(3) by (auto simp: knows_def)

lemma healthy_cong:
  "healthy ids addr pm n \<Longrightarrow>
     (\<And>i. i \<in> set ids \<Longrightarrow> membership (servers n' (addr i)) = membership (servers n (addr i)) \<and>
        partitioner (servers n' (addr i)) = partitioner (servers n (addr i))) \<Longrightarrow>
     healthy ids addr pm n'"
  by (simp add: healthy_def)

lemma placement_cases:
  assumes "healthy ids addr pm n" and "i \<in> set ids"
  obtains q bs where "placement ids pm p = q # bs" and "q \<in> set ids" and "set bs \<subseteq> set ids"
    and "q \<notin> set bs" and "distinct bs"
proof -
  have "placement ids pm p \<noteq> []"
    using assms by (auto simp: healthy_def placement_Nil_iff)
  then obtain q bs where "placement ids pm p = q # bs" by (cases "placement ids pm p") auto
  moreover have "distinct (placement ids pm p)"
    using assms by (simp add: healthy_def distinct_placement)
  ultimately show ?thesis using set_placement [of ids pm p] that by auto
qed

lemma addr_eq_iff:
  "healthy ids addr pm n \<Longrightarrow> i \<in> set ids \<Longrightarrow> j \<in> set ids \<Longrightarrow> addr i = addr j \<longleftrightarrow> i = j"
  by (auto simp: healthy_def inj_on_def)

subsection \<open>Messages\<close>

lemma codec_json: "codec_ok cd \<Longrightarrow> \<exists>j. to_json cd v = Some j \<and> from_json cd j = Some v"
  by (simp add: codec_ok_def)

lemma handle_replicate_ok:
  assumes "codec_ok cd" and "to_json cd v = Some j"
  shows "handle_replicate cd \<lparr>req_partition = p, req_op_id = op, req_key = to_string cd k,
            req_value_json = j\<rparr> m = ((OK, True), store_replica p op k v m)"
proof -
  have "from_json cd j = Some v"
    using codec_json [OF assms(1), of v] assms(2) by auto
  with assms show ?thesis by (simp add: handle_replicate_def codec_ok_def)
qed

subsection \<open>Replication\<close>

lemma replicate_to_backup_effect:
  assumes "codec_ok cd" and "get_member (membership (servers n self)) b = Some node"
  shows "\<exists>r n' S. replicate_to_backup cd self b p op k v n = (r, n') \<and> same_network n n' \<and>
     S \<subseteq> {http_addr node} \<and> servers n' = upd_at S (store_replica p op k v) (servers n) \<and>
     (r = Inr () \<longrightarrow> S = {http_addr node}) \<and>
     (reliable n \<and> listening n (http_addr node) \<longrightarrow> r = Inr ())"
proof -
  obtain j where j: "to_json cd v = Some j" using codec_json [OF assms(1)] by blast
  let ?q = "\<lparr>req_partition = p, req_op_id = op, req_key = to_string cd k, req_value_json = j\<rparr>"
  obtain r n1 S where e: "retry_loop (serve (handle_replicate cd)) 3 150 (http_addr node) ?q n = (r, n1)"
    and net: "same_network n n1" and S: "S \<subseteq> {http_addr node}"
    and sv: "servers n1 = upd_at S (store_replica p op k v) (servers n)"
    and r: "r = Inl TransportError \<or> r = Inr (OK, True) \<and> S = {http_addr node}"
    and ok: "reliable n \<and> listening n (http_addr node) \<longrightarrow> r = Inr (OK, True)"
    using replicate.three_attempts [of cd ?q "(OK, True)" "store_replica p op k v" 150 "http_addr node" n,
        OF handle_replicate_ok [OF assms(1) j]] by blast
  have "replicate_to_backup cd self b p op k v n
      = (case r of Inl e \<Rightarrow> Inl e | Inr _ \<Rightarrow> Inr (), n1)"
    using assms(2) j e r by (auto simp: replicate_to_backup_def retry_defs)
  then show ?thesis
    using net S sv r ok by (intro exI [of _ "case r of Inl e \<Rightarrow> Inl e | Inr _ \<Rightarrow> Inr ()"] exI [of _ n1]
      exI [of _ S]) auto
qed

lemma upd_at_store_replica_frame [simp]:
  "membership (upd_at S (store_replica p op k v) sv a) = membership (sv a)"
  "partitioner (upd_at S (store_replica p op k v) sv a) = partitioner (sv a)"
  by (simp_all add: upd_at_def)

definition resolves :: "('k, 'v) codec \<Rightarrow> sock_addr \<Rightarrow> (str \<Rightarrow> sock_addr) \<Rightarrow> str \<Rightarrow> ('k, 'v) cluster \<Rightarrow> bool" where
  "resolves cd self addr b n \<longleftrightarrow> codec_ok cd \<and>
     map_option http_addr (get_member (membership (servers n self)) b) = Some (addr b)"

interpretation replicate_loop: replication_loop "\<lambda>b n. replicate_to_backup cd self b p op k v n"
  "\<lambda>bs n. replicate_all cd self bs p op k v n" "store_replica p op k v" "resolves cd self"
  for cd :: "('k, 'v) codec" and self p op k v
proof unfold_locales
  show "replicate_all cd self [] p op k v n = (Inr (), n)" for n by simp
  show "replicate_all cd self (b # bs) p op k v n =
      (case replicate_to_backup cd self b p op k v n of (Inl e, n1) \<Rightarrow> (Inl e, n1)
       | (Inr u, n1) \<Rightarrow> replicate_all cd self bs p op k v n1)" for b bs n by simp
  show "store_replica p op k v (store_replica p op k v s) = store_replica p op k v s" for s
    by (rule store_replica_idem)
  show "resolves cd self addr b n'"
    if "resolves cd self addr b n" "servers n' = upd_at S (store_replica p op k v) (servers n)"
    for addr b n n' S using that by (simp add: resolves_def)
  show "\<exists>r n' S. replicate_to_backup cd self b p op k v n = (r, n') \<and> same_network n n' \<and>
      S \<subseteq> {addr b} \<and> servers n' = upd_at S (store_replica p op k v) (servers n) \<and>
      (r = Inr () \<longrightarrow> S = {addr b}) \<and> (reliable n \<and> listening n (addr b) \<longrightarrow> r = Inr ())"
    if res: "resolves cd self addr b n" for addr b n
  proof -
    obtain node where node: "get_member (membership (servers n self)) b = Some node"
      and na: "http_addr node = addr b" and cd: "codec_ok cd" using res by (auto simp: resolves_def)
    from replicate_to_backup_effect [OF cd node, of p op k v] show ?thesis unfolding na .
  qed
qed

lemma healthy_resolves:
  "healthy ids addr pm n \<Longrightarrow> codec_ok cd \<Longrightarrow> i \<in> set ids \<Longrightarrow> b \<in> set ids \<Longrightarrow> resolves cd (addr i) addr b n"
  using healthyD(1) [of ids addr pm n i] by (auto simp: resolves_def knows_def)

text \<open>A write carried out at the primary \<open>q\<close>: store locally, then replicate.\<close>

lemma primary_write_effect:
  assumes h: "healthy ids addr pm n" and cd: "codec_ok cd"
    and pl: "placement ids pm p = q # bs"
    and new: "\<not> dm_contains_key (processed_ops (servers n (addr q))) op"
  shows "\<exists>r n' S. replicate_all cd (addr q) bs p op k v
       (set_server (addr q) (store_local p k v (snd (should_process op (servers n (addr q))))) n) = (r, n') \<and>
     same_network n n' \<and> addr q \<in> S \<and> S \<subseteq> addr ` set (q # bs) \<and>
     servers n' = upd_at S (store_replica p op k v) (servers n) \<and>
     (r = Inr () \<longrightarrow> S = addr ` set (q # bs)) \<and>
     (reliable n \<and> all_listening ids addr n \<longrightarrow> r = Inr ())"
proof -
  let ?f = "store_replica p op k v"
  have ids: "q \<in> set ids" "set bs \<subseteq> set ids" using set_placement [of ids pm p] pl by auto
  let ?n1 = "set_server (addr q) (store_local p k v (snd (should_process op (servers n (addr q))))) n"
  have sv1: "servers ?n1 = upd_at {addr q} ?f (servers n)"
    using new by (auto simp: upd_at_def fun_eq_iff store_replica_cases)
  have "\<forall>b \<in> set bs. resolves cd (addr q) addr b ?n1"
    using healthy_resolves [OF h cd ids(1)] ids(2) replicate_loop.known_upd [OF _ sv1] by blast
  from replicate_loop.send_all_effect [OF this, of p op k v] obtain r n' S
    where e: "replicate_all cd (addr q) bs p op k v ?n1 = (r, n')" and net: "same_network ?n1 n'"
      and S: "S \<subseteq> addr ` set bs" and sv: "servers n' = upd_at S ?f (servers ?n1)"
      and full: "r = Inr () \<longrightarrow> S = addr ` set bs"
      and ok: "reliable ?n1 \<and> (\<forall>b \<in> set bs. listening ?n1 (addr b)) \<longrightarrow> r = Inr ()"
    by blast
  have "servers n' = upd_at (insert (addr q) S) ?f (servers n)"
    unfolding sv sv1 by (simp add: upd_at_upd_at store_replica_idem)
  moreover have "same_network n n'" using net by (simp add: same_network_def)
  moreover have "reliable n \<and> all_listening ids addr n \<longrightarrow> r = Inr ()"
    using ok ids by (auto simp: reliable_def all_listening_def)
  ultimately show ?thesis using e S full
    by (intro exI [of _ r] exI [of _ n'] exI [of _ "insert (addr q) S"]) auto
qed

lemma owners_at_set_server:
  "owners_at self p (set_server self m n) = get_owners (partitioner m) (membership m) p"
  by (simp add: owners_at_def)

lemma store_as_primary_new:
  assumes h: "healthy ids addr pm n" and pl: "placement ids pm p = q # bs"
    and new: "\<not> dm_contains_key (processed_ops (servers n (addr q))) op"
  shows "store_as_primary cd (addr q) p op k v n =
    replicate_all cd (addr q) bs p op k v
      (set_server (addr q) (store_local p k v (snd (should_process op (servers n (addr q))))) n)"
proof -
  let ?m = "servers n (addr q)"
  have q: "q \<in> set ids" using set_placement [of ids pm p] pl by auto
  have "owners_at (addr q) p (set_server (addr q) (store_local p k v (snd (should_process op ?m))) n)
      = placement ids pm p"
    using healthyD(3) [OF h q, of p] by (simp add: owners_at_set_server) (simp add: owners_at_def)
  then show ?thesis
    by (simp add: store_as_primary_def case_prod_beta should_process_new [OF new] Let_def pl)
qed

lemma put_with_op_primary:
  assumes h: "healthy ids addr pm n" and pl: "placement ids pm (key_partition hash cd pm k) = q # bs"
    and new: "\<not> dm_contains_key (processed_ops (servers n (addr q))) op"
  shows "put_with_op hash cd (addr q) k v op n =
    replicate_all cd (addr q) bs (key_partition hash cd pm k) op k v
      (set_server (addr q) (store_local (key_partition hash cd pm k) k v
         (snd (should_process op (servers n (addr q))))) n)"
proof -
  let ?m = "servers n (addr q)" and ?p = "key_partition hash cd pm k"
  have q: "q \<in> set ids" using set_placement [of ids pm ?p] pl by auto
  have "owners_at (addr q) ?p (set_server (addr q) (snd (should_process op ?m)) n) = q # bs"
    using healthyD(3) [OF h q, of ?p] pl by (simp add: owners_at_set_server) (simp add: owners_at_def)
  then show ?thesis
    using healthyD(2,4) [OF h q]
    by (cases bs) (simp_all add: put_with_op_def case_prod_beta should_process_new [OF new] Let_def)
qed

lemma put_with_op_other:
  assumes h: "healthy ids addr pm n" and pl: "placement ids pm (key_partition hash cd pm k) = q # bs"
    and i: "i \<in> set ids" "i \<noteq> q"
    and new: "\<not> dm_contains_key (processed_ops (servers n (addr i))) op"
  shows "put_with_op hash cd (addr i) k v op n =
    forward_put cd (addr i) q (key_partition hash cd pm k) op k v
      (set_server (addr i) (snd (should_process op (servers n (addr i)))) n)"
proof -
  let ?m = "servers n (addr i)" and ?p = "key_partition hash cd pm k"
  have "owners_at (addr i) ?p (set_server (addr i) (snd (should_process op ?m)) n) = q # bs"
    using healthyD(3) [OF h i(1), of ?p] pl by (simp add: owners_at_set_server) (simp add: owners_at_def)
  then show ?thesis
    using healthyD(2,4) [OF h i(1)] i(2)
    by (simp add: put_with_op_def case_prod_beta should_process_new [OF new] Let_def)
qed

text \<open>A write forwarded to the primary \<open>q\<close> over a reliable network.\<close>

lemma forward_put_effect:
  assumes h: "healthy ids addr pm n" and cd: "codec_ok cd" and pl: "placement ids pm p = q # bs"
    and i: "i \<in> set ids" and new: "\<not> dm_contains_key (processed_ops (servers n (addr q))) op"
    and net: "reliable n" "all_listening ids addr n"
  shows "\<exists>n'. forward_put cd (addr i) q p op k v n = (Inr (), n') \<and> same_network n n' \<and>
     servers n' = upd_at (addr ` set (q # bs)) (store_replica p op k v) (servers n)"
proof -
  let ?n1 = "n\<lparr>sent := Suc (sent n)\<rparr>"
  have q: "q \<in> set ids" using set_placement [of ids pm p] pl by auto
  obtain node where node: "get_member (membership (servers n (addr i))) q = Some node"
    and na: "http_addr node = addr q" using healthy_member [OF h i q] by blast
  obtain j where j: "to_json cd v = Some j" "from_json cd j = Some v" using codec_json [OF cd] by blast
  have parse: "parse cd (to_string cd k) = Some k" using cd by (simp add: codec_ok_def)
  have h1: "healthy ids addr pm ?n1" using h by (rule healthy_cong) simp
  have new1: "\<not> dm_contains_key (processed_ops (servers ?n1 (addr q))) op" using new by simp
  from primary_write_effect [OF h1 cd pl new1, of k v] obtain r n' S where
    e: "store_as_primary cd (addr q) p op k v ?n1 = (r, n')" and nw: "same_network ?n1 n'"
    and sv: "servers n' = upd_at S (store_replica p op k v) (servers ?n1)"
    and full: "r = Inr () \<longrightarrow> S = addr ` set (q # bs)"
    and ok: "reliable ?n1 \<and> all_listening ids addr ?n1 \<longrightarrow> r = Inr ()"
    unfolding store_as_primary_new [OF h1 pl new1, of cd k v] by blast
  have r: "r = Inr ()" using ok net by (simp add: reliable_def all_listening_def)
  let ?q = "\<lparr>req_partition = p, req_op_id = op, req_key = to_string cd k, req_value_json = j\<rparr>"
  have "handle_forward_put cd (addr q) ?q ?n1 = ((OK, True), n')"
    using e r j parse by (simp add: handle_forward_put_def)
  moreover have "listening n (addr q)" "fates n (sent n) = Delivered"
    using net q by (auto simp: all_listening_def reliable_def)
  ultimately have "retry_loop (handle_forward_put cd) (Suc 2) 150 (addr q) ?q n = (Inr (OK, True), n')"
    by (simp only: retry_loop_delivered fst_conv snd_conv)
  then have "forward_put cd (addr i) q p op k v n = (Inr (), n')"
    using node na j by (simp add: forward_put_def retry_defs numeral_3_eq_3)
  moreover have "same_network n n'" using nw by (simp add: same_network_def)
  ultimately show ?thesis using sv full r by auto
qed

text \<open>What a write through any node does when the network is reliable.\<close>

lemma put_effect:
  assumes h: "healthy ids addr pm n" and cd: "codec_ok cd"
    and pl: "placement ids pm (key_partition hash cd pm k) = q # bs"
    and i: "i \<in> set ids" and new: "fresh_op op ids addr n"
    and net: "reliable n" "all_listening ids addr n"
  shows "\<exists>n'. put_with_op hash cd (addr i) k v op n = (Inr (), n') \<and> same_network n n' \<and>
     servers n' = upd_at (addr ` set (q # bs)) (store_replica (key_partition hash cd pm k) op k v)
       (if i = q then servers n
        else (servers n)(addr i := snd (should_process op (servers n (addr i)))))"
proof -
  let ?p = "key_partition hash cd pm k"
  have q: "q \<in> set ids" using set_placement [of ids pm ?p] pl by auto
  have newq: "\<not> dm_contains_key (processed_ops (servers n (addr q))) op"
    and newi: "\<not> dm_contains_key (processed_ops (servers n (addr i))) op"
    using new q i by (auto simp: fresh_op_def)
  show ?thesis
  proof (cases "i = q")
    case True
    with primary_write_effect [OF h cd pl newq, of k v] put_with_op_primary [OF h pl newq, of v] net
    show ?thesis by auto
  next
    case False
    let ?n1 = "set_server (addr i) (snd (should_process op (servers n (addr i)))) n"
    have h1: "healthy ids addr pm ?n1" using h by (rule healthy_cong) simp
    have newq1: "\<not> dm_contains_key (processed_ops (servers ?n1 (addr q))) op"
      using newq addr_eq_iff [OF h i q] False by simp
    have net1: "reliable ?n1" "all_listening ids addr ?n1"
      using net by (simp_all add: reliable_def all_listening_def)
    have sv1: "servers ?n1 = (servers n)(addr i := snd (should_process op (servers n (addr i))))"
      by (simp add: set_server_def)
    from forward_put_effect [OF h1 cd pl i newq1 net1, of k v]
      put_with_op_other [OF h pl i False newi, of v] False
    show ?thesis by (auto simp: sv1 same_network_def)
  qed
qed

subsection \<open>Reading\<close>

lemma route_get_internal_ok:
  assumes "codec_ok cd" and "url_segment cd (to_string cd k) = Some (to_string cd k)"
  shows "route_get_internal hash cd (to_string cd k) m =
    ((case get_local hash cd k m of None \<Rightarrow> (NOT_FOUND, None) | Some v \<Rightarrow> (OK, to_json cd v)), m)"
proof -
  have "parse cd (to_string cd k) = Some k" using assms by (simp add: codec_ok_def)
  note base = this assms(2)
  show ?thesis
  proof (cases "get_local hash cd k m")
    case None
    with base show ?thesis by (simp add: route_get_internal_def handle_get_internal_def)
  next
    case (Some v)
    obtain j where "to_json cd v = Some j" using codec_json [OF assms(1), of v] by blast
    with Some base show ?thesis by (simp add: route_get_internal_def handle_get_internal_def)
  qed
qed

lemma fetch_remote_effect:
  assumes h: "healthy ids addr pm n" and cd: "codec_ok cd" and i: "i \<in> set ids" and b: "b \<in> set ids"
    and url: "url_segment cd (to_string cd k) = Some (to_string cd k)"
  shows "\<exists>n'. fetch_remote hash cd (addr i) b k n =
      (if \<exists>t<3. fate_at n (addr b) t = Delivered
       then Inr (peek (servers n (addr b)) (key_partition hash cd pm k) k)
       else Inl TransportError, n') \<and> servers n' = servers n \<and> same_network n n'"
proof -
  let ?h = "route_get_internal hash cd" and ?s = "to_string cd k"
  obtain node where node: "get_member (membership (servers n (addr i))) b = Some node"
    and na: "http_addr node = addr b" using healthy_member [OF h i b] by blast
  obtain r n1 where loop: "retry_loop (serve ?h) 3 150 (addr b) ?s n = (r, n1)"
    by (cases "retry_loop (serve ?h) 3 150 (addr b) ?s n")
  have gl: "get_local hash cd k (servers n (addr b)) = peek (servers n (addr b)) (key_partition hash cd pm k) k"
    using healthyD(2) [OF h b] by (simp add: get_local_def)
  have sv: "servers n1 = servers n"
    using get_internal.retry_keeps [of hash cd 3 150 "addr b" ?s n] loop by simp
  have r: "r = (if \<exists>t<3. fate_at n (addr b) t = Delivered
      then Inr (fst (?h ?s (servers n (addr b)))) else Inl TransportError)"
    using get_internal.retry_result [of 3 hash cd 150 "addr b" ?s n] loop by simp
  have net: "same_network n n1"
    using retry_loop_serve_frame(1,2) [of ?h 3 150 "addr b" ?s n] loop by (simp add: same_network_def)
  show ?thesis
  proof (cases "\<exists>t<3. fate_at n (addr b) t = Delivered")
    case True
    then have r': "r = Inr (case peek (servers n (addr b)) (key_partition hash cd pm k) k of
        None \<Rightarrow> (NOT_FOUND, None) | Some v \<Rightarrow> (OK, to_json cd v))"
      using r by (simp add: route_get_internal_ok [OF cd url] gl)
    have "fetch_remote hash cd (addr i) b k n
        = (Inr (peek (servers n (addr b)) (key_partition hash cd pm k) k), n1)"
    proof (cases "peek (servers n (addr b)) (key_partition hash cd pm k) k")
      case None
      with r' node na loop show ?thesis by (simp add: fetch_remote_def retry_defs)
    next
      case (Some v)
      obtain j where "to_json cd v = Some j" "from_json cd j = Some v" using codec_json [OF cd] by blast
      with Some r' node na loop show ?thesis by (simp add: fetch_remote_def retry_defs)
    qed
    with True sv net show ?thesis by auto
  next
    case False
    then have "r = Inl TransportError" using r by simp
    then have "fetch_remote hash cd (addr i) b k n = (Inl TransportError, n1)"
      using node na loop by (simp add: fetch_remote_def retry_defs)
    with False sv net show ?thesis by auto
  qed
qed

lemma healthy_servers: "healthy ids addr pm n \<Longrightarrow> servers n' = servers n \<Longrightarrow> healthy ids addr pm n'"
  by (rule healthy_cong) auto

lemma fetch_backups_effect:
  assumes cd: "codec_ok cd" and i: "i \<in> set ids"
    and url: "url_segment cd (to_string cd k) = Some (to_string cd k)"
  shows "healthy ids addr pm n \<Longrightarrow> set bs \<subseteq> set ids \<Longrightarrow>
    (\<forall>b \<in> set bs. peek (servers n (addr b)) (key_partition hash cd pm k) k = x) \<Longrightarrow>
    \<exists>r n'. fetch_backups hash cd (addr i) bs k n = (r, n') \<and> servers n' = servers n \<and>
      (r = None \<or> r = x) \<and> (reliable n \<and> (\<exists>b \<in> set bs. listening n (addr b)) \<longrightarrow> r = x)"
proof (induction bs arbitrary: n)
  case Nil
  then show ?case by simp
next
  case (Cons b bs)
  let ?d = "\<exists>t<3. fate_at n (addr b) t = Delivered"
  have b: "b \<in> set ids" and bs: "set bs \<subseteq> set ids" using Cons.prems by auto
  have pb: "peek (servers n (addr b)) (key_partition hash cd pm k) k = x" using Cons.prems by simp
  from fetch_remote_effect [OF Cons.prems(1) cd i b url, of hash] obtain n1 where
    e1: "fetch_remote hash cd (addr i) b k n = (if ?d then Inr x else Inl TransportError, n1)"
    and sv1: "servers n1 = servers n" and net1: "same_network n n1"
    unfolding pb by blast
  have "\<forall>b \<in> set bs. peek (servers n1 (addr b)) (key_partition hash cd pm k) k = x"
    using Cons.prems(3) sv1 by simp
  from Cons.IH [OF healthy_servers [OF Cons.prems(1) sv1] bs this] obtain r n' where
    e: "fetch_backups hash cd (addr i) bs k n1 = (r, n')" and sv: "servers n' = servers n1"
    and r: "r = None \<or> r = x"
    and rx: "reliable n1 \<and> (\<exists>b \<in> set bs. listening n1 (addr b)) \<longrightarrow> r = x" by blast
  show ?case
  proof (cases "?d \<and> x \<noteq> None")
    case True
    then obtain w where "x = Some w" by auto
    with True e1 sv1 show ?thesis by auto
  next
    case False
    then have "fetch_backups hash cd (addr i) (b # bs) k n = (r, n')"
      using e1 e by (auto split: sum.splits option.splits)
    moreover have "r = x" if "reliable n" "\<exists>b \<in> set (b # bs). listening n (addr b)"
      using False that r rx net1 some_try_delivered [of n "addr b"]
      by (auto simp: same_network_def reliable_def)
    ultimately show ?thesis using sv sv1 r by auto
  qed
qed

lemma get_effect:
  assumes h: "healthy ids addr pm n" and cd: "codec_ok cd" and i: "i \<in> set ids"
    and url: "url_segment cd (to_string cd k) = Some (to_string cd k)"
    and con: "consistent hash cd ids addr pm n A"
  defines "own \<equiv> placement ids pm (key_partition hash cd pm k)"
  shows "\<exists>r n'. get hash cd (addr i) k n = (r, n') \<and> servers n' = servers n \<and> (r = None \<or> r = A k) \<and>
    (i \<in> set own \<or> reliable n \<and> (\<exists>j \<in> set own. listening n (addr j)) \<longrightarrow> r = A k)"
proof -
  let ?p = "key_partition hash cd pm k"
  let ?m = "servers n (addr i)"
  have part: "key_partition hash cd (partitioner ?m) k = ?p"
    using healthyD(2) [OF h i] by simp
  obtain q bs where own: "own = q # bs" and q: "q \<in> set ids" and bs: "set bs \<subseteq> set ids"
    and dist: "q \<notin> set bs" "distinct bs"
    using placement_cases [OF h i] unfolding own_def by metis
  have held: "peek (servers n (addr j)) ?p k = (if j \<in> set own then A k else None)" if "j \<in> set ids" for j
    using con that unfolding consistent_def own_def by blast
  have at: "owners_at (addr i) ?p n = own" using healthyD(3) [OF h i] unfolding own_def .
  have loc: "nid (local_node (membership ?m)) = i" using healthyD(4) [OF h i] .
  have bs_held: "\<forall>b \<in> set bs. peek (servers n (addr b)) ?p k = A k"
    using held bs own by auto
  show ?thesis
  proof (cases "peek ?m ?p k")
    case (Some w)
    then have "A k = Some w" using held [OF i] by (auto split: if_splits)
    with Some part show ?thesis by (simp add: get_def Let_def)
  next
    case None
    show ?thesis
    proof (cases "q = i")
      case True
      then have "A k = None" using None held [OF i] own by simp
      with True fetch_backups_effect [OF cd i url h bs bs_held] None part at own loc show ?thesis
        by (auto simp: get_def Let_def)
    next
      case False
      let ?d = "\<exists>t<3. fate_at n (addr q) t = Delivered"
      have "peek (servers n (addr q)) ?p k = A k" using held [OF q] own by simp
      with fetch_remote_effect [OF h cd i q url, of hash] obtain n1 where
        e1: "fetch_remote hash cd (addr i) q k n = (if ?d then Inr (A k) else Inl TransportError, n1)"
        and sv1: "servers n1 = servers n" and net1: "same_network n n1" by auto
      have "\<forall>b \<in> set bs. peek (servers n1 (addr b)) ?p k = A k" using bs_held sv1 by simp
      from fetch_backups_effect [OF cd i url healthy_servers [OF h sv1] bs this] obtain r n' where
        e: "fetch_backups hash cd (addr i) bs k n1 = (r, n')" and sv: "servers n' = servers n1"
        and r: "r = None \<or> r = A k"
        and rx: "reliable n1 \<and> (\<exists>b \<in> set bs. listening n1 (addr b)) \<longrightarrow> r = A k" by blast
      have noti: "i \<in> set own \<longrightarrow> A k = None" using None held [OF i] by auto
      show ?thesis
      proof (cases "?d \<and> A k \<noteq> None")
        case True
        then obtain w where "A k = Some w" by auto
        with True e1 sv1 None part at own loc False show ?thesis by (auto simp: get_def Let_def)
      next
        case F2: False
        then have "get hash cd (addr i) k n = (r, n')"
          using e1 e None part at own loc False
          by (auto simp: get_def Let_def split: sum.splits option.splits)
        moreover have "r = A k" if "reliable n" "\<exists>j \<in> set own. listening n (addr j)"
          using F2 that r rx net1 some_try_delivered [of n "addr q"] own
          by (auto simp: same_network_def reliable_def)
        ultimately show ?thesis using sv sv1 r noti by auto
      qed
    qed
  qed
qed

text \<open>Reading leaves the network's behaviour alone, as does everything a node does.\<close>

lemma fetch_remote_network: "same_network n (snd (fetch_remote hash cd self b k n))"
proof -
  have "same_network n (snd (retry_loop (serve (route_get_internal hash cd)) 3 150 a q n))" for a q
    using retry_loop_serve_frame(1,2) [of "route_get_internal hash cd" 3 150 a q n]
    by (simp add: same_network_def)
  moreover have "snd (fetch_remote hash cd self b k n) =
      (case get_member (membership (servers n self)) b of None \<Rightarrow> n
       | Some node \<Rightarrow> snd (retry_loop (serve (route_get_internal hash cd)) 3 150 (http_addr node) (to_string cd k) n))"
    by (simp add: fetch_remote_def retry_defs split: option.split prod.split sum.split)
  ultimately show ?thesis by (simp split: option.split)
qed

lemma fetch_backups_network: "same_network n (snd (fetch_backups hash cd self bs k n))"
proof (induction bs arbitrary: n)
  case Nil
  then show ?case by simp
next
  case (Cons b bs)
  obtain r n1 where e: "fetch_remote hash cd self b k n = (r, n1)"
    by (cases "fetch_remote hash cd self b k n")
  have "same_network n n1" using fetch_remote_network [of n hash cd self b k] e by simp
  with Cons.IH [of n1] e show ?case
    by (auto split: sum.split option.split intro: same_network_trans)
qed

lemma get_network: "same_network n (snd (get hash cd self k n))"
proof -
  let ?o = "owners_at self (key_partition hash cd (partitioner (servers n self)) k) n"
  obtain r n1 where e: "fetch_remote hash cd self (?o ! 0) k n = (r, n1)"
    by (cases "fetch_remote hash cd self (?o ! 0) k n")
  have "same_network n n1" using fetch_remote_network [of n hash cd self "?o ! 0" k] e by simp
  then show ?thesis
    using fetch_backups_network [of n hash cd self "drop 1 ?o" k] e
    by (auto simp: get_def Let_def split: sum.split option.split
        intro: same_network_trans [OF _ fetch_backups_network])
qed

subsection \<open>Reading changes no node\<close>

lemma fetch_remote_servers: "servers (snd (fetch_remote hash cd self b k n)) = servers n"
proof -
  have "snd (fetch_remote hash cd self b k n) =
      (case get_member (membership (servers n self)) b of None \<Rightarrow> n
       | Some node \<Rightarrow> snd (retry_loop (serve (route_get_internal hash cd)) 3 150 (http_addr node) (to_string cd k) n))"
    by (simp add: fetch_remote_def retry_defs split: option.split prod.split sum.split)
  then show ?thesis by (simp add: get_internal.retry_keeps split: option.split)
qed

lemma fetch_backups_servers: "servers (snd (fetch_backups hash cd self bs k n)) = servers n"
proof (induction bs arbitrary: n)
  case (Cons b bs)
  obtain r n1 where e: "fetch_remote hash cd self b k n = (r, n1)" by (cases "fetch_remote hash cd self b k n")
  have "servers n1 = servers n" using fetch_remote_servers [of hash cd self b k n] e by simp
  with Cons.IH [of n1] e show ?case by (auto split: sum.split option.split)
qed simp

lemma get_servers: "servers (snd (get hash cd self k n)) = servers n"
proof -
  let ?o = "owners_at self (key_partition hash cd (partitioner (servers n self)) k) n"
  obtain r n1 where e: "fetch_remote hash cd self (?o ! 0) k n = (r, n1)"
    by (cases "fetch_remote hash cd self (?o ! 0) k n")
  have "servers n1 = servers n" using fetch_remote_servers [of hash cd self "?o ! 0" k n] e by simp
  then show ?thesis
    using fetch_backups_servers [of hash cd self "drop 1 ?o" k] e
    by (auto simp: get_def Let_def split: sum.split option.split)
qed

subsection \<open>Contract: what one write keeps, whatever the network does\<close>

text \<open>
  A write with the operation \<open>op\<close> of a key in \<open>K\<close> touches the nodes in two ways only: it marks the
  operation as processed, and it stores a value under the key. So it keeps every property \<open>P\<close> of the
  nodes that these two keep: through forwarding, replication, lost messages and retries, and also when it fails.
\<close>

locale write_invariant =
  fixes P :: "(sock_addr \<Rightarrow> ('k, 'v) dmap) \<Rightarrow> bool" and op :: str and K :: "'k \<Rightarrow> bool"
  assumes mark: "P sv \<Longrightarrow> P (sv(a := snd (should_process op (sv a))))"
    and store: "K k \<Longrightarrow> P sv \<Longrightarrow> P (sv(a := store_local p k v (sv a)))"
begin

lemma store_replica_keeps: "K k \<Longrightarrow> P sv \<Longrightarrow> P (sv(a := store_replica p op k v (sv a)))"
  using store [of k "sv(a := snd (should_process op (sv a)))" a p v] mark [of sv a]
  by (simp add: store_replica_cases)

text \<open>The key that a receiver reads is one of \<open>K\<close>.\<close>

definition travels :: "('k, 'v) codec \<Rightarrow> 'k \<Rightarrow> bool" where
  "travels cd k \<longleftrightarrow> K k \<and> (\<forall>k'. parse cd (to_string cd k) = Some k' \<longrightarrow> K k')"

lemma replicate_to_backup_keeps:
  assumes "travels cd k" and "P (servers n)"
  shows "P (servers (snd (replicate_to_backup cd self c p op k v n)))"
proof -
  let ?q = "\<lambda>j. \<lparr>req_partition = p, req_op_id = op, req_key = to_string cd k, req_value_json = j\<rparr>"
  have net: "snd (replicate_to_backup cd self c p op k v n) =
      (case get_member (membership (servers n self)) c of None \<Rightarrow> n
       | Some node \<Rightarrow> (case to_json cd v of None \<Rightarrow> n
       | Some j \<Rightarrow> snd (retry_loop (serve (handle_replicate cd)) 3 150 (http_addr node) (?q j) n)))"
    by (simp add: replicate_to_backup_def retry_defs split: option.split prod.split sum.split)
  have "P (servers (snd (retry_loop (serve (handle_replicate cd)) 3 150 a (?q j) n)))" for a j
  proof (rule retry_loop_servers_inv [where P = P, OF _ assms(2)])
    fix m :: "('k, 'v) cluster"
    assume "P (servers m)"
    with assms(1) show "P (servers (snd (serve (handle_replicate cd) a (?q j) m)))"
      by (auto simp: handle_replicate_def travels_def set_server_def store_replica_keeps split: option.splits)
  qed
  with assms show ?thesis unfolding net by (simp split: option.split)
qed

lemma replicate_all_keeps:
  "travels cd k \<Longrightarrow> P (servers n) \<Longrightarrow> P (servers (snd (replicate_all cd self bs p op k v n)))"
proof (induction bs arbitrary: n)
  case Nil
  then show ?case by simp
next
  case (Cons c bs)
  have "P (servers (snd (replicate_to_backup cd self c p op k v n)))"
    using Cons.prems by (rule replicate_to_backup_keeps)
  with Cons.IH Cons.prems(1) show ?case by (auto split: prod.splits sum.splits)
qed

text \<open>The node that carries the write out marks it first, so \<open>P\<close> has to hold only after that.\<close>

lemma store_as_primary_keeps:
  assumes "travels cd k" and "P ((servers n)(self := snd (should_process op (servers n self))))"
  shows "P (servers (snd (store_as_primary cd self p op k v n)))"
proof -
  have "P (servers (set_server self (snd (should_process op (servers n self))) n))"
    "P (servers (set_server self (store_local p k v (snd (should_process op (servers n self)))) n))"
    using assms store [of k "(servers n)(self := snd (should_process op (servers n self)))" self p v]
    by (simp_all add: set_server_def travels_def)
  then show ?thesis
    using assms(1) by (simp add: store_as_primary_def case_prod_beta Let_def replicate_all_keeps)
qed

lemma forward_put_keeps:
  assumes k: "travels cd k" and rt: "\<And>k'. parse cd (to_string cd k) = Some k' \<Longrightarrow> travels cd k'" and "P (servers n)"
  shows "P (servers (snd (forward_put cd self q p op k v n)))"
proof -
  let ?q = "\<lambda>j. \<lparr>req_partition = p, req_op_id = op, req_key = to_string cd k, req_value_json = j\<rparr>"
  have net: "snd (forward_put cd self q p op k v n) =
      (case get_member (membership (servers n self)) q of None \<Rightarrow> n
       | Some node \<Rightarrow> (case to_json cd v of None \<Rightarrow> n
       | Some j \<Rightarrow> snd (retry_loop (handle_forward_put cd) 3 150 (http_addr node) (?q j) n)))"
    by (simp add: forward_put_def retry_defs split: option.split prod.split sum.split)
  have "P (servers (snd (retry_loop (handle_forward_put cd) 3 150 a (?q j) n)))" for a j
  proof (rule retry_loop_servers_inv [where P = P, OF _ assms(3)])
    fix m :: "('k, 'v) cluster"
    assume "P (servers m)"
    then have "P ((servers m)(a := snd (should_process op (servers m a))))" by (rule mark)
    moreover have "snd (handle_forward_put cd a (?q j) m) =
        (case parse cd (to_string cd k) of None \<Rightarrow> m
         | Some key \<Rightarrow> (case from_json cd j of None \<Rightarrow> m
         | Some v \<Rightarrow> snd (store_as_primary cd a p op key v m)))"
      by (simp add: handle_forward_put_def split: option.split prod.split sum.split)
    ultimately show "P (servers (snd (handle_forward_put cd a (?q j) m)))"
      using \<open>P (servers m)\<close> rt by (auto simp: store_as_primary_keeps split: option.split)
  qed
  with assms show ?thesis unfolding net by (simp split: option.split)
qed

lemma put_with_op_keeps:
  assumes k: "travels cd k" and rt: "\<And>k'. parse cd (to_string cd k) = Some k' \<Longrightarrow> travels cd k'"
    and "P ((servers n)(self := snd (should_process op (servers n self))))"
  shows "P (servers (snd (put_with_op hash cd self k v op n)))"
proof -
  have "P (servers (set_server self (snd (should_process op (servers n self))) n))"
    "P (servers (set_server self (store_local p k v (snd (should_process op (servers n self)))) n))" for p
    using assms(1,3) store [of k "(servers n)(self := snd (should_process op (servers n self)))" self p v]
    by (simp_all add: set_server_def travels_def)
  with k rt show ?thesis
    by (simp add: put_with_op_def case_prod_beta Let_def replicate_all_keeps forward_put_keeps)
qed

end

text \<open>An operation seen once stays seen.\<close>

definition seen :: "str \<Rightarrow> sock_addr \<Rightarrow> (sock_addr \<Rightarrow> ('k, 'v) dmap) \<Rightarrow> bool" where
  "seen op a sv \<longleftrightarrow> dm_contains_key (processed_ops (sv a)) op"

interpretation op_seen: write_invariant "seen op a :: (sock_addr \<Rightarrow> ('k, 'v) dmap) \<Rightarrow> bool" op "\<lambda>k. True" for op a
  by unfold_locales (auto simp: seen_def)

lemma seen_handle_forward_put:
  assumes "fst (handle_forward_put cd a q n) \<noteq> (BAD_REQUEST, False)"
  shows "seen (req_op_id q) a (servers (snd (handle_forward_put cd a q n)))"
proof -
  obtain k v where "parse cd (req_key q) = Some k" "from_json cd (req_value_json q) = Some v"
    using assms by (auto simp: handle_forward_put_def split: option.splits)
  moreover have "seen (req_op_id q) a (servers (snd (store_as_primary cd a (req_partition q) (req_op_id q) k v n)))"
    by (rule op_seen.store_as_primary_keeps) (simp_all add: op_seen.travels_def seen_def)
  ultimately show ?thesis by (auto simp: handle_forward_put_def split: prod.split sum.split)
qed

lemma seen_put_with_op: "seen op self (servers (snd (put_with_op hash cd self k v op n)))"
  by (rule op_seen.put_with_op_keeps) (simp_all add: op_seen.travels_def seen_def)

text \<open>A write of \<open>k\<close> changes no other entry of any node, and takes no copy of \<open>k\<close> away.\<close>

definition others_as :: "(sock_addr \<Rightarrow> ('k, 'v) dmap) \<Rightarrow> 'k \<Rightarrow> (sock_addr \<Rightarrow> ('k, 'v) dmap) \<Rightarrow> bool" where
  "others_as sv0 k sv \<longleftrightarrow> (\<forall>a p' k'. k' \<noteq> k \<longrightarrow> peek (sv a) p' k' = peek (sv0 a) p' k')"

definition holds_copy :: "sock_addr \<Rightarrow> u32 \<Rightarrow> 'k \<Rightarrow> (sock_addr \<Rightarrow> ('k, 'v) dmap) \<Rightarrow> bool" where
  "holds_copy a p k sv \<longleftrightarrow> peek (sv a) p k \<noteq> None"

interpretation other_keys: write_invariant "others_as sv0 k" op "\<lambda>k'. k' = k" for sv0 k op
  by unfold_locales (auto simp: others_as_def)

interpretation copy_kept: write_invariant "holds_copy a p k" op "\<lambda>k'. k' = k" for a p k op
  by unfold_locales (auto simp: holds_copy_def)

interpretation partitioner_kept: write_invariant "\<lambda>sv. partitioner (sv a) = pm" op "\<lambda>k. True" for a pm op
  by unfold_locales auto

lemma put_partitioner: "partitioner (servers (snd (put_with_op hash cd self k v op n)) a) = partitioner (servers n a)"
  by (rule partitioner_kept.put_with_op_keeps) (simp_all add: partitioner_kept.travels_def)

lemma put_frame:
  assumes "parse cd (to_string cd k) = Some k"
  shows "others_as (servers n) k (servers (snd (put_with_op hash cd self k v op n)))"
  using assms by (intro other_keys.put_with_op_keeps) (simp_all add: other_keys.travels_def others_as_def)

text \<open>A node that is the primary of the key stores the value before anything can fail.\<close>

lemma primary_put_holds_copy:
  assumes "parse cd (to_string cd k) = Some k" and "\<not> dm_contains_key (processed_ops (servers n self)) op"
    and "owners_at self (key_partition hash cd (partitioner (servers n self)) k) n = own"
    and "own = [] \<or> own ! 0 = nid (local_node (membership (servers n self)))"
  shows "holds_copy self (key_partition hash cd (partitioner (servers n self)) k) k
    (servers (snd (put_with_op hash cd self k v op n)))"
proof -
  let ?p = "key_partition hash cd (partitioner (servers n self)) k"
  have "owners_at self ?p (set_server self (snd (should_process op (servers n self))) n) = own"
    using assms(3) by (simp add: owners_at_def)
  moreover have "holds_copy self ?p k
      (servers (set_server self (store_local ?p k v (snd (should_process op (servers n self)))) n))"
    by (simp add: holds_copy_def)
  moreover have "copy_kept.travels k cd k" using assms(1) by (simp add: copy_kept.travels_def)
  ultimately show ?thesis
    using assms(2,4) should_process_new [OF assms(2)]
    by (auto simp: put_with_op_def case_prod_beta Let_def intro: copy_kept.replicate_all_keeps)
qed

subsection \<open>Anti-entropy\<close>

lemma decode_dump:
  assumes "codec_ok cd"
  shows "decode_entries cd (List.map_filter (\<lambda>(key, v). map_option (\<lambda>j. (to_string cd key, j)) (to_json cd v)) es)
    = Inr es"
proof (induction es)
  case Nil
  then show ?case by (simp add: List.map_filter_def)
next
  case (Cons e es)
  obtain k v where e: "e = (k, v)" by (cases e)
  obtain j where j: "to_json cd v = Some j" "from_json cd j = Some v" using codec_json [OF assms] by blast
  have "parse cd (to_string cd k) = Some k" using assms by (simp add: codec_ok_def)
  with Cons.IH e j show ?case by (simp add: List.map_filter_def)
qed

lemma fetch_partition_effect:
  assumes h: "healthy ids addr pm n" and cd: "codec_ok cd" and i: "i \<in> set ids" and b: "b \<in> set ids"
    and net: "reliable n" "all_listening ids addr n"
  shows "\<exists>n'. fetch_partition cd (addr i) b p n = (Inr (dump_partition p (servers n (addr b))), n') \<and>
    servers n' = servers n \<and> same_network n n'"
proof -
  obtain node where node: "get_member (membership (servers n (addr i))) b = Some node"
    and na: "http_addr node = addr b" using healthy_member [OF h i b] by blast
  have up: "listening n (addr b)" "fates n (sent n) = Delivered"
    using net b by (auto simp: all_listening_def reliable_def)
  let ?n1 = "n\<lparr>sent := Suc (sent n)\<rparr>"
  have e: "retry_loop (serve (handle_partition_dump cd)) 3 150 (addr b) p n
      = (Inr (fst (handle_partition_dump cd p (servers n (addr b)))), ?n1)"
    using retry_loop_delivered [OF up, of "serve (handle_partition_dump cd)" 2 150 p]
    by (simp add: numeral_3_eq_3 handle_partition_dump_def set_server_def del: retry_loop.simps)
  have "fetch_partition cd (addr i) b p n = (Inr (dump_partition p (servers n (addr b))), ?n1)"
    using node na e by (simp add: fetch_partition_def retry_defs handle_partition_dump_def decode_dump [OF cd])
  then show ?thesis by (simp add: same_network_def)
qed

text \<open>Where \<open>sync_partition\<close> looks for the data.\<close>

definition sync_source :: "str \<Rightarrow> str list \<Rightarrow> str" where
  "sync_source i own = (if own ! 0 = i then own ! 1 else own ! 0)"

lemma sync_partition_effect:
  assumes h: "healthy ids addr pm n" and cd: "codec_ok cd" and i: "i \<in> set ids"
    and own: "2 \<le> length (placement ids pm p)"
    and net: "reliable n" "all_listening ids addr n"
  shows "\<exists>n'. sync_partition cd (addr i) p n = n' \<and> same_network n n' \<and>
    servers n' = (servers n)(addr i :=
      (if placement ids pm p ! 0 = i \<and> has_partition p (servers n (addr i)) then servers n (addr i)
       else apply_partition_entries p
         (dump_partition p (servers n (addr (sync_source i (placement ids pm p))))) (servers n (addr i))))"
proof -
  let ?own = "placement ids pm p" and ?src = "sync_source i (placement ids pm p)"
  have at: "owners_at (addr i) p n = ?own" using healthyD(3) [OF h i] .
  have loc: "nid (local_node (membership (servers n (addr i)))) = i" using healthyD(4) [OF h i] .
  have ne: "?own \<noteq> []" "1 < length ?own" using own by auto
  show ?thesis
  proof (cases "?own ! 0 = i \<and> has_partition p (servers n (addr i))")
    case True
    with at loc ne show ?thesis by (simp add: sync_partition_def Let_def)
  next
    case False
    have "?src \<in> set ?own" using ne by (simp add: sync_source_def)
    then have src: "?src \<in> set ids" using set_placement [of ids pm p] by blast
    obtain n1 where e: "fetch_partition cd (addr i) ?src p n = (Inr (dump_partition p (servers n (addr ?src))), n1)"
      and sv: "servers n1 = servers n" and nw: "same_network n n1"
      using fetch_partition_effect [OF h cd i src net] by blast
    have "sync_partition cd (addr i) p n =
      (if dump_partition p (servers n (addr ?src)) \<noteq> []
       then set_server (addr i) (apply_partition_entries p (dump_partition p (servers n (addr ?src))) (servers n1 (addr i))) n1
       else n1)"
      using at loc ne e False by (auto simp: sync_partition_def Let_def sync_source_def)
    then show ?thesis
      unfolding if_not_P [OF False] using sv nw
      by (simp add: set_server_def same_network_def apply_partition_entries_def)
  qed
qed

lemma apply_partition_entries_frame [simp]:
  "membership (apply_partition_entries p es m) = membership m"
  "partitioner (apply_partition_entries p es m) = partitioner m"
  by (induction es arbitrary: m) (auto simp: apply_partition_entries_def)

lemma dmap_wf_apply: "dmap_wf m \<Longrightarrow> dmap_wf (apply_partition_entries p es m)"
  unfolding apply_partition_entries_def by (rule map_store.inv_bulk)

lemma peek_apply_other: "dmap_wf m \<Longrightarrow> p' \<noteq> p \<Longrightarrow> peek (apply_partition_entries p es m) p' k = peek m p' k"
  unfolding apply_partition_entries_def by (rule map_store.lookup_bulk_other) auto

lemma has_partition_iff: "dmap_wf m \<Longrightarrow> has_partition p m \<longleftrightarrow> (\<exists>k. peek m p k \<noteq> None)"
proof -
  have "xs \<noteq> [] \<longleftrightarrow> (\<exists>k. dm_get xs k \<noteq> None)" for xs :: "('a, 'b) dashmap"
    by (cases xs) (auto simp: dm_get_def)
  then show ?thesis by (auto simp: has_partition_def peek_def split: option.splits)
qed

text \<open>
  What a pass at node \<open>i\<close> makes of its copy of a partition whose owners are \<open>own\<close>, when the source
  holds \<open>src\<close>: a primary that has anything keeps what it has, everybody else takes the entries of the
  source over its own.
\<close>

definition synced :: "str \<Rightarrow> str list \<Rightarrow> ('k \<Rightarrow> 'v option) \<Rightarrow> ('k \<Rightarrow> 'v option) \<Rightarrow> 'k \<Rightarrow> 'v option" where
  "synced i own src mine = (if own ! 0 = i \<and> (\<exists>k. mine k \<noteq> None) then mine else mine ++ src)"

lemma synced_again: "synced i own src (synced i own src mine) = synced i own src mine"
proof -
  have "mine ++ src ++ src = mine ++ src" by (auto simp: map_add_def split: option.split)
  then show ?thesis by (simp add: synced_def)
qed

lemma synced_empty: "synced i own src (\<lambda>_. None) = src"
  by (auto simp: synced_def map_add_def fun_eq_iff split: option.split)

lemma peek_sync_step:
  assumes "dmap_wf m" and "dmap_wf src"
  shows "peek (if own ! 0 = i \<and> has_partition p m then m else apply_partition_entries p (dump_partition p src) m) p'
    = (if p' = p then synced i own (peek src p) (peek m p) else peek m p')"
proof -
  have "peek (apply_partition_entries p (dump_partition p src) m) p = peek m p ++ peek src p"
    by (rule ext) (simp add: apply_dump [OF assms(2,1)] map_add_def)
  moreover have "peek (apply_partition_entries p (dump_partition p src) m) p' = peek m p'" if "p' \<noteq> p"
    by (rule ext) (rule peek_apply_other [OF assms(1) that])
  moreover define keep where "keep \<longleftrightarrow> own ! 0 = i \<and> (\<exists>k. peek m p k \<noteq> None)"
  ultimately show ?thesis
    unfolding synced_def has_partition_iff [OF assms(1)] keep_def [symmetric]
    by (cases keep; cases "p' = p") simp_all
qed

lemma sync_source_in:
  assumes "healthy ids addr pm n" and "2 \<le> length (placement ids pm p)"
  shows "sync_source i (placement ids pm p) \<in> set ids \<and> sync_source i (placement ids pm p) \<noteq> i"
proof -
  let ?own = "placement ids pm p"
  have ne: "?own \<noteq> []" "1 < length ?own" using assms(2) by auto
  have "distinct ?own" using assms(1) by (simp add: healthy_def distinct_placement)
  then have "?own ! 0 \<noteq> ?own ! 1" using ne by (simp add: nth_eq_iff_index_eq)
  moreover have "sync_source i ?own \<in> set ?own" using ne by (simp add: sync_source_def)
  ultimately show ?thesis using set_placement [of ids pm p] by (auto simp: sync_source_def)
qed

text \<open>The loop over the partitions, in any order and even with repetitions.\<close>

lemma sync_loop_effect:
  assumes cd: "codec_ok cd" and i: "i \<in> set ids"
  shows "healthy ids addr pm n \<Longrightarrow> reliable n \<Longrightarrow> all_listening ids addr n \<Longrightarrow>
    (\<And>j. j \<in> set ids \<Longrightarrow> dmap_wf (servers n (addr j))) \<Longrightarrow>
    (\<And>p. p \<in> set ps \<Longrightarrow> 2 \<le> length (placement ids pm p)) \<Longrightarrow>
    \<exists>m n'. fold (sync_partition cd (addr i)) ps n = n' \<and> servers n' = (servers n)(addr i := m) \<and>
      same_network n n' \<and> membership m = membership (servers n (addr i)) \<and>
      partitioner m = partitioner (servers n (addr i)) \<and> dmap_wf m \<and>
      (\<forall>p. peek m p = (if p \<in> set ps
         then synced i (placement ids pm p) (peek (servers n (addr (sync_source i (placement ids pm p)))) p)
           (peek (servers n (addr i)) p)
         else peek (servers n (addr i)) p))"
proof (induction ps arbitrary: n)
  case Nil
  then show ?case using i by (intro exI [of _ "servers n (addr i)"]) simp
next
  case (Cons p ps)
  let ?own = "placement ids pm" and ?src = "\<lambda>p. sync_source i (placement ids pm p)"
  have own: "2 \<le> length (?own p)" using Cons.prems(5) [of p] by simp
  let ?m = "if ?own p ! 0 = i \<and> has_partition p (servers n (addr i)) then servers n (addr i)
     else apply_partition_entries p (dump_partition p (servers n (addr (?src p)))) (servers n (addr i))"
  obtain n1 where e: "sync_partition cd (addr i) p n = n1" and nw: "same_network n n1"
    and sv: "servers n1 = (servers n)(addr i := ?m)"
    using sync_partition_effect [OF Cons.prems(1) cd i own Cons.prems(2,3)] by blast
  have src: "?src p' \<in> set ids" "addr (?src p') \<noteq> addr i" if "2 \<le> length (?own p')" for p'
    using sync_source_in [OF Cons.prems(1) that, of i] addr_eq_iff [OF Cons.prems(1) _ i, of "?src p'"] by auto
  have pk: "peek ?m p' = (if p' = p then synced i (?own p) (peek (servers n (addr (?src p))) p) (peek (servers n (addr i)) p)
      else peek (servers n (addr i)) p')" for p'
    using peek_sync_step [OF Cons.prems(4) [OF i] Cons.prems(4) [OF src(1) [OF own]]] .
  have frame: "membership ?m = membership (servers n (addr i))" "partitioner ?m = partitioner (servers n (addr i))"
    by simp_all
  have wf: "dmap_wf ?m" using Cons.prems(4) [OF i] by (simp add: dmap_wf_apply)
  have h1: "healthy ids addr pm n1"
    using Cons.prems(1) by (rule healthy_cong) (simp add: sv)
  have net1: "reliable n1" "all_listening ids addr n1"
    using Cons.prems(2,3) nw by (simp_all add: reliable_same all_listening_same)
  have wf1: "dmap_wf (servers n1 (addr j))" if "j \<in> set ids" for j
    using Cons.prems(4) [OF that] wf by (simp add: sv)
  have len1: "2 \<le> length (?own p')" if "p' \<in> set ps" for p' using Cons.prems(5) [of p'] that by simp
  from Cons.IH [OF h1 net1 wf1 len1] obtain m n' where
    e': "fold (sync_partition cd (addr i)) ps n1 = n'" and sv': "servers n' = (servers n1)(addr i := m)"
    and nw': "same_network n1 n'" and fr': "membership m = membership (servers n1 (addr i))"
      "partitioner m = partitioner (servers n1 (addr i))" and wf': "dmap_wf m"
    and pk': "\<And>p. peek m p = (if p \<in> set ps
         then synced i (?own p) (peek (servers n1 (addr (?src p))) p) (peek (servers n1 (addr i)) p)
         else peek (servers n1 (addr i)) p)" by blast
  have "peek m p' = (if p' \<in> set (p # ps)
      then synced i (?own p') (peek (servers n (addr (?src p'))) p') (peek (servers n (addr i)) p')
      else peek (servers n (addr i)) p')" for p'
  proof (cases "p' \<in> set ps")
    case True
    then have s: "servers n1 (addr (?src p')) = servers n (addr (?src p'))" using src(2) [OF len1] by (simp add: sv)
    have "servers n1 (addr i) = ?m" by (simp only: sv fun_upd_same)
    then show ?thesis using True pk' [of p'] pk [of p'] s by (cases "p' = p") (simp_all add: synced_again)
  next
    case False
    have "servers n1 (addr i) = ?m" by (simp only: sv fun_upd_same)
    then show ?thesis using False pk' [of p'] pk [of p'] by simp
  qed
  moreover have "servers n1 (addr i) = ?m" by (simp only: sv fun_upd_same)
  moreover have "servers n' = (servers n)(addr i := m)" by (simp add: sv' sv)
  ultimately show ?case
    using e e' wf' fr' frame same_network_trans [OF nw nw'] by (intro exI [of _ m] exI [of _ n']) simp
qed

end
