(* ===== verification/MapGuarantees.thy ===== *)
theory MapGuarantees
  imports MapSpec
begin

text \<open>
  The guarantees of the distributed map as theorems: what an acknowledged write means, that writes
  and reads implement one abstract map, where they do not (a write coordinated by a backup, a retried
  write). The examples use
  \<open>loaded_cluster\<close>, a healthy cluster that holds one entry.
\<close>

subsection \<open>Examples\<close>

definition loaded_node :: "str list \<Rightarrow> partition_manager \<Rightarrow> u32 \<Rightarrow> 'k \<Rightarrow> 'v \<Rightarrow> str \<Rightarrow> ('k, 'v) dmap" where
  "loaded_node ids pm p k w i =
     \<lparr>local_data = (if i \<in> set (placement ids pm p) then [(p, [(k, w)])] else []), processed_ops = [],
      membership = stable_view ids i, partitioner = pm, base_path = [], clock = 0\<rparr>"

definition loaded_cluster :: "(str \<Rightarrow> u64) \<Rightarrow> ('k, 'v) codec \<Rightarrow> str list \<Rightarrow> partition_manager \<Rightarrow> 'k \<Rightarrow> 'v
    \<Rightarrow> ('k, 'v) cluster" where
  "loaded_cluster hash cd ids pm k w =
     quiet_net (\<lambda>a. loaded_node ids pm (key_partition hash cd pm k) k w (fst a))"

text \<open>Three nodes a, b and c with two copies of every entry: the key \<open>x\<close> lives at b and c.\<close>

definition sample_cluster :: "(str, str) cluster" where
  "sample_cluster = loaded_cluster length_hash str_codec three_ids new_partition_manager (lit ''x'') (lit ''old'')"

lemma loaded_cluster_healthy:
  assumes "distinct ids" and "0 < replication_factor pm"
  shows "healthy ids node_addr pm (loaded_cluster hash cd ids pm k w)"
  using assms
  by (simp add: healthy_def loaded_cluster_def loaded_node_def node_addr_def knows_def stable_view_ok
      get_member_def image_image inj_on_def)

lemma loaded_cluster_fresh: "fresh_op op ids addr (loaded_cluster hash cd ids pm k w)"
  by (simp add: fresh_op_def loaded_cluster_def loaded_node_def)

lemma loaded_cluster_consistent:
  assumes "codec_ok cd"
  shows "consistent hash cd ids node_addr pm (loaded_cluster hash cd ids pm k w) [k \<mapsto> w]"
  by (auto simp: consistent_def loaded_cluster_def loaded_node_def node_addr_def peek_def dm_get_def)

lemma sample_placement:
  "key_partition length_hash str_codec new_partition_manager (lit ''x'') = 1"
  "placement three_ids new_partition_manager 1 = [lit ''b'', lit ''c'']"
proof -
  show "key_partition length_hash str_codec new_partition_manager (lit ''x'') = 1"
    by (simp add: key_partition_def str_codec_def get_partition_def length_hash_def
        new_partition_manager_def new_with_replication_def)
  have "ring_owners 2 [x, y, z] 1 = [y, z]" for x y z :: str
    by (simp add: ring_owners_def upt_rec)
  then show "placement three_ids new_partition_manager 1 = [lit ''b'', lit ''c'']"
    by (simp add: placement_def new_partition_manager_def new_with_replication_def max_def)
qed

lemma sample_pl:
  "placement three_ids new_partition_manager
     (key_partition length_hash str_codec new_partition_manager (lit ''x'')) = [lit ''b'', lit ''c'']"
  by (simp only: sample_placement)

lemma sample_cluster_facts:
  "healthy three_ids node_addr new_partition_manager sample_cluster"
  "consistent length_hash str_codec three_ids node_addr new_partition_manager sample_cluster
     [lit ''x'' \<mapsto> lit ''old'']"
  "fresh_op op three_ids node_addr sample_cluster"
  "reliable sample_cluster" "all_listening three_ids node_addr sample_cluster"
proof -
  show "healthy three_ids node_addr new_partition_manager sample_cluster"
    unfolding sample_cluster_def by (rule loaded_cluster_healthy [OF three_ids_simps(1) three_rf])
  show "consistent length_hash str_codec three_ids node_addr new_partition_manager sample_cluster
     [lit ''x'' \<mapsto> lit ''old'']"
    unfolding sample_cluster_def by (rule loaded_cluster_consistent [OF str_codec_ok])
  show "fresh_op op three_ids node_addr sample_cluster"
    unfolding sample_cluster_def by (rule loaded_cluster_fresh)
  show "reliable sample_cluster" "all_listening three_ids node_addr sample_cluster"
    unfolding sample_cluster_def loaded_cluster_def by (rule quiet_net_simps)+
qed

subsection \<open>Writes\<close>

text \<open>C4: an acknowledged write is on every owner: if a put at the primary of the key returns Ok, then,
  whatever requests and replies the network lost on the way, the primary and all its backups hold
  the value, and no other entry of any node has changed.\<close>
theorem acknowledged_put_is_on_every_owner:
  assumes "healthy ids addr pm n" and "codec_ok cd" and "fresh_op op ids addr n"
    and "placement ids pm (key_partition hash cd pm k) = q # bs"
    and "put_with_op hash cd (addr q) k v op n = (Inr (), n')"
  shows "(\<forall>j \<in> set (q # bs). peek (servers n' (addr j)) (key_partition hash cd pm k) k = Some v) \<and>
    (\<forall>a p' k'. p' = key_partition hash cd pm k \<and> k' = k \<or>
       peek (servers n' a) p' k' = peek (servers n a) p' k')"
proof -
  let ?p = "key_partition hash cd pm k"
  have own: "set (q # bs) \<subseteq> set ids" using set_placement [of ids pm ?p] assms(4) by simp
  then have new: "\<not> dm_contains_key (processed_ops (servers n (addr j))) op" if "j \<in> set (q # bs)" for j
    using assms(3) that by (auto simp: fresh_op_def)
  have newq: "\<not> dm_contains_key (processed_ops (servers n (addr q))) op" using new by simp
  from primary_write_effect [OF assms(1,2,4) newq, of k v] put_with_op_primary [OF assms(1,4) newq, of v] assms(5)
  have sv: "servers n' = upd_at (addr ` set (q # bs)) (store_replica ?p op k v) (servers n)"
    by auto
  have "peek (servers n' (addr j)) ?p k = Some v" if "j \<in> set (q # bs)" for j
    using new [OF that] imageI [OF that, of addr]
    by (simp add: sv upd_at_def peek_store_replica_new)
  moreover have "peek (servers n' a) p' k' = peek (servers n a) p' k'"
    if "p' \<noteq> ?p \<or> k' \<noteq> k" for a p' k'
    using that by (auto simp: sv upd_at_def store_replica_cases)
  ultimately show ?thesis by blast
qed

theorem acknowledged_put_is_on_every_owner_witness:
  "case put_with_op length_hash str_codec (node_addr (lit ''b'')) (lit ''x'') (lit ''new'') (lit ''op1'') sample_cluster
   of (r, n') \<Rightarrow> r = Inr () \<and> peek (servers n' (node_addr (lit ''c''))) 1 (lit ''x'') = Some (lit ''new'')"
proof -
  note s = sample_placement sample_cluster_facts
  have b: "lit ''b'' \<in> set three_ids" by simp
  obtain n' where n': "put_with_op length_hash str_codec (node_addr (lit ''b'')) (lit ''x'') (lit ''new'')
      (lit ''op1'') sample_cluster = (Inr (), n')"
    using put_effect [OF s(3) str_codec_ok sample_pl b s(5-7)] by blast
  from acknowledged_put_is_on_every_owner [OF s(3) str_codec_ok s(5) sample_pl n'] n'
  show ?thesis by (simp add: s(1))
qed

lemma not_processed_upd_at:
  assumes "\<not> dm_contains_key (processed_ops (sv0 a)) op' \<Longrightarrow> \<not> dm_contains_key (processed_ops (sv a)) op'"
    and "\<not> dm_contains_key (processed_ops (sv0 a)) op'" and "op' \<noteq> op"
  shows "\<not> dm_contains_key (processed_ops (upd_at S (store_replica p op k v) sv a)) op'"
  using assms by (simp add: upd_at_def not_processed_store_replica)

lemma fresh_op_mono:
  "fresh_op op ids addr n \<Longrightarrow>
     (\<And>a. \<not> dm_contains_key (processed_ops (servers n a)) op \<Longrightarrow>
        \<not> dm_contains_key (processed_ops (servers n' a)) op) \<Longrightarrow> fresh_op op ids addr n'"
  by (simp add: fresh_op_def)

lemma fresh_after_put:
  assumes "servers n' = upd_at S (store_replica p op k v)
      (if b then servers n else (servers n)(a := snd (should_process op (servers n a))))"
    and "op' \<noteq> op" and "fresh_op op' ids addr n"
  shows "fresh_op op' ids addr n'"
proof -
  let ?sv = "if b then servers n else (servers n)(a := snd (should_process op (servers n a)))"
  have "\<not> dm_contains_key (processed_ops (?sv c)) op'"
    if "\<not> dm_contains_key (processed_ops (servers n c)) op'" for c
    using that assms(2) by (cases b; cases "c = a") (simp_all add: not_processed_should_process)
  then have "\<not> dm_contains_key (processed_ops (servers n' c)) op'"
    if "\<not> dm_contains_key (processed_ops (servers n c)) op'" for c
    unfolding assms(1) using that assms(2) by (rule not_processed_upd_at)
  with assms(3) show ?thesis by (rule fresh_op_mono)
qed

text \<open>What a put does on a network that loses nothing, and that later operations stay fresh.\<close>

lemma put_step:
  assumes "healthy ids addr pm n" and "codec_ok cd" and "consistent hash cd ids addr pm n A"
    and "i \<in> set ids" and "i \<notin> set (drop 1 (placement ids pm (key_partition hash cd pm k)))"
    and "fresh_op op ids addr n" and "reliable n" and "all_listening ids addr n"
  shows "\<exists>n'. put_with_op hash cd (addr i) k v op n = (Inr (), n') \<and> same_network n n' \<and>
    healthy ids addr pm n' \<and> consistent hash cd ids addr pm n' (A(k \<mapsto> v)) \<and>
    (\<forall>op'. op' \<noteq> op \<and> fresh_op op' ids addr n \<longrightarrow> fresh_op op' ids addr n')"
proof -
  let ?p = "key_partition hash cd pm k"
  obtain q bs where pl: "placement ids pm ?p = q # bs" and own: "q \<in> set ids" "set bs \<subseteq> set ids"
    using placement_cases [OF assms(1,4)] by metis
  have i: "i \<notin> set bs" using assms(5) pl by simp
  let ?sv = "if i = q then servers n else (servers n)(addr i := snd (should_process op (servers n (addr i))))"
  obtain n' where e: "put_with_op hash cd (addr i) k v op n = (Inr (), n')"
    and net: "same_network n n'" and sv: "servers n' = upd_at (addr ` set (q # bs)) (store_replica ?p op k v) ?sv"
    using put_effect [OF assms(1,2) pl assms(4,6,7,8), of v] by blast
  have mem: "membership (?sv a) = membership (servers n a)" "partitioner (?sv a) = partitioner (servers n a)"
    and pk: "peek (?sv a) = peek (servers n a)" for a by simp_all
  have "healthy ids addr pm n'" using assms(1) by (rule healthy_cong) (simp add: sv mem)
  moreover have "consistent hash cd ids addr pm n' (A(k \<mapsto> v))"
  proof (rule consistentI)
    fix j k'
    assume j: "j \<in> set ids"
    note old = consistentD [OF assms(3) j, of k']
    show "peek (servers n' (addr j)) (key_partition hash cd pm k') k' =
      (if j \<in> set (placement ids pm (key_partition hash cd pm k')) then (A(k \<mapsto> v)) k' else None)"
    proof (cases "j \<in> set (q # bs)")
      case False
      have "addr j \<notin> addr ` set (q # bs)"
      proof
        assume "addr j \<in> addr ` set (q # bs)"
        then obtain j' where "addr j = addr j'" "j' \<in> set (q # bs)" by blast
        with addr_eq_iff [OF assms(1) j, of j'] own False show False by auto
      qed
      then have "servers n' (addr j) = ?sv (addr j)" by (simp only: sv upd_at_def if_False)
      then have "peek (servers n' (addr j)) = peek (servers n (addr j))" by (simp only: pk)
      moreover have "k' \<noteq> k \<or> j \<notin> set (placement ids pm (key_partition hash cd pm k'))"
        using False pl by auto
      ultimately show ?thesis using old by (simp split: if_splits)
    next
      case True
      have "i = q \<or> addr i \<noteq> addr j"
        using True i addr_eq_iff [OF assms(1,4) j] by auto
      then have same: "?sv (addr j) = servers n (addr j)" by (cases "i = q") simp_all
      have "servers n' (addr j) = store_replica ?p op k v (servers n (addr j))"
        using imageI [OF True, of addr] by (simp only: sv upd_at_def if_True same)
      moreover have "\<not> dm_contains_key (processed_ops (servers n (addr j))) op"
        using assms(6) j by (simp add: fresh_op_def)
      ultimately have "peek (servers n' (addr j)) (key_partition hash cd pm k') k' =
          (if key_partition hash cd pm k' = ?p \<and> k' = k then Some v
           else peek (servers n (addr j)) (key_partition hash cd pm k') k')"
        by (simp add: peek_store_replica_new)
      then show ?thesis using old True pl by auto
    qed
  qed
  moreover have "fresh_op op' ids addr n'" if "op' \<noteq> op" "fresh_op op' ids addr n" for op'
    using fresh_after_put [OF sv that] .
  ultimately show ?thesis using e net by blast
qed

text \<open>C1: over a network that loses no request, a put at any node that is not a backup of the key
  implements the update of the abstract map: it returns Ok, and the cluster is consistent with the
  updated map afterwards.\<close>
theorem put_refines_update:
  assumes "healthy ids addr pm n" and "codec_ok cd" and "consistent hash cd ids addr pm n A"
    and "i \<in> set ids" and "i \<notin> set (drop 1 (placement ids pm (key_partition hash cd pm k)))"
    and "fresh_op op ids addr n" and "reliable n" and "all_listening ids addr n"
  shows "case put_with_op hash cd (addr i) k v op n of (r, n') \<Rightarrow>
    r = Inr () \<and> healthy ids addr pm n' \<and> consistent hash cd ids addr pm n' (A(k \<mapsto> v))"
  using put_step [OF assms, of v] by auto

theorem put_refines_update_witness:
  "case put_with_op length_hash str_codec (node_addr (lit ''a'')) (lit ''x'') (lit ''new'') (lit ''op1'') sample_cluster
   of (r, n') \<Rightarrow> r = Inr () \<and> healthy three_ids node_addr new_partition_manager n' \<and>
     consistent length_hash str_codec three_ids node_addr new_partition_manager n'
       ([lit ''x'' \<mapsto> lit ''old''](lit ''x'' \<mapsto> lit ''new''))"
proof (rule put_refines_update [OF sample_cluster_facts(1) str_codec_ok sample_cluster_facts(2) _ _
      sample_cluster_facts(3-5)])
  show "lit ''a'' \<in> set three_ids" by simp
  show "lit ''a'' \<notin> set (drop 1 (placement three_ids new_partition_manager
      (key_partition length_hash str_codec new_partition_manager (lit ''x''))))"
    unfolding sample_pl by (simp add: lit_simps)
qed

text \<open>A put that a backup coordinates: every owner but the coordinator holds the value.\<close>

lemma backup_put:
  assumes "healthy ids addr pm n" and "codec_ok cd"
    and "i \<in> set (drop 1 (placement ids pm (key_partition hash cd pm k)))"
    and "fresh_op op ids addr n" and "reliable n" and "all_listening ids addr n"
  shows "\<exists>n'. put_with_op hash cd (addr i) k v op n = (Inr (), n') \<and> same_network n n' \<and> healthy ids addr pm n' \<and>
    servers n' (addr i) = snd (should_process op (servers n (addr i))) \<and>
    (\<forall>j \<in> set (placement ids pm (key_partition hash cd pm k)) - {i}.
       peek (servers n' (addr j)) (key_partition hash cd pm k) k = Some v) \<and>
    (\<forall>op'. op' \<noteq> op \<and> fresh_op op' ids addr n \<longrightarrow> fresh_op op' ids addr n')"
proof -
  let ?p = "key_partition hash cd pm k"
  have i: "i \<in> set ids" using set_placement [of ids pm ?p] assms(3) by (auto dest: in_set_dropD)
  obtain q bs where pl: "placement ids pm ?p = q # bs" and own: "q \<in> set ids" "set bs \<subseteq> set ids"
    and q: "q \<notin> set bs"
    using placement_cases [OF assms(1) i] by metis
  have ib: "i \<in> set bs" and iq: "i \<noteq> q" using assms(3) pl q by auto
  let ?m = "snd (should_process op (servers n (addr i)))"
  obtain n' where e: "put_with_op hash cd (addr i) k v op n = (Inr (), n')" and net: "same_network n n'"
    and sv0: "servers n' = upd_at (addr ` set (q # bs)) (store_replica ?p op k v)
      (if i = q then servers n else (servers n)(addr i := ?m))"
    using put_effect [OF assms(1,2) pl i assms(4,5,6), of v] by blast
  then have sv: "servers n' = upd_at (addr ` set (q # bs)) (store_replica ?p op k v) ((servers n)(addr i := ?m))"
    using iq by simp
  have "servers n' (addr i) = ?m"
    using ib by (simp add: sv upd_at_def store_replica_again)
  moreover have "peek (servers n' (addr j)) ?p k = Some v" if j: "j \<in> set (q # bs)" "j \<noteq> i" for j
  proof -
    have jin: "j \<in> set ids" using j own by auto
    then have "addr i \<noteq> addr j" using addr_eq_iff [OF assms(1) i, of j] j by simp
    then have "servers n' (addr j) = store_replica ?p op k v (servers n (addr j))"
      using imageI [OF j(1), of addr] by (simp add: sv upd_at_def)
    moreover have "\<not> dm_contains_key (processed_ops (servers n (addr j))) op"
      using assms(4) jin by (simp add: fresh_op_def)
    ultimately show ?thesis by (simp add: peek_store_replica_new)
  qed
  moreover have "healthy ids addr pm n'" using assms(1) by (rule healthy_cong) (simp add: sv)
  ultimately show ?thesis using e net fresh_after_put [OF sv0] unfolding pl by blast
qed

text \<open>C8: a put coordinated by a backup of the key is acknowledged but never reaches that backup, even when
  the network loses nothing: the coordinator has already marked the operation as processed, so it
  drops the copy that the primary sends back. All other owners hold the new value, and a read at
  the coordinator returns the old one, to the very client that wrote the new one.\<close>
theorem backup_coordinator_misses_write:
  assumes "healthy ids addr pm n" and "codec_ok cd" and "consistent hash cd ids addr pm n A"
    and "i \<in> set (drop 1 (placement ids pm (key_partition hash cd pm k)))"
    and "fresh_op op ids addr n" and "reliable n" and "all_listening ids addr n" and "A k = Some w"
  shows "case put_with_op hash cd (addr i) k v op n of (r, n') \<Rightarrow>
    r = Inr () \<and> fst (get hash cd (addr i) k n') = Some w \<and>
    (\<forall>j \<in> set (placement ids pm (key_partition hash cd pm k)) - {i}.
       peek (servers n' (addr j)) (key_partition hash cd pm k) k = Some v)"
proof -
  let ?p = "key_partition hash cd pm k" and ?m = "snd (should_process op (servers n (addr i)))"
  have i: "i \<in> set ids" using set_placement [of ids pm ?p] assms(4) by (auto dest: in_set_dropD)
  from backup_put [OF assms(1,2,4-7), of v] obtain n' where
    e: "put_with_op hash cd (addr i) k v op n = (Inr (), n')" and at_i: "servers n' (addr i) = ?m"
    and others: "\<forall>j \<in> set (placement ids pm ?p) - {i}. peek (servers n' (addr j)) ?p k = Some v" by blast
  have "peek ?m ?p k = Some w"
    using consistentD [OF assms(3) i, of k] assms(4,8) by (auto dest: in_set_dropD)
  moreover have "partitioner ?m = pm" using healthyD(2) [OF assms(1) i] by simp
  ultimately have "fst (get hash cd (addr i) k n') = Some w"
    by (simp add: get_def at_i Let_def)
  with e others show ?thesis by simp
qed

theorem backup_coordinator_misses_write_witness:
  "case put_with_op length_hash str_codec (node_addr (lit ''c'')) (lit ''x'') (lit ''new'') (lit ''op1'') sample_cluster
   of (r, n') \<Rightarrow> r = Inr () \<and>
     fst (get length_hash str_codec (node_addr (lit ''c'')) (lit ''x'') n') = Some (lit ''old'') \<and>
     peek (servers n' (node_addr (lit ''b''))) 1 (lit ''x'') = Some (lit ''new'')"
proof -
  have c: "lit ''c'' \<in> set (drop 1 (placement three_ids new_partition_manager
      (key_partition length_hash str_codec new_partition_manager (lit ''x''))))"
    unfolding sample_pl by simp
  have bc: "lit ''b'' \<noteq> lit ''c''" by (simp add: lit_simps)
  show ?thesis
    using backup_coordinator_misses_write [OF sample_cluster_facts(1) str_codec_ok sample_cluster_facts(2) c
        sample_cluster_facts(3-5), of "lit ''old''" "lit ''new''" "lit ''op1''"] bc
    by (auto simp: sample_placement)
qed

subsection \<open>Reads\<close>

text \<open>C2: reading at any node of a consistent cluster gives the value of the abstract map or nothing, and
  changes no node, whatever the network does. It gives the value for certain at an owner of the
  key, and at every other node as soon as no request is lost and one of the owners, primary or
  backup, is up.\<close>
theorem get_implements_lookup:
  assumes "healthy ids addr pm n" and "codec_ok cd" and "i \<in> set ids"
    and "url_segment cd (to_string cd k) = Some (to_string cd k)"
    and "consistent hash cd ids addr pm n A"
  shows "case get hash cd (addr i) k n of (r, n') \<Rightarrow>
    servers n' = servers n \<and> (r = None \<or> r = A k) \<and>
    (i \<in> set (placement ids pm (key_partition hash cd pm k)) \<or>
       reliable n \<and> (\<exists>j \<in> set (placement ids pm (key_partition hash cd pm k)). listening n (addr j))
     \<longrightarrow> r = A k)"
  using get_effect [OF assms] by auto

text \<open>In the example the primary \<open>b\<close> of the key is down.\<close>

definition without_b :: "(str, str) cluster" where
  "without_b = sample_cluster\<lparr>listening := (\<lambda>a. a \<noteq> node_addr (lit ''b''))\<rparr>"

theorem get_implements_lookup_witness:
  "fst (get length_hash str_codec (node_addr (lit ''a'')) (lit ''x'') without_b) = Some (lit ''old'')"
proof -
  have h: "healthy three_ids node_addr new_partition_manager without_b"
    using sample_cluster_facts(1) by (rule healthy_cong) (simp add: without_b_def)
  have con: "consistent length_hash str_codec three_ids node_addr new_partition_manager without_b
     [lit ''x'' \<mapsto> lit ''old'']"
    using sample_cluster_facts(2) by (simp add: consistent_def without_b_def)
  have url: "url_segment str_codec (to_string str_codec (lit ''x'')) = Some (to_string str_codec (lit ''x''))"
    by (simp add: str_codec_def SLASH_def lit_simps)
  have a: "lit ''a'' \<in> set three_ids" by simp
  have "reliable without_b" using sample_cluster_facts(4) by (simp add: reliable_def without_b_def)
  moreover have "listening without_b (node_addr (lit ''c''))"
    by (simp add: without_b_def node_addr_def lit_simps)
  ultimately show ?thesis
    using get_implements_lookup [OF h str_codec_ok a url con] by (auto simp: sample_pl)
qed

text \<open>A key that no route matches when it is pasted into a URL, as one with a slash, is found at its owners
  only: to every other node each owner answers 404, and a read returns nothing although the key is stored.\<close>

lemma fetch_remote_unroutable:
  assumes "url_segment cd (to_string cd k) = None"
  shows "fst (fetch_remote hash cd self b k n) = Inr None \<or> (\<exists>e. fst (fetch_remote hash cd self b k n) = Inl e)"
proof (cases "get_member (membership (servers n self)) b")
  case (Some node)
  obtain r n1 where e: "retry_loop (serve (route_get_internal hash cd)) 3 150 (http_addr node) (to_string cd k) n = (r, n1)"
    by (cases "retry_loop (serve (route_get_internal hash cd)) 3 150 (http_addr node) (to_string cd k) n")
  then have "r = Inr (NOT_FOUND, None) \<or> r = Inl TransportError"
    using get_internal.retry_result [of 3 hash cd 150 "http_addr node" "to_string cd k" n] assms
    by (simp add: route_get_internal_def split: if_splits)
  with Some e show ?thesis by (auto simp: fetch_remote_def retry_defs)
qed (simp add: fetch_remote_def)

lemma fetch_backups_unroutable:
  assumes "url_segment cd (to_string cd k) = None"
  shows "fst (fetch_backups hash cd self bs k n) = None"
proof (induction bs arbitrary: n)
  case (Cons b bs)
  then show ?case using fetch_remote_unroutable [OF assms, of hash self b n] by (auto split: prod.split)
qed simp

theorem unroutable_key_is_not_found:
  assumes "url_segment cd (to_string cd k) = None" and "get_local hash cd k (servers n self) = None"
  shows "fst (get hash cd self k n) = None"
proof -
  let ?o = "owners_at self (key_partition hash cd (partitioner (servers n self)) k) n"
  obtain r n1 where e: "fetch_remote hash cd self (?o ! 0) k n = (r, n1)"
    by (cases "fetch_remote hash cd self (?o ! 0) k n")
  have "r = Inr None \<or> (\<exists>x. r = Inl x)" using fetch_remote_unroutable [OF assms(1), of hash self "?o ! 0" n] e by simp
  then show ?thesis
    using assms(2) e by (auto simp: get_def get_local_def Let_def fetch_backups_unroutable [OF assms(1)])
qed

theorem unroutable_key_is_not_found_witness:
  "let k = [SLASH] in case put_with_op length_hash str_codec (node_addr (lit ''b'')) k (lit ''v'') (lit ''op1'') sample_cluster
   of (r, n') \<Rightarrow> r = Inr () \<and> fst (get length_hash str_codec (node_addr (lit ''a'')) k n') = None \<and>
     fst (get length_hash str_codec (node_addr (lit ''b'')) k n') = Some (lit ''v'')"
proof -
  let ?k = "[SLASH]" and ?a = "node_addr (lit ''a'')" and ?pm = new_partition_manager
  have p: "key_partition length_hash str_codec ?pm ?k = 1"
    using sample_placement(1) by (simp add: key_partition_def str_codec_def get_partition_def length_hash_def lit_simps)
  have pl: "placement three_ids ?pm (key_partition length_hash str_codec ?pm ?k) = [lit ''b'', lit ''c'']"
    by (simp only: p sample_placement)
  have ids: "lit ''a'' \<in> set three_ids" "lit ''b'' \<in> set three_ids" by simp_all
  have b: "lit ''b'' \<notin> set (drop 1 (placement three_ids ?pm (key_partition length_hash str_codec ?pm ?k)))"
    unfolding pl by (simp add: lit_simps)
  from put_step [OF sample_cluster_facts(1) str_codec_ok sample_cluster_facts(2) ids(2) b sample_cluster_facts(3-5)]
  obtain n' where e: "put_with_op length_hash str_codec (node_addr (lit ''b'')) ?k (lit ''v'') (lit ''op1'') sample_cluster = (Inr (), n')"
    and h: "healthy three_ids node_addr ?pm n'"
    and c: "consistent length_hash str_codec three_ids node_addr ?pm n' ([lit ''x'' \<mapsto> lit ''old''](?k \<mapsto> lit ''v''))" by blast
  have "get_local length_hash str_codec ?k (servers n' ?a) = None"
    using consistentD [OF c ids(1), of ?k] healthyD(2) [OF h ids(1)]
    by (simp add: get_local_def pl) (simp add: lit_simps)
  moreover have "url_segment str_codec (to_string str_codec ?k) = None" by (simp add: str_codec_def)
  moreover have "fst (get length_hash str_codec (node_addr (lit ''b'')) ?k n') = Some (lit ''v'')"
    using consistentD [OF c ids(2), of ?k] healthyD(2) [OF h ids(2)] by (simp add: get_def Let_def pl)
  ultimately show ?thesis using unroutable_key_is_not_found [of str_codec ?k length_hash n' ?a] e by simp
qed

subsection \<open>Retried writes\<close>

text \<open>C17: a node carries an operation out at most once: whatever the first put with an operation id came to,
  Ok or an error, a second put with that id at the same node is answered Ok and does nothing, not
  even when it brings another key or value. So a client that retries a failed write with its
  operation id is told that it succeeded.\<close>
theorem second_put_is_ignored:
  assumes "put_with_op hash cd self k v op n = (r, n')"
  shows "put_with_op hash cd self k' v' op n' = (Inr (), n')"
proof -
  have "dm_contains_key (processed_ops (servers n' self)) op"
    using seen_put_with_op [of op self hash cd k v n] assms by (simp add: seen_def)
  then show ?thesis by (simp add: put_with_op_def should_process_again Let_def)
qed

text \<open>In the example the primary of the key is down: the first attempt fails, the second is acknowledged
  without anybody having stored the value.\<close>
theorem second_put_is_ignored_witness:
  "case put_with_op length_hash str_codec (node_addr (lit ''a'')) (lit ''x'') (lit ''new'') (lit ''op1'') without_b
   of (r, n') \<Rightarrow> r = Inl TransportError \<and>
     put_with_op length_hash str_codec (node_addr (lit ''a'')) (lit ''x'') (lit ''new'') (lit ''op1'') n' = (Inr (), n') \<and>
     peek (servers n' (node_addr (lit ''c''))) 1 (lit ''x'') = Some (lit ''old'')"
proof -
  let ?a = "node_addr (lit ''a'')" and ?b = "node_addr (lit ''b'')"
  have h: "healthy three_ids node_addr new_partition_manager without_b"
    using sample_cluster_facts(1) by (rule healthy_cong) (simp add: without_b_def)
  have a: "lit ''a'' \<in> set three_ids" and b: "lit ''b'' \<in> set three_ids" and c: "lit ''c'' \<in> set three_ids"
    and ab: "lit ''a'' \<noteq> lit ''b''" and ac: "?a \<noteq> node_addr (lit ''c'')"
    by (simp_all add: node_addr_def lit_simps)
  have new: "\<not> dm_contains_key (processed_ops (servers without_b ?a)) (lit ''op1'')"
    using sample_cluster_facts(3) a unfolding fresh_op_def without_b_def by simp
  let ?n1 = "set_server ?a (snd (should_process (lit ''op1'') (servers without_b ?a))) without_b"
  have h1: "healthy three_ids node_addr new_partition_manager ?n1" using h by (rule healthy_cong) simp
  obtain node where node: "get_member (membership (servers ?n1 ?a)) (lit ''b'') = Some node"
    and na: "http_addr node = ?b" using healthy_member [OF h1 a b] by blast
  have down: "\<not> listening ?n1 ?b" by (simp add: without_b_def)
  obtain n2 where e: "put_with_op length_hash str_codec ?a (lit ''x'') (lit ''new'') (lit ''op1'') without_b
      = (Inl TransportError, n2)" and sv: "servers n2 = servers ?n1"
  proof -
    let ?req = "\<lparr>req_partition = 1, req_op_id = lit ''op1'', req_key = to_string str_codec (lit ''x''),
      req_value_json = lit ''new''\<rparr>"
    from retry_3_down [OF down, of "handle_forward_put str_codec" 150 ?req] obtain n2 where
      "retry_loop (handle_forward_put str_codec) 3 150 ?b ?req ?n1 = (Inl TransportError, n2)"
      "servers n2 = servers ?n1" by blast
    moreover have "to_json str_codec (lit ''new'') = Some (lit ''new'')" by (simp add: str_codec_def)
    ultimately have "forward_put str_codec ?a (lit ''b'') 1 (lit ''op1'') (lit ''x'') (lit ''new'') ?n1
        = (Inl TransportError, n2)"
      using node na by (simp add: forward_put_def retry_defs)
    with that [of n2] put_with_op_other [OF h sample_pl a ab new, of "lit ''new''"] sample_placement(1)
      \<open>servers n2 = servers ?n1\<close>
    show ?thesis by simp
  qed
  have "peek (servers n2 (node_addr (lit ''c''))) 1 (lit ''x'')
      = peek (servers sample_cluster (node_addr (lit ''c''))) 1 (lit ''x'')"
    using ac by (simp add: sv without_b_def)
  also have "\<dots> = Some (lit ''old'')"
    using consistentD [OF sample_cluster_facts(2) c, of "lit ''x''"] by (simp add: sample_placement)
  finally show ?thesis
    using e second_put_is_ignored [OF e, of "lit ''x''" "lit ''new''"] by simp
qed

text \<open>C18: a primary whose replication of a forwarded write failed answers the retry of the forwarding node
  with success, without replicating: the 500 of the first attempt, if its reply is lost, turns into
  a 200.\<close>
theorem forwarded_retry_masks_failure:
  assumes "handle_forward_put cd a req n = ((INTERNAL_SERVER_ERROR, False), n')"
  shows "handle_forward_put cd a req n' = ((OK, True), n')"
proof -
  have "dm_contains_key (processed_ops (servers n' a)) (req_op_id req)"
    using seen_handle_forward_put [of cd a req n] assms
    by (simp add: seen_def)
  moreover obtain k v where "parse cd (req_key req) = Some k" "from_json cd (req_value_json req) = Some v"
    using assms by (auto simp: handle_forward_put_def split: option.splits)
  ultimately show ?thesis
    by (simp add: handle_forward_put_def store_as_primary_def should_process_again)
qed

definition without_c :: "(str, str) cluster" where
  "without_c = sample_cluster\<lparr>listening := (\<lambda>a. a \<noteq> node_addr (lit ''c''))\<rparr>"

definition sample_request :: write_request where
  "sample_request = \<lparr>req_partition = 1, req_op_id = lit ''op1'', req_key = lit ''x'', req_value_json = lit ''new''\<rparr>"

theorem forwarded_retry_masks_failure_witness:
  "case handle_forward_put str_codec (node_addr (lit ''b'')) sample_request without_c of (r, n') \<Rightarrow>
     r = (INTERNAL_SERVER_ERROR, False) \<and>
     handle_forward_put str_codec (node_addr (lit ''b'')) sample_request n' = ((OK, True), n')"
proof -
  let ?b = "node_addr (lit ''b'')" and ?c = "node_addr (lit ''c'')"
  have h: "healthy three_ids node_addr new_partition_manager without_c"
    using sample_cluster_facts(1) by (rule healthy_cong) (simp add: without_c_def)
  have b: "lit ''b'' \<in> set three_ids" and c: "lit ''c'' \<in> set three_ids" by simp_all
  have new: "\<not> dm_contains_key (processed_ops (servers without_c ?b)) (lit ''op1'')"
    using sample_cluster_facts(3) b unfolding fresh_op_def without_c_def by simp
  let ?n1 = "set_server ?b (store_local 1 (lit ''x'') (lit ''new'')
      (snd (should_process (lit ''op1'') (servers without_c ?b)))) without_c"
  have h1: "healthy three_ids node_addr new_partition_manager ?n1" using h by (rule healthy_cong) simp
  obtain node where node: "get_member (membership (servers ?n1 ?b)) (lit ''c'') = Some node"
    and na: "http_addr node = ?c" using healthy_member [OF h1 b c] by blast
  have down: "\<not> listening ?n1 ?c" by (simp add: without_c_def)
  let ?req = "\<lparr>req_partition = 1, req_op_id = lit ''op1'', req_key = to_string str_codec (lit ''x''),
    req_value_json = lit ''new''\<rparr>"
  from retry_3_down [OF down, of "serve (handle_replicate str_codec)" 150 ?req] obtain n2 where
    "retry_loop (serve (handle_replicate str_codec)) 3 150 ?c ?req ?n1 = (Inl TransportError, n2)"
    by blast
  moreover have "to_json str_codec (lit ''new'') = Some (lit ''new'')" by (simp add: str_codec_def)
  ultimately have "replicate_all str_codec ?b [lit ''c''] 1 (lit ''op1'') (lit ''x'') (lit ''new'') ?n1
      = (Inl TransportError, n2)"
    using node na by (simp add: replicate_to_backup_def retry_defs)
  then have "store_as_primary str_codec ?b 1 (lit ''op1'') (lit ''x'') (lit ''new'') without_c
      = (Inl TransportError, n2)"
    by (simp only: store_as_primary_new [OF h sample_placement(2) new])
  then have e: "handle_forward_put str_codec ?b sample_request without_c = ((INTERNAL_SERVER_ERROR, False), n2)"
    by (simp add: handle_forward_put_def sample_request_def str_codec_def)
  then show ?thesis using forwarded_retry_masks_failure [OF e] by simp
qed

end
