(* ===== verification/MapContent.thy ===== *)
theory MapContent
  imports MapGuarantees
begin

text \<open>
  What a distributed map does when its nodes are up, agree on the members and lose no message, with no
  assumption that the copies agree: \<open>running\<close> says that the node \<open>j\<close> holds \<open>C j k\<close> under the key \<open>k\<close>,
  for any table \<open>C\<close> of copies. A put at any node, a backup included, turns \<open>C\<close> into
  \<open>C\<close> with \<open>written\<close>, and a get returns \<open>visible\<close>: both are exact, so the theorems about whole handlers
  need no restriction to nodes that may coordinate a write.
\<close>

abbreviation owners_of :: "(str \<Rightarrow> u64) \<Rightarrow> ('k, 'v) codec \<Rightarrow> str list \<Rightarrow> partition_manager \<Rightarrow> 'k \<Rightarrow> str list" where
  "owners_of hash cd ids pm k \<equiv> placement ids pm (key_partition hash cd pm k)"

primrec first_copy :: "'v option list \<Rightarrow> 'v option" where
  "first_copy [] = None"
| "first_copy (x # xs) = (case x of Some v \<Rightarrow> Some v | None \<Rightarrow> first_copy xs)"

text \<open>What a read at \<open>i\<close> returns, for the owners \<open>own\<close> of the key and the copies \<open>f\<close>.\<close>

definition visible :: "str list \<Rightarrow> (str \<Rightarrow> 'v option) \<Rightarrow> str \<Rightarrow> 'v option" where
  "visible own f i = (case f i of Some v \<Rightarrow> Some v | None \<Rightarrow> first_copy (map f own))"

text \<open>Node \<open>j\<close> is an owner that gets the value of a put at \<open>i\<close>: all are, but a backup that coordinates.\<close>

definition receives :: "str list \<Rightarrow> str \<Rightarrow> str \<Rightarrow> bool" where
  "receives own i j \<longleftrightarrow> j \<in> set own \<and> \<not> (j = i \<and> i \<in> set (drop 1 own))"

definition written :: "str list \<Rightarrow> str \<Rightarrow> 'v \<Rightarrow> (str \<Rightarrow> 'v option) \<Rightarrow> str \<Rightarrow> 'v option" where
  "written own i v f j = (if receives own i j then Some v else f j)"

definition running :: "(str \<Rightarrow> u64) \<Rightarrow> ('k, 'v) codec \<Rightarrow> str list \<Rightarrow> (str \<Rightarrow> sock_addr) \<Rightarrow> partition_manager
    \<Rightarrow> (str \<Rightarrow> 'k \<Rightarrow> 'v option) \<Rightarrow> ('k, 'v) cluster \<Rightarrow> bool" where
  "running hash cd ids addr pm C n \<longleftrightarrow> healthy ids addr pm n \<and> codec_ok cd \<and> reliable n \<and> all_listening ids addr n \<and>
     (\<forall>j \<in> set ids. \<forall>k. peek (servers n (addr j)) (key_partition hash cd pm k) k = C j k)"

lemma runningD:
  assumes "running hash cd ids addr pm C n"
  shows "healthy ids addr pm n" and "codec_ok cd" and "reliable n" and "all_listening ids addr n"
    and "j \<in> set ids \<Longrightarrow> peek (servers n (addr j)) (key_partition hash cd pm k) k = C j k"
  using assms by (simp_all add: running_def)

lemma running_same:
  "running hash cd ids addr pm C n \<Longrightarrow> servers n' = servers n \<Longrightarrow> same_network n n' \<Longrightarrow>
     running hash cd ids addr pm C n'"
  using healthy_servers [of ids addr pm n n']
  by (simp add: running_def reliable_same all_listening_same)

lemma consistent_running:
  assumes "healthy ids addr pm n" and "codec_ok cd" and "reliable n" and "all_listening ids addr n"
    and "consistent hash cd ids addr pm n A"
  shows "running hash cd ids addr pm
    (\<lambda>j k. if j \<in> set (placement ids pm (key_partition hash cd pm k)) then A k else None) n"
  using assms by (simp add: running_def consistentD)

subsection \<open>Reading\<close>

lemma fetch_remote_running:
  assumes r: "running hash cd ids addr pm C n" and i: "i \<in> set ids" and b: "b \<in> set ids"
    and url: "url_segment cd (to_string cd k) = Some (to_string cd k)"
  shows "\<exists>n'. fetch_remote hash cd (addr i) b k n = (Inr (C b k), n') \<and> servers n' = servers n \<and> same_network n n'"
proof -
  note d = runningD [OF r]
  have "\<exists>t<3. fate_at n (addr b) t = Delivered"
    using some_try_delivered [OF d(3), of "addr b"] d(4) b by (simp add: all_listening_def)
  with fetch_remote_effect [OF d(1,2) i b url, where hash = hash] d(5) [OF b, of k] show ?thesis by simp
qed

lemma fetch_backups_running:
  assumes i: "i \<in> set ids" and url: "url_segment cd (to_string cd k) = Some (to_string cd k)"
  shows "running hash cd ids addr pm C n \<Longrightarrow> set bs \<subseteq> set ids \<Longrightarrow>
    \<exists>n'. fetch_backups hash cd (addr i) bs k n = (first_copy (map (\<lambda>b. C b k) bs), n') \<and>
      servers n' = servers n \<and> same_network n n'"
proof (induction bs arbitrary: n)
  case Nil
  then show ?case by simp
next
  case (Cons b bs)
  have b: "b \<in> set ids" and bs: "set bs \<subseteq> set ids" using Cons.prems(2) by simp_all
  obtain n1 where f: "fetch_remote hash cd (addr i) b k n = (Inr (C b k), n1)"
    and n1: "servers n1 = servers n" "same_network n n1"
    using fetch_remote_running [OF Cons.prems(1) i b url] by blast
  show ?case
  proof (cases "C b k")
    case None
    obtain n2 where "fetch_backups hash cd (addr i) bs k n1 = (first_copy (map (\<lambda>b. C b k) bs), n2)"
      "servers n2 = servers n1" "same_network n1 n2"
      using Cons.IH [OF running_same [OF Cons.prems(1) n1] bs] by blast
    with None f n1 show ?thesis by (auto intro: same_network_trans)
  qed (use f n1 in auto)
qed

lemma running_get:
  assumes r: "running hash cd ids addr pm C n" and i: "i \<in> set ids"
    and url: "url_segment cd (to_string cd k) = Some (to_string cd k)"
  shows "\<exists>n'. get hash cd (addr i) k n =
      (visible (placement ids pm (key_partition hash cd pm k)) (\<lambda>j. C j k) i, n') \<and>
    servers n' = servers n \<and> running hash cd ids addr pm C n'"
proof -
  let ?p = "key_partition hash cd pm k" and ?f = "\<lambda>j. C j k"
  let ?own = "placement ids pm ?p"
  note d = runningD [OF r]
  note at = healthyD [OF d(1) i]
  obtain q bs where own: "?own = q # bs" and q: "q \<in> set ids" "set bs \<subseteq> set ids"
    using placement_cases [OF d(1) i] by metis
  have own_at: "owners_at (addr i) ?p n = q # bs" using at(3) own by simp
  have res: "\<exists>n'. get hash cd (addr i) k n = (visible ?own ?f i, n')"
  proof (cases "C i k")
    case (Some v)
    then show ?thesis using d(5) [OF i, of k] at(2) by (simp add: get_def Let_def visible_def)
  next
    case None
    show ?thesis
    proof (cases "q = i")
      case True
      with fetch_backups_running [OF i url r q(2)] None d(5) [OF i, of k] at(2,4) own_at own
      show ?thesis by (auto simp: get_def Let_def visible_def)
    next
      case False
      obtain n1 where f: "fetch_remote hash cd (addr i) q k n = (Inr (C q k), n1)"
        and n1: "servers n1 = servers n" "same_network n n1"
        using fetch_remote_running [OF r i q(1) url] by blast
      from fetch_backups_running [OF i url running_same [OF r n1] q(2)]
      show ?thesis using f False None d(5) [OF i, of k] at(2,4) own_at own
        by (auto simp: get_def Let_def visible_def split: option.split)
    qed
  qed
  then obtain n' where e: "get hash cd (addr i) k n = (visible ?own ?f i, n')" by blast
  have sv: "servers n' = servers n" using get_servers [of hash cd "addr i" k n] e by simp
  have "same_network n n'" using get_network [of n hash cd "addr i" k] e by simp
  with e sv running_same [OF r sv] show ?thesis by blast
qed

subsection \<open>Writing\<close>

lemma running_put:
  assumes r: "running hash cd ids addr pm C n" and i: "i \<in> set ids" and op: "fresh_op op ids addr n"
  shows "\<exists>n'. put_with_op hash cd (addr i) k v op n = (Inr (), n') \<and>
    running hash cd ids addr pm
      (\<lambda>j k'. if k' = k then written (placement ids pm (key_partition hash cd pm k)) i v (\<lambda>j. C j k) j
        else C j k') n' \<and>
    (\<forall>op'. op' \<noteq> op \<and> fresh_op op' ids addr n \<longrightarrow> fresh_op op' ids addr n')"
proof -
  let ?p = "key_partition hash cd pm k"
  let ?own = "placement ids pm ?p" and ?m = "snd (should_process op (servers n (addr i)))"
  note d = runningD [OF r]
  obtain q bs where pl: "?own = q # bs" and q: "q \<in> set ids" "set bs \<subseteq> set ids" "q \<notin> set bs"
    using placement_cases [OF d(1) i] by metis
  let ?sv = "if i = q then servers n else (servers n)(addr i := ?m)"
  obtain n' where e: "put_with_op hash cd (addr i) k v op n = (Inr (), n')" and net: "same_network n n'"
    and sv: "servers n' = upd_at (addr ` set (q # bs)) (store_replica ?p op k v) ?sv"
    using put_effect [OF d(1,2) pl i op d(3,4), of v] by blast
  have new: "\<not> dm_contains_key (processed_ops (servers n (addr j))) op" if "j \<in> set ids" for j
    using op that by (simp add: fresh_op_def)
  have copies: "peek (servers n' (addr j)) (key_partition hash cd pm k') k' =
      (if k' = k then written ?own i v (\<lambda>j. C j k) j else C j k')" if j: "j \<in> set ids" for j k'
  proof -
    have mem: "addr j \<in> addr ` set (q # bs) \<longleftrightarrow> j \<in> set (q # bs)"
    proof
      assume "addr j \<in> addr ` set (q # bs)"
      then obtain j' where "addr j = addr j'" "j' \<in> set (q # bs)" by blast
      with addr_eq_iff [OF d(1) j, of j'] q show "j \<in> set (q # bs)" by auto
    qed blast
    have at: "?sv (addr j) = (if i = j \<and> i \<noteq> q then ?m else servers n (addr j))"
      using addr_eq_iff [OF d(1) j i] by auto
    have local: "peek (?sv (addr j)) = peek (servers n (addr j))" by (simp add: at)
    show ?thesis
    proof (cases "j \<in> set (q # bs)")
      case False
      then have "servers n' (addr j) = ?sv (addr j)" using mem by (simp only: sv upd_at_def if_False)
      with local d(5) [OF j, of k'] False pl show ?thesis by (simp add: written_def receives_def)
    next
      case True
      then have st: "servers n' (addr j) = store_replica ?p op k v (?sv (addr j))"
        using mem by (simp only: sv upd_at_def if_True)
      show ?thesis
      proof (cases "i = j \<and> i \<noteq> q")
        case self: True
        then have "servers n' (addr j) = store_replica ?p op k v ?m" using st at
          by (metis (no_types, lifting))
        then have "servers n' (addr j) = ?m" by (simp add: store_replica_again)
        moreover have "\<not> receives ?own i j" using self True pl by (auto simp: receives_def)
        ultimately show ?thesis using self d(5) [OF j, of k'] by (simp add: written_def)
      next
        case other: False
        then have "servers n' (addr j) = store_replica ?p op k v (servers n (addr j))" using st at by (simp only: if_False)
        moreover have "receives ?own i j" using other True pl q(3) by (auto simp: receives_def)
        ultimately show ?thesis using d(5) [OF j, of k'] new [OF j]
          by (auto simp: written_def peek_store_replica_new)
      qed
    qed
  qed
  have "healthy ids addr pm n'" using d(1) by (rule healthy_cong) (simp add: sv)
  then have "running hash cd ids addr pm (\<lambda>j k'. if k' = k then written ?own i v (\<lambda>j. C j k) j else C j k') n'"
    using copies d net by (simp add: running_def reliable_same all_listening_same)
  moreover have "fresh_op op' ids addr n'" if "op' \<noteq> op" "fresh_op op' ids addr n" for op'
    using fresh_after_put [OF sv that] .
  ultimately show ?thesis using e by blast
qed

subsection \<open>Reading after writing\<close>

lemma first_copy_primary: "f q = Some v \<Longrightarrow> first_copy (map f (q # bs)) = Some v"
  by simp

text \<open>After a put at \<open>i\<close> of a key that only owners had, every node sees the new value, but for a backup that
  coordinated the put and keeps seeing its own copy if it has one.\<close>

lemma visible_written:
  assumes "own \<noteq> []" and "distinct own" and "l \<in> set own \<or> f l = None"
  shows "visible own (written own i v f) l =
    (if l = i \<and> i \<in> set (drop 1 own) then Some (case f i of Some u \<Rightarrow> u | None \<Rightarrow> v) else Some v)"
proof -
  obtain q bs where own: "own = q # bs" using assms(1) by (cases own) simp_all
  then have q: "written own i v f q = Some v" using assms(2) by (auto simp: written_def receives_def)
  have first: "first_copy (map (written own i v f) own) = Some v"
    using first_copy_primary [of "written own i v f", OF q, of bs] own by simp
  show ?thesis
  proof (cases "l = i \<and> i \<in> set (drop 1 own)")
    case True
    then have "written own i v f l = f l" by (simp add: written_def receives_def)
    with True first show ?thesis by (cases "f l") (auto simp: visible_def)
  next
    case False
    then have "written own i v f l = (if l \<in> set own then Some v else f l)"
      by (auto simp: written_def receives_def)
    with False assms(3) first show ?thesis by (auto simp: visible_def)
  qed
qed

end
