(* ===== verification/AntiEntropy.thy ===== *)
theory AntiEntropy
  imports MapContent
begin

text \<open>
  What the anti-entropy pass of \<open>src/src/main.rs\<close> (\<open>sync_partitions\<close>) does for the distributed maps: the
  effect of a pass at one node, what a node that starts empty recovers, which entries a change of the
  members hides, convergence of copies that differ, and how two writes that overlap make copies
  differ in the first place.
\<close>

subsection \<open>One pass\<close>

lemma target_partitions_iff:
  assumes "healthy ids addr (new_with_replication rf) n" and "i \<in> set ids"
  shows "p \<in> target_partitions (new_with_replication rf) (membership (servers n (addr i))) \<longleftrightarrow>
    p < 256 \<and> i \<in> set (placement ids (new_with_replication rf) p)"
proof -
  let ?pm = "new_with_replication rf" and ?s = "membership (servers n (addr i))"
  have own: "get_owners ?pm ?s p = placement ids ?pm p"
    using healthyD(1) [OF assms] assms(1) by (simp add: knows_owners healthy_def)
  have loc: "nid (local_node ?s) = i" using healthyD(4) [OF assms] .
  let ?own = "placement ids ?pm p"
  have "p \<in> set (my_primary_partitions ?pm ?s) \<longleftrightarrow> p < 256 \<and> ?own \<noteq> [] \<and> ?own ! 0 = i"
    by (simp add: my_primary_partitions_def Let_def set_partitions own loc) (simp add: new_with_replication_def)
  moreover have "p \<in> set (my_backup_partitions ?pm ?s) \<longleftrightarrow> p < 256 \<and> i \<in> set (drop 1 ?own)"
    by (simp add: my_backup_partitions_def set_partitions own loc list_ex_iff) (simp add: new_with_replication_def)
  moreover have "i \<in> set ?own \<longleftrightarrow> ?own \<noteq> [] \<and> ?own ! 0 = i \<or> i \<in> set (drop 1 ?own)"
    by (cases ?own) auto
  ultimately show ?thesis unfolding target_partitions_def by blast
qed

lemma key_partition_less: "key_partition hash cd (new_with_replication rf) k < 256"
proof -
  have "unat (key_partition hash cd (new_with_replication rf) k) = unat (ucast (hash (to_string cd k)) :: u32) mod 256"
    by (simp add: key_partition_def get_partition_def new_with_replication_def unat_mod)
  then show ?thesis by (simp add: word_less_nat_alt)
qed

lemma two_owners: "2 \<le> rf \<Longrightarrow> 2 \<le> length ids \<Longrightarrow> 2 \<le> length (placement ids (new_with_replication rf) p)"
  by (simp add: placement_def new_with_replication_def)

lemma sync_pass_effect:
  assumes "healthy ids addr (new_with_replication rf) n" and "\<And>j. j \<in> set ids \<Longrightarrow> dmap_wf (servers n (addr j))"
    and "codec_ok cd" and "i \<in> set ids" and "2 \<le> rf" and "2 \<le> length ids"
    and "reliable n" and "all_listening ids addr n" and "\<And>S. set (order S) = S"
  shows "\<exists>m n'. sync_partitions cd order (addr i) n = n' \<and> servers n' = (servers n)(addr i := m) \<and>
    same_network n n' \<and> healthy ids addr (new_with_replication rf) n' \<and> dmap_wf m \<and>
    (\<forall>p. peek m p = (if p < 256 \<and> i \<in> set (placement ids (new_with_replication rf) p)
       then synced i (placement ids (new_with_replication rf) p)
         (peek (servers n (addr (sync_source i (placement ids (new_with_replication rf) p)))) p)
         (peek (servers n (addr i)) p)
       else peek (servers n (addr i)) p))"
proof -
  let ?pm = "new_with_replication rf"
  let ?ps = "order (target_partitions ?pm (membership (servers n (addr i))))"
  have ps: "p \<in> set ?ps \<longleftrightarrow> p < 256 \<and> i \<in> set (placement ids ?pm p)" for p
    using target_partitions_iff [OF assms(1,4), of p] assms(9) by simp
  have sync: "sync_partitions cd order (addr i) n = fold (sync_partition cd (addr i)) ?ps n"
    by (simp add: sync_partitions_def Let_def healthyD(2) [OF assms(1,4)])
  from sync_loop_effect [OF assms(3,4,1,7,8,2) two_owners [OF assms(5,6)], of ?ps] obtain m n' where
    e: "fold (sync_partition cd (addr i)) ?ps n = n'" and sv: "servers n' = (servers n)(addr i := m)"
    and fr: "membership m = membership (servers n (addr i))" "partitioner m = partitioner (servers n (addr i))"
    and rest: "same_network n n'" "dmap_wf m" "\<forall>p. peek m p = (if p \<in> set ?ps
         then synced i (placement ids ?pm p) (peek (servers n (addr (sync_source i (placement ids ?pm p)))) p)
           (peek (servers n (addr i)) p)
         else peek (servers n (addr i)) p)" by blast
  have "healthy ids addr ?pm n'" using assms(1) by (rule healthy_cong) (simp add: sv fr)
  with e sv rest show ?thesis unfolding sync ps by blast
qed

subsection \<open>When the members change\<close>

text \<open>
  The entries lie where the members \<open>ids\<close> put them, and the nodes now agree on the members \<open>ids'\<close>: a node has
  joined, has gone, or has been restarted, for a process draws a new id whenever it starts. \<open>placed\<close> says
  so for the nodes \<open>J\<close>.
\<close>

definition placed :: "(str \<Rightarrow> u64) \<Rightarrow> ('k, 'v) codec \<Rightarrow> str list \<Rightarrow> (str \<Rightarrow> sock_addr) \<Rightarrow> partition_manager
    \<Rightarrow> str set \<Rightarrow> ('k \<Rightarrow> 'v option) \<Rightarrow> ('k, 'v) cluster \<Rightarrow> bool" where
  "placed hash cd ids addr pm J A n \<longleftrightarrow>
     (\<forall>j \<in> J. \<forall>k. peek (servers n (addr j)) (key_partition hash cd pm k) k =
        (if j \<in> set (owners_of hash cd ids pm k) then A k else None))"

text \<open>C5: what a node recovers that has started with an empty store, be it new or restarted, in its first
  anti-entropy pass, when no request is lost: of a partition that it owns among the new members it takes over
  everything, provided that the node it asks (the new primary or, if it is the primary itself, the first
  backup) was an owner before; otherwise it gets nothing. No other node changes.\<close>
theorem starting_node_recovers:
  assumes "healthy ids' addr (new_with_replication rf) n" and "\<And>j. j \<in> set ids' \<Longrightarrow> dmap_wf (servers n (addr j))"
    and "d \<in> set ids'" and "local_data (servers n (addr d)) = []"
    and "placed hash cd ids addr (new_with_replication rf) (set ids' - {d}) A n"
    and "codec_ok cd" and "2 \<le> rf" and "2 \<le> length ids'"
    and "reliable n" and "all_listening ids' addr n" and "\<And>S. set (order S) = S"
  shows "peek (servers (sync_partitions cd order (addr d) n) (addr d)) (key_partition hash cd (new_with_replication rf) k) k =
      (if d \<in> set (owners_of hash cd ids' (new_with_replication rf) k) \<and>
          sync_source d (owners_of hash cd ids' (new_with_replication rf) k)
            \<in> set (owners_of hash cd ids (new_with_replication rf) k)
       then A k else None) \<and>
    (\<forall>j \<in> set ids' - {d}. servers (sync_partitions cd order (addr d) n) (addr j) = servers n (addr j))"
proof -
  let ?pm = "new_with_replication rf" and ?p = "key_partition hash cd (new_with_replication rf) k"
  let ?own' = "owners_of hash cd ids' (new_with_replication rf) k" and ?own = "owners_of hash cd ids (new_with_replication rf) k"
  from sync_pass_effect [OF assms(1,2,6,3,7-11)] obtain m n' where
    e: "sync_partitions cd order (addr d) n = n'" and sv: "servers n' = (servers n)(addr d := m)"
    and pk: "peek m ?p = (if ?p < 256 \<and> d \<in> set ?own'
       then synced d ?own' (peek (servers n (addr (sync_source d ?own'))) ?p) (peek (servers n (addr d)) ?p)
       else peek (servers n (addr d)) ?p)" by blast
  have empty: "peek (servers n (addr d)) ?p = (\<lambda>_. None)" by (rule ext) (simp add: peek_def assms(4))
  have "sync_source d ?own' \<in> set ids' - {d}"
    using sync_source_in [OF assms(1) two_owners [OF assms(7,8)], of d ?p] by blast
  then have "peek (servers n (addr (sync_source d ?own'))) ?p k = (if sync_source d ?own' \<in> set ?own then A k else None)"
    using assms(5) unfolding placed_def by blast
  moreover have "servers n' (addr j) = servers n (addr j)" if "j \<in> set ids' - {d}" for j
    using that addr_eq_iff [OF assms(1) _ assms(3), of j] by (simp add: sv)
  ultimately show ?thesis
    unfolding e using key_partition_less [of hash cd rf k] by (simp add: sv pk empty synced_empty)
qed

text \<open>The passes at some nodes, when no new owner of a key has it, bring it to none of them.\<close>

lemma passes_bring_nothing:
  assumes "codec_ok cd" and "2 \<le> rf" and "2 \<le> length ids" and "\<And>S. set (order S) = S"
  shows "healthy ids addr (new_with_replication rf) n \<Longrightarrow> (\<And>j. j \<in> set ids \<Longrightarrow> dmap_wf (servers n (addr j))) \<Longrightarrow>
    reliable n \<Longrightarrow> all_listening ids addr n \<Longrightarrow> set js \<subseteq> set ids \<Longrightarrow>
    (\<And>j. j \<in> set (placement ids (new_with_replication rf) p) \<Longrightarrow> peek (servers n (addr j)) p k = None) \<Longrightarrow>
    \<exists>n'. fold (\<lambda>i. sync_partitions cd order (addr i)) js n = n' \<and> same_network n n' \<and>
      healthy ids addr (new_with_replication rf) n' \<and>
      (\<forall>j \<in> set ids. peek (servers n' (addr j)) p k = peek (servers n (addr j)) p k)"
proof (induction js arbitrary: n)
  case (Cons i js)
  let ?pm = "new_with_replication rf" and ?own = "placement ids (new_with_replication rf) p"
  have i: "i \<in> set ids" using Cons.prems(5) by simp
  from sync_pass_effect [OF Cons.prems(1,2) assms(1) i assms(2,3) Cons.prems(3,4) assms(4)] obtain m n1 where
    e: "sync_partitions cd order (addr i) n = n1" and sv: "servers n1 = (servers n)(addr i := m)"
    and nw: "same_network n n1" and h1: "healthy ids addr ?pm n1" and wf: "dmap_wf m"
    and pk: "peek m p = (if p < 256 \<and> i \<in> set ?own
       then synced i ?own (peek (servers n (addr (sync_source i ?own))) p) (peek (servers n (addr i)) p)
       else peek (servers n (addr i)) p)" by blast
  have "sync_source i ?own \<in> set ?own" if "i \<in> set ?own"
  proof -
    have "?own \<noteq> []" "1 < length ?own" using two_owners [OF assms(2,3), of p] by auto
    then show ?thesis by (simp add: sync_source_def)
  qed
  then have "peek m p k = peek (servers n (addr i)) p k"
    using Cons.prems(6) by (auto simp: pk synced_def map_add_def)
  then have same: "peek (servers n1 (addr j)) p k = peek (servers n (addr j)) p k" if "j \<in> set ids" for j
    using addr_eq_iff [OF Cons.prems(1) that i] by (simp add: sv)
  have "dmap_wf (servers n1 (addr j))" if "j \<in> set ids" for j using Cons.prems(2) [OF that] wf by (simp add: sv)
  moreover have "reliable n1" "all_listening ids addr n1"
    using Cons.prems(3,4) nw by (simp_all add: reliable_same all_listening_same)
  moreover have "peek (servers n1 (addr j)) p k = None" if "j \<in> set ?own" for j
    using same [of j] Cons.prems(6) [OF that] set_placement [of ids ?pm p] that by auto
  ultimately obtain n' where "fold (\<lambda>i. sync_partitions cd order (addr i)) js n1 = n'" "same_network n1 n'"
    "healthy ids addr ?pm n'" "\<forall>j \<in> set ids. peek (servers n' (addr j)) p k = peek (servers n1 (addr j)) p k"
    using Cons.IH [OF h1] Cons.prems(5) by auto
  with e same nw show ?case by (auto intro: same_network_trans)
qed simp

text \<open>C39: a change of the members can hide entries for good: when the new owners of a partition are none of its
  old ones, no number of anti-entropy passes, at any nodes in any order, brings its entries to them. A key
  that is stored is then found at the old owners only, and every other node answers that there is none.\<close>
theorem membership_change_hides_entries:
  assumes "healthy ids' addr (new_with_replication rf) n" and "\<And>j. j \<in> set ids' \<Longrightarrow> dmap_wf (servers n (addr j))"
    and "placed hash cd ids addr (new_with_replication rf) (set ids') A n"
    and "set (owners_of hash cd ids (new_with_replication rf) k) \<inter> set (owners_of hash cd ids' (new_with_replication rf) k) = {}"
    and "codec_ok cd" and "2 \<le> rf" and "2 \<le> length ids'" and "reliable n" and "all_listening ids' addr n"
    and "\<And>S. set (order S) = S" and "set js \<subseteq> set ids'" and "l \<in> set ids'"
    and "url_segment cd (to_string cd k) = Some (to_string cd k)"
  shows "fst (get hash cd (addr l) k (fold (\<lambda>i. sync_partitions cd order (addr i)) js n)) =
    (if l \<in> set (owners_of hash cd ids (new_with_replication rf) k) then A k else None)"
proof -
  let ?pm = "new_with_replication rf" and ?p = "key_partition hash cd (new_with_replication rf) k"
  let ?own' = "owners_of hash cd ids' (new_with_replication rf) k" and ?own = "owners_of hash cd ids (new_with_replication rf) k"
  have before: "peek (servers n (addr j)) ?p k = (if j \<in> set ?own then A k else None)" if "j \<in> set ids'" for j
    using assms(3) that unfolding placed_def by blast
  have none: "peek (servers n (addr j)) ?p k = None" if "j \<in> set ?own'" for j
  proof -
    have "j \<in> set ids'" "j \<notin> set ?own" using that assms(4) set_placement [of ids' ?pm ?p] by blast+
    then show ?thesis using before by simp
  qed
  from passes_bring_nothing [OF assms(5-7,10,1,2,8,9,11) none] obtain n' where
    e: "fold (\<lambda>i. sync_partitions cd order (addr i)) js n = n'" and nw: "same_network n n'"
    and h: "healthy ids' addr ?pm n'"
    and same: "\<forall>j \<in> set ids'. peek (servers n' (addr j)) ?p k = peek (servers n (addr j)) ?p k" by blast
  let ?C = "\<lambda>j k. peek (servers n' (addr j)) (key_partition hash cd ?pm k) k"
  have "running hash cd ids' addr ?pm ?C n'"
    using h assms(5,8,9) nw by (simp add: running_def reliable_same all_listening_same)
  from running_get [OF this assms(12,13)] have
    g: "fst (get hash cd (addr l) k n') = visible ?own' (\<lambda>j. ?C j k) l" by force
  have "first_copy (map (\<lambda>j. ?C j k) own) = None" if "set own \<subseteq> set ?own'" for own
    using that none same set_placement [of ids' ?pm ?p] by (induction own) auto
  then show ?thesis
    unfolding e g using same before [OF assms(12)] assms(12) by (auto simp: visible_def split: option.split)
qed

text \<open>The examples: three nodes hold two copies of an entry, and a fourth node \<open>d\<close> starts. Of a key of length 2,
  \<open>d\<close> is a new owner next to the old owner \<open>c\<close>. A key of length 6 belonged to \<open>a\<close> and \<open>b\<close> and now
  belongs to \<open>c\<close> and \<open>d\<close>.\<close>

definition four_ids :: "str list" where
  "four_ids = lit ''d'' # three_ids"

definition joined_cluster :: "str \<Rightarrow> (str, str) cluster" where
  "joined_cluster k = quiet_net (\<lambda>a. (loaded_node three_ids (new_with_replication 2)
     (key_partition length_hash str_codec (new_with_replication 2) k) k (lit ''old'') (fst a))
     \<lparr>membership := stable_view four_ids (fst a)\<rparr>)"

lemma four_ids_simps [simp]:
  "distinct four_ids" "set four_ids = {lit ''a'', lit ''b'', lit ''c'', lit ''d''}" "length four_ids = 4"
  "sort four_ids = [lit ''a'', lit ''b'', lit ''c'', lit ''d'']"
  by (auto simp: four_ids_def three_ids_def lit_simps)

lemma joined_cluster_facts:
  "healthy four_ids node_addr (new_with_replication 2) (joined_cluster k)"
  "dmap_wf (servers (joined_cluster k) a)"
  "placed length_hash str_codec three_ids node_addr (new_with_replication 2) J [k \<mapsto> lit ''old''] (joined_cluster k)"
  "reliable (joined_cluster k)" "all_listening ids addr (joined_cluster k)"
proof -
  show "healthy four_ids node_addr (new_with_replication 2) (joined_cluster k)"
    by (simp add: healthy_def joined_cluster_def loaded_node_def node_addr_def knows_def stable_view_ok
        get_member_def image_image inj_on_def new_with_replication_def del: four_ids_simps(2))
  show "dmap_wf (servers (joined_cluster k) a)"
    by (simp add: joined_cluster_def loaded_node_def dmap_wf_def dm_wf_def)
  show "placed length_hash str_codec three_ids node_addr (new_with_replication 2) J [k \<mapsto> lit ''old''] (joined_cluster k)"
    by (auto simp: placed_def joined_cluster_def loaded_node_def node_addr_def peek_def dm_get_def)
qed (simp_all add: joined_cluster_def)

lemma joined_owners:
  assumes "length k = 2 \<or> length k = 6"
  shows "owners_of length_hash str_codec three_ids (new_with_replication 2) k =
      (if length k = 2 then [lit ''c'', lit ''a''] else [lit ''a'', lit ''b''])"
    and "owners_of length_hash str_codec four_ids (new_with_replication 2) k = [lit ''c'', lit ''d'']"
proof -
  have "key_partition length_hash str_codec (new_with_replication 2) k = of_nat (length k)"
    using assms by (auto simp: key_partition_def str_codec_def get_partition_def length_hash_def new_with_replication_def)
  moreover have "ring_owners 2 [x, y, z] 2 = [z, x]" "ring_owners 2 [x, y, z] 6 = [x, y]"
    "ring_owners 2 [x, y, z, u] 2 = [z, u]" "ring_owners 2 [x, y, z, u] 6 = [z, u]" for x y z u :: str
    by (simp_all add: ring_owners_def upt_rec)
  ultimately show "owners_of length_hash str_codec three_ids (new_with_replication 2) k =
      (if length k = 2 then [lit ''c'', lit ''a''] else [lit ''a'', lit ''b''])"
    and "owners_of length_hash str_codec four_ids (new_with_replication 2) k = [lit ''c'', lit ''d'']"
    using assms by (auto simp: placement_def new_with_replication_def max_def)
qed

theorem starting_node_recovers_witness:
  "peek (servers (sync_partitions str_codec sorted_list_of_set (node_addr (lit ''d'')) (joined_cluster (lit ''xy'')))
     (node_addr (lit ''d''))) 2 (lit ''xy'') = Some (lit ''old'')"
proof -
  have d: "lit ''d'' \<in> set four_ids" by simp
  have empty: "local_data (servers (joined_cluster (lit ''xy'')) (node_addr (lit ''d''))) = []"
    by (simp add: joined_cluster_def loaded_node_def node_addr_def joined_owners lit_simps)
  have kp: "key_partition length_hash str_codec (new_with_replication 2) (lit ''xy'') = 2"
    by (simp add: key_partition_def str_codec_def get_partition_def length_hash_def new_with_replication_def)
  have own: "owners_of length_hash str_codec three_ids (new_with_replication 2) (lit ''xy'') = [lit ''c'', lit ''a'']"
    "owners_of length_hash str_codec four_ids (new_with_replication 2) (lit ''xy'') = [lit ''c'', lit ''d'']"
    "lit ''c'' \<noteq> lit ''d''"
    using joined_owners [of "lit ''xy''"] by (simp_all add: lit_simps)
  have order: "set (sorted_list_of_set S) = S" for S :: "u32 set" by simp
  from starting_node_recovers [OF joined_cluster_facts(1,2) d empty joined_cluster_facts(3) str_codec_ok _ _
      joined_cluster_facts(4,5) order, of "lit ''xy''", unfolded own]
  show ?thesis using own(3) by (simp add: kp sync_source_def)
qed

theorem membership_change_hides_entries_witness:
  "let n = fold (\<lambda>i. sync_partitions str_codec sorted_list_of_set (node_addr i)) (four_ids @ four_ids)
       (joined_cluster (lit ''whales''))
   in fst (get length_hash str_codec (node_addr (lit ''a'')) (lit ''whales'') n) = Some (lit ''old'') \<and>
      fst (get length_hash str_codec (node_addr (lit ''d'')) (lit ''whales'') n) = None"
proof -
  have ad: "lit ''a'' \<in> set four_ids" "lit ''d'' \<in> set four_ids" by simp_all
  have own: "owners_of length_hash str_codec three_ids (new_with_replication 2) (lit ''whales'') = [lit ''a'', lit ''b'']"
    "owners_of length_hash str_codec four_ids (new_with_replication 2) (lit ''whales'') = [lit ''c'', lit ''d'']"
    using joined_owners [of "lit ''whales''"] by simp_all
  have disjoint: "set (owners_of length_hash str_codec three_ids (new_with_replication 2) (lit ''whales'')) \<inter>
      set (owners_of length_hash str_codec four_ids (new_with_replication 2) (lit ''whales'')) = {}"
    unfolding own by (simp add: lit_simps)
  have url: "url_segment str_codec (to_string str_codec (lit ''whales'')) = Some (to_string str_codec (lit ''whales''))"
    by (simp add: str_codec_def SLASH_def lit_simps)
  have order: "set (sorted_list_of_set S) = S" for S :: "u32 set" by simp
  have js: "set (four_ids @ four_ids) \<subseteq> set four_ids" by simp
  note gone = membership_change_hides_entries [OF joined_cluster_facts(1,2,3) disjoint str_codec_ok _ _
      joined_cluster_facts(4,5) order js _ url, unfolded own]
  show ?thesis using gone [OF _ _ ad(1)] gone [OF _ _ ad(2)] by (simp add: Let_def lit_simps)
qed

subsection \<open>Convergence\<close>

text \<open>Passes at the nodes \<open>js\<close>, one after the other: every copy of a partition whose primary has
  anything is brought up to the primary's, at the nodes visited and at no other.\<close>

lemma passes_effect:
  assumes "codec_ok cd" and "2 \<le> rf" and "2 \<le> length ids" and "\<And>S. set (order S) = S"
    and p: "p < 256" "placement ids (new_with_replication rf) p = q # bs"
  shows "healthy ids addr (new_with_replication rf) n \<Longrightarrow> (\<And>j. j \<in> set ids \<Longrightarrow> dmap_wf (servers n (addr j))) \<Longrightarrow>
    reliable n \<Longrightarrow> all_listening ids addr n \<Longrightarrow> set js \<subseteq> set ids \<Longrightarrow> peek (servers n (addr q)) p k0 \<noteq> None \<Longrightarrow>
    \<forall>j \<in> set ids. peek (servers (fold (\<lambda>i. sync_partitions cd order (addr i)) js n) (addr j)) p =
      (if j \<in> set js \<inter> set (q # bs) then peek (servers n (addr j)) p ++ peek (servers n (addr q)) p
       else peek (servers n (addr j)) p)"
proof (induction js arbitrary: n)
  case (Cons i js)
  let ?pm = "new_with_replication rf"
  have i: "i \<in> set ids" and q: "q \<in> set ids" using Cons.prems(5) p(2) set_placement [of ids ?pm p] by auto
  have d: "q \<notin> set bs" using distinct_placement [of ids ?pm p] Cons.prems(1) p(2) by (simp add: healthy_def)
  from sync_pass_effect [OF Cons.prems(1,2) assms(1) i assms(2,3) Cons.prems(3,4) assms(4)] obtain m n1 where
    e: "sync_partitions cd order (addr i) n = n1" and sv: "servers n1 = (servers n)(addr i := m)"
    and nw: "same_network n n1" and h1: "healthy ids addr ?pm n1" and wf: "dmap_wf m"
    and pk: "peek m p = (if p < 256 \<and> i \<in> set (placement ids ?pm p)
       then synced i (placement ids ?pm p) (peek (servers n (addr (sync_source i (placement ids ?pm p)))) p)
         (peek (servers n (addr i)) p)
       else peek (servers n (addr i)) p)" by blast
  have m: "peek m p = (if i \<in> set (q # bs) then peek (servers n (addr i)) p ++ peek (servers n (addr q)) p
      else peek (servers n (addr i)) p)"
  proof (cases "i = q")
    case True
    have "\<exists>k. peek (servers n (addr q)) p k \<noteq> None" using Cons.prems(6) by blast
    then show ?thesis unfolding pk p(2) using True p(1) by (simp add: synced_def del: not_None_eq) (auto simp: map_add_def split: option.split)
  next
    case False
    then show ?thesis unfolding pk p(2) using p(1) by (simp add: synced_def sync_source_def)
  qed
  have at: "peek (servers n1 (addr j)) p = (if j = i then peek m p else peek (servers n (addr j)) p)"
    if "j \<in> set ids" for j using addr_eq_iff [OF Cons.prems(1) that i] by (simp add: sv)
  have self: "peek (servers n (addr q)) p ++ peek (servers n (addr q)) p = peek (servers n (addr q)) p"
    by (auto simp: map_add_def split: option.split)
  have prim: "peek (servers n1 (addr q)) p = peek (servers n (addr q)) p" using at [OF q] m self by (simp split: if_splits)
  have "dmap_wf (servers n1 (addr j))" if "j \<in> set ids" for j using Cons.prems(2) [OF that] wf by (simp add: sv)
  moreover have "reliable n1" "all_listening ids addr n1"
    using Cons.prems(3,4) nw by (simp_all add: reliable_same all_listening_same)
  moreover have "set js \<subseteq> set ids" using Cons.prems(5) by simp
  moreover have "peek (servers n1 (addr q)) p k0 \<noteq> None" using Cons.prems(6) by (simp only: prim not_False_eq_True)
  ultimately have IH: "\<forall>j \<in> set ids. peek (servers (fold (\<lambda>i. sync_partitions cd order (addr i)) js n1) (addr j)) p =
      (if j \<in> set js \<inter> set (q # bs) then peek (servers n1 (addr j)) p ++ peek (servers n (addr q)) p
       else peek (servers n1 (addr j)) p)"
    using Cons.IH [OF h1] unfolding prim by blast
  have twice: "x ++ peek (servers n (addr q)) p ++ peek (servers n (addr q)) p = x ++ peek (servers n (addr q)) p" for x
    by (simp only: self flip: map_add_assoc)
  show ?case
  proof
    fix j
    assume j: "j \<in> set ids"
    show "peek (servers (fold (\<lambda>i. sync_partitions cd order (addr i)) (i # js) n) (addr j)) p =
      (if j \<in> set (i # js) \<inter> set (q # bs) then peek (servers n (addr j)) p ++ peek (servers n (addr q)) p
       else peek (servers n (addr j)) p)"
    proof -
      define own where "own = set (q # bs)"
      define Q where "Q = peek (servers n (addr q)) p"
      have "peek (servers n1 (addr j)) p =
          (if j = i \<and> j \<in> own then peek (servers n (addr j)) p ++ Q else peek (servers n (addr j)) p)"
        using at [OF j] m unfolding own_def [symmetric] Q_def [symmetric] by simp
      then show ?thesis
        using bspec [OF IH j] twice unfolding own_def [symmetric] Q_def [symmetric] by (auto simp: e)
    qed
  qed
qed simp

text \<open>C6: copies converge: with at least two copies of everything and no request lost, one
  anti-entropy pass at every node, in any order, makes every copy of a partition agree with that of
  its primary on all keys the primary has, as long as it has any; no copy loses a key, and the
  primary's own copy stays as it is. This holds from any state, consistent or not.\<close>
theorem anti_entropy_converges:
  assumes "healthy ids addr (new_with_replication rf) n" and "\<And>j. j \<in> set ids \<Longrightarrow> dmap_wf (servers n (addr j))"
    and "codec_ok cd" and "2 \<le> rf" and "2 \<le> length ids" and "reliable n" and "all_listening ids addr n"
    and "\<And>S. set (order S) = S" and "set js = set ids"
    and "p < 256" and "placement ids (new_with_replication rf) p = q # bs"
    and "has_partition p (servers n (addr q))" and "j \<in> set (q # bs)"
  shows "peek (servers (fold (\<lambda>i. sync_partitions cd order (addr i)) js n) (addr j)) p k =
    (case peek (servers n (addr q)) p k of Some v \<Rightarrow> Some v | None \<Rightarrow> peek (servers n (addr j)) p k)"
proof -
  have own: "set (q # bs) \<subseteq> set ids" using set_placement [of ids "new_with_replication rf" p] assms(11) by simp
  then obtain k0 where "peek (servers n (addr q)) p k0 \<noteq> None"
    using assms(12) has_partition_iff [OF assms(2), of q p] by auto
  from passes_effect [where order = order and js = js, OF assms(3-5,8,10,11,1,2,6,7) _ this] own assms(9,13)
  show ?thesis by (auto simp: map_add_def split: option.split)
qed

text \<open>In the example the copy of \<open>x\<close> at c differs from that of its primary b.\<close>

definition diverged :: "(str, str) cluster" where
  "diverged = set_server (node_addr (lit ''c''))
     (store_local 1 (lit ''x'') (lit ''stale'') (servers sample_cluster (node_addr (lit ''c'')))) sample_cluster"

theorem anti_entropy_converges_witness:
  "peek (servers diverged (node_addr (lit ''c''))) 1 (lit ''x'') = Some (lit ''stale'') \<and>
   peek (servers (fold (\<lambda>i. sync_partitions str_codec sorted_list_of_set (node_addr i)) three_ids diverged)
     (node_addr (lit ''c''))) 1 (lit ''x'') = Some (lit ''old'')"
proof -
  have b: "lit ''b'' \<in> set three_ids" and bc: "node_addr (lit ''b'') \<noteq> node_addr (lit ''c'')"
    by (simp_all add: node_addr_def lit_simps)
  have wf: "dmap_wf (servers sample_cluster a)" for a
    by (simp add: sample_cluster_def loaded_cluster_def loaded_node_def dmap_wf_def dm_wf_def)
  have prim: "peek (servers diverged (node_addr (lit ''b''))) 1 (lit ''x'') = Some (lit ''old'')"
    using consistentD [OF sample_cluster_facts(2) b, of "lit ''x''"] bc by (simp add: diverged_def sample_placement)
  have "healthy three_ids node_addr new_partition_manager diverged"
    using sample_cluster_facts(1) by (rule healthy_cong) (simp add: diverged_def)
  then have h: "healthy three_ids node_addr (new_with_replication 2) diverged" by (simp add: new_partition_manager_def)
  have wfd: "dmap_wf (servers diverged (node_addr j))" for j
    by (simp add: diverged_def wf dmap_wf_store_local)
  have net: "reliable diverged" "all_listening three_ids node_addr diverged"
    using sample_cluster_facts(4,5) by (simp_all add: diverged_def reliable_def all_listening_def)
  have "has_partition 1 (servers diverged (node_addr (lit ''b'')))"
    using prim by (auto simp: has_partition_iff wfd)
  from anti_entropy_converges [OF h wfd str_codec_ok _ _ net _ refl _ sample_placement(2) [unfolded new_partition_manager_def] this,
      where order = sorted_list_of_set and j = "lit ''c''" and k = "lit ''x''"] prim
  show ?thesis by (simp add: diverged_def)
qed

text \<open>A primary that has any entry of a partition never takes in the others: its pass leaves the partition as
  it is, so what only the backups hold (the entries written before it became primary) stays one copy
  short.\<close>
theorem partial_primary_stays_partial:
  assumes "healthy ids addr (new_with_replication rf) n" and "\<And>j. j \<in> set ids \<Longrightarrow> dmap_wf (servers n (addr j))"
    and "codec_ok cd" and "2 \<le> rf" and "2 \<le> length ids" and "reliable n" and "all_listening ids addr n"
    and "\<And>S. set (order S) = S"
    and "placement ids (new_with_replication rf) p = q # bs" and "has_partition p (servers n (addr q))"
  shows "peek (servers (sync_partitions cd order (addr q) n) (addr q)) p = peek (servers n (addr q)) p"
proof -
  have q: "q \<in> set ids" using set_placement [of ids "new_with_replication rf" p] assms(9) by simp
  have "\<exists>k. peek (servers n (addr q)) p k \<noteq> None" using assms(10) has_partition_iff [OF assms(2) [OF q]] by blast
  then have "synced q (q # bs) src (peek (servers n (addr q)) p) = peek (servers n (addr q)) p" for src
    unfolding synced_def by simp
  moreover obtain m n' where "sync_partitions cd order (addr q) n = n'" "servers n' = (servers n)(addr q := m)"
    "peek m p = (if p < 256 \<and> q \<in> set (q # bs)
       then synced q (q # bs) (peek (servers n (addr (sync_source q (q # bs)))) p) (peek (servers n (addr q)) p)
       else peek (servers n (addr q)) p)"
    using sync_pass_effect [OF assms(1-3) q assms(4-8)] unfolding assms(9) [symmetric] by blast
  ultimately show ?thesis by simp
qed

subsection \<open>Overlapping writes\<close>

text \<open>C7: two puts that overlap at the primary make its copy and those of the backups differ, although the
  network loses nothing: the second stores its value at the primary and reaches the backups while the
  first, which has stored already, has yet to replicate. Both are acknowledged; from then on a read at the
  primary gives the second value and a read at any backup the first, until an anti-entropy pass.
  The steps are those of a put at the primary: storing locally, then replicating.\<close>
theorem overlapping_puts_diverge:
  fixes cd :: "('k, 'v) codec"
  assumes "healthy ids addr pm n" and "codec_ok cd" and "placement ids pm (key_partition hash cd pm k) = q # bs"
    and "fresh_op op1 ids addr n" and "fresh_op op2 ids addr n" and "op1 \<noteq> op2"
    and "reliable n" and "all_listening ids addr n"
  defines "begin_put \<equiv> \<lambda>v op (n :: ('k, 'v) cluster). set_server (addr q)
      (store_local (key_partition hash cd pm k) k v (snd (should_process op (servers n (addr q))))) n"
  defines "finish_put \<equiv> \<lambda>v op. replicate_all cd (addr q) bs (key_partition hash cd pm k) op k v"
  shows "put_with_op hash cd (addr q) k v1 op1 n = finish_put v1 op1 (begin_put v1 op1 n) \<and>
    put_with_op hash cd (addr q) k v2 op2 n = finish_put v2 op2 (begin_put v2 op2 n) \<and>
    (case finish_put v2 op2 (begin_put v2 op2 (begin_put v1 op1 n)) of (r2, n2) \<Rightarrow>
     case finish_put v1 op1 n2 of (r1, n1) \<Rightarrow> r1 = Inr () \<and> r2 = Inr () \<and>
       fst (get hash cd (addr q) k n1) = Some v2 \<and> (\<forall>b \<in> set bs. fst (get hash cd (addr b) k n1) = Some v1))"
proof -
  let ?p = "key_partition hash cd pm k"
  have ids: "q \<in> set ids" "set bs \<subseteq> set ids" using set_placement [of ids pm ?p] assms(3) by auto
  have dist: "q \<notin> set bs" using distinct_placement [of ids pm ?p] assms(1,3) by (simp add: healthy_def)
  then have away: "addr q \<notin> addr ` set bs" using addr_eq_iff [OF assms(1) ids(1)] ids(2) by auto
  have fresh: "\<not> dm_contains_key (processed_ops (servers n (addr i))) op1"
    "\<not> dm_contains_key (processed_ops (servers n (addr i))) op2" if "i \<in> set ids" for i
    using assms(4,5) that by (simp_all add: fresh_op_def)
  have whole: "put_with_op hash cd (addr q) k v op n = finish_put v op (begin_put v op n)"
    if "\<not> dm_contains_key (processed_ops (servers n (addr q))) op" for v op
    using put_with_op_primary [OF assms(1,3) that, of v] by (simp add: begin_put_def finish_put_def)
  have h_begin: "healthy ids addr pm m \<Longrightarrow> healthy ids addr pm (begin_put v op m)" for v op m
    by (erule healthy_cong) (simp add: begin_put_def)
  have finish: "\<exists>m'. finish_put v op m = (Inr (), m') \<and> same_network m m' \<and> healthy ids addr pm m' \<and>
      servers m' = upd_at (addr ` set bs) (store_replica ?p op k v) (servers m)"
    if "healthy ids addr pm m" "same_network n m" for v op m
  proof -
    have "\<forall>b \<in> set bs. resolves cd (addr q) addr b m"
      using healthy_resolves [OF that(1) assms(2) ids(1)] ids(2) by blast
    from replicate_loop.send_all_effect [OF this, of ?p op k v] obtain r m' S where
      "finish_put v op m = (r, m')" "same_network m m'"
      and sv: "servers m' = upd_at S (store_replica ?p op k v) (servers m)" and "r = Inr () \<longrightarrow> S = addr ` set bs"
      and "reliable m \<and> (\<forall>b \<in> set bs. listening m (addr b)) \<longrightarrow> r = Inr ()"
      unfolding finish_put_def by blast
    moreover have "reliable m" using assms(7) reliable_same [OF that(2)] by blast
    moreover have "\<forall>b \<in> set bs. listening m (addr b)"
      using assms(8) all_listening_same [OF that(2), of ids addr] ids(2) unfolding all_listening_def by blast
    moreover have "healthy ids addr pm m'" using that(1) by (rule healthy_cong) (simp add: sv)
    ultimately show ?thesis by auto
  qed
  let ?n0 = "begin_put v2 op2 (begin_put v1 op1 n)"
  have "same_network n ?n0" by (simp add: begin_put_def)
  with finish [OF h_begin [OF h_begin [OF assms(1)]]] obtain n2 where
    e2: "finish_put v2 op2 ?n0 = (Inr (), n2)" and nw2: "same_network ?n0 n2" and h2: "healthy ids addr pm n2"
    and sv2: "servers n2 = upd_at (addr ` set bs) (store_replica ?p op2 k v2) (servers ?n0)" by blast
  have "same_network n n2" using \<open>same_network n ?n0\<close> nw2 by (rule same_network_trans)
  with finish [OF h2] obtain n1 where
    e1: "finish_put v1 op1 n2 = (Inr (), n1)" and h1: "healthy ids addr pm n1"
    and sv1: "servers n1 = upd_at (addr ` set bs) (store_replica ?p op1 k v1) (servers n2)" by blast
  have "peek (servers n1 (addr q)) ?p k = Some v2"
    using away by (simp add: sv1 sv2 upd_at_def begin_put_def)
  moreover have "peek (servers n1 (addr b)) ?p k = Some v1" if b: "b \<in> set bs" for b
  proof -
    have "addr b \<noteq> addr q" using away imageI [OF b, of addr] by metis
    then have "servers ?n0 (addr b) = servers n (addr b)" by (simp add: begin_put_def)
    then have "servers n1 (addr b) = store_replica ?p op1 k v1 (store_replica ?p op2 k v2 (servers n (addr b)))"
      using b by (simp add: sv1 sv2 upd_at_def)
    moreover have "\<not> dm_contains_key (processed_ops (store_replica ?p op2 k v2 (servers n (addr b)))) op1"
      using fresh(1) [of b] b ids(2) assms(6) by (intro not_processed_store_replica) auto
    ultimately show ?thesis by (simp add: peek_store_replica_new)
  qed
  moreover have "fst (get hash cd (addr i) k n1) = Some v" if "i \<in> set ids" "peek (servers n1 (addr i)) ?p k = Some v" for i v
    using that healthyD(2) [OF h1 that(1)] by (simp add: get_def Let_def)
  ultimately have reads: "fst (get hash cd (addr q) k n1) = Some v2" "\<forall>b \<in> set bs. fst (get hash cd (addr b) k n1) = Some v1"
    using ids by blast+
  show ?thesis using reads unfolding whole [OF fresh(1) [OF ids(1)]] whole [OF fresh(2) [OF ids(1)]] e2 e1
    by (simp add: e1)
qed

theorem overlapping_puts_diverge_witness:
  "let p = key_partition length_hash str_codec new_partition_manager (lit ''x'');
       begin_put = (\<lambda>v op n. set_server (node_addr (lit ''b''))
         (store_local p (lit ''x'') v (snd (should_process op (servers n (node_addr (lit ''b'')))))) n);
       finish_put = (\<lambda>v op. replicate_all str_codec (node_addr (lit ''b'')) [lit ''c''] p op (lit ''x'') v)
   in case finish_put (lit ''v2'') (lit ''op2'') (begin_put (lit ''v2'') (lit ''op2'')
        (begin_put (lit ''v1'') (lit ''op1'') sample_cluster)) of (r2, n2) \<Rightarrow>
      case finish_put (lit ''v1'') (lit ''op1'') n2 of (r1, n1) \<Rightarrow> r1 = Inr () \<and> r2 = Inr () \<and>
        fst (get length_hash str_codec (node_addr (lit ''b'')) (lit ''x'') n1) = Some (lit ''v2'') \<and>
        fst (get length_hash str_codec (node_addr (lit ''c'')) (lit ''x'') n1) = Some (lit ''v1'')"
proof -
  have op: "lit ''op1'' \<noteq> lit ''op2''" by (simp add: lit_simps)
  note d = overlapping_puts_diverge [OF sample_cluster_facts(1) str_codec_ok sample_pl sample_cluster_facts(3,3) op
      sample_cluster_facts(4,5), of "lit ''v1''" "lit ''v2''"]
  show ?thesis unfolding Let_def using d [THEN conjunct2, THEN conjunct2] by (auto split: prod.splits)
qed

end
