(* ===== verification/Tokenizer.thy ===== *)
theory Tokenizer
  imports Prelude
begin

text \<open>
  The tokenizer (\<open>src/src/search/tokenizer.rs\<close>) and the string functions of the standard library
  it and the ingestion use. What comes from the Unicode tables and from the \<open>regex\<close> crate is an
  argument, the record \<open>unicode\<close>: case mapping, character classes, and the matches of the two
  regular expressions of the program. \<open>unicode_ok\<close> states their documented behaviour as far as the
  theorems need it.
\<close>

record unicode =
  to_lowercase :: "str \<Rightarrow> str"
  is_whitespace :: "nat \<Rightarrow> bool"
  is_alphanumeric :: "nat \<Rightarrow> bool"
  word_char :: "nat \<Rightarrow> bool"
  word_matches :: "str \<Rightarrow> str list"
  four_digits :: "str \<Rightarrow> str option"

subsection \<open>Strings\<close>

definition trim_matches :: "(nat \<Rightarrow> bool) \<Rightarrow> str \<Rightarrow> str" where
  "trim_matches P s = rev (dropWhile P (rev (dropWhile P s)))"

definition trim :: "unicode \<Rightarrow> str \<Rightarrow> str" where
  "trim u s = trim_matches (is_whitespace u) s"

text \<open>The maximal runs of characters with \<open>P\<close>, in order.\<close>

function runs :: "(nat \<Rightarrow> bool) \<Rightarrow> str \<Rightarrow> str list" where
  "runs P s =
     (case dropWhile (\<lambda>c. \<not> P c) s of
        [] \<Rightarrow> []
      | c # t \<Rightarrow> (c # takeWhile P t) # runs P (dropWhile P t))"
  by pat_completeness auto
termination
proof (relation "measure (length \<circ> snd)", simp, clarsimp)
  fix P :: "nat \<Rightarrow> bool" and s :: str and c t
  assume "dropWhile (\<lambda>c. \<not> P c) s = c # t"
  then have "Suc (length t) \<le> length s" using length_dropWhile_le [of "\<lambda>c. \<not> P c" s] by simp
  moreover have "length (dropWhile P t) \<le> length t" by (rule length_dropWhile_le)
  ultimately show "length (dropWhile P t) < length s" by linarith
qed

declare runs.simps [simp del]

definition split_whitespace :: "unicode \<Rightarrow> str \<Rightarrow> str list" where
  "split_whitespace u s = runs (\<lambda>c. \<not> is_whitespace u c) s"

subsection \<open>The tokenizer\<close>

text \<open>The regular expression \<open>\b[a-zA-Z]+\b\<close>; the result is a \<open>HashSet\<close>.\<close>

definition tokenize_text :: "unicode \<Rightarrow> str \<Rightarrow> str set" where
  "tokenize_text u text = set (filter (\<lambda>word. str_len word > 2) (word_matches u (to_lowercase u text)))"

definition tokenize_query :: "unicode \<Rightarrow> str \<Rightarrow> str list" where
  "tokenize_query u query =
     filter (\<lambda>word. word \<noteq> [])
       (map (\<lambda>word. trim_matches (\<lambda>c. \<not> is_alphanumeric u c) word)
         (filter (\<lambda>word. str_len word > 2) (split_whitespace u (to_lowercase u query))))"

subsection \<open>Documented behaviour of the parameters\<close>

definition ascii_upper :: "nat \<Rightarrow> bool" where
  "ascii_upper c \<longleftrightarrow> 65 \<le> c \<and> c \<le> 90"

definition ascii_letter :: "nat \<Rightarrow> bool" where
  "ascii_letter c \<longleftrightarrow> ascii_upper c \<or> 97 \<le> c \<and> c \<le> 122"

definition ascii_lower :: "nat \<Rightarrow> nat" where
  "ascii_lower c = (if ascii_upper c then c + 32 else c)"

text \<open>
  ASCII strings are lowercased letter by letter and lowercased text has no capital ASCII letter;
  ASCII letters are alphanumeric (\<open>char::is_alphanumeric\<close>) and word characters (\<open>\w\<close>), white space is no
  word character; the expression matches the runs of word characters that are made of ASCII letters
  only. Nothing is said of the other characters: a fraction such as one half is alphanumeric, but no
  word character.
\<close>

definition unicode_ok :: "unicode \<Rightarrow> bool" where
  "unicode_ok u \<longleftrightarrow>
     (\<forall>s. list_all (\<lambda>c. c < 128) s \<longrightarrow> to_lowercase u s = map ascii_lower s) \<and>
     (\<forall>s. list_all (\<lambda>c. \<not> ascii_upper c) (to_lowercase u s)) \<and>
     (\<forall>c. ascii_letter c \<longrightarrow> is_alphanumeric u c) \<and>
     (\<forall>c. ascii_letter c \<longrightarrow> word_char u c) \<and>
     (\<forall>c. is_whitespace u c \<longrightarrow> \<not> word_char u c) \<and> is_whitespace u 32 \<and>
     (\<forall>s. word_matches u s = filter (list_all ascii_letter) (runs (word_char u) s))"

lemma unicode_okD:
  assumes "unicode_ok u"
  shows "list_all (\<lambda>c. c < 128) s \<Longrightarrow> to_lowercase u s = map ascii_lower s"
    and "list_all (\<lambda>c. \<not> ascii_upper c) (to_lowercase u s)"
    and "ascii_letter c \<Longrightarrow> is_alphanumeric u c"
    and "ascii_letter c \<Longrightarrow> word_char u c"
    and "is_whitespace u c \<Longrightarrow> \<not> word_char u c" and "is_whitespace u 32"
    and "word_matches u s = filter (list_all ascii_letter) (runs (word_char u) s)"
  using assms unfolding unicode_ok_def by blast+

lemma ascii_letter_less: "ascii_letter c \<Longrightarrow> c < 128"
  by (auto simp: ascii_letter_def ascii_upper_def)

subsection \<open>Runs\<close>

lemma runs_Nil [simp]: "runs P [] = []"
  by (simp add: runs.simps)

lemma runs_skip: "\<not> P c \<Longrightarrow> runs P (c # s) = runs P s"
  by (simp add: runs.simps [of P "c # s"] runs.simps [of P s])

lemma runs_take: "P c \<Longrightarrow> runs P (c # s) = (c # takeWhile P s) # runs P (dropWhile P s)"
  by (simp add: runs.simps [of P "c # s"])

lemma runs_whole: "w \<noteq> [] \<Longrightarrow> list_all P w \<Longrightarrow> runs P w = [w]"
proof (cases w)
  case (Cons c t)
  assume "list_all P w"
  with Cons have c: "P c" and t: "takeWhile P t = t" "dropWhile P t = []"
    by (auto simp: list_all_iff takeWhile_eq_all_conv dropWhile_eq_Nil_conv)
  show ?thesis by (simp only: Cons runs_take [of P, OF c] t runs_Nil)
qed simp

lemma runs_word_then:
  "w \<noteq> [] \<Longrightarrow> list_all P w \<Longrightarrow> \<not> P c \<Longrightarrow> runs P (w @ c # s) = w # runs P s"
proof (cases w)
  case (Cons a w')
  assume all: "list_all P w" and c: "\<not> P c"
  have "takeWhile P (w' @ c # s) = w'" "dropWhile P (w' @ c # s) = c # s"
    using all c Cons by (simp_all add: takeWhile_append dropWhile_append list_all_iff)
  with all c Cons show ?thesis by (simp add: runs_take runs_skip)
qed simp

lemma runs_elem: "w \<in> set (runs P s) \<Longrightarrow> w \<noteq> [] \<and> list_all P w \<and> set w \<subseteq> set s"
proof (induction P s rule: runs.induct)
  case (1 P s)
  show ?case
  proof (cases "dropWhile (\<lambda>c. \<not> P c) s")
    case Nil
    with "1.prems" show ?thesis by (simp add: runs.simps [of P s])
  next
    case (Cons c t)
    have c: "P c" using Cons hd_dropWhile [of "\<lambda>c. \<not> P c" s] by simp
    have sub: "set (c # t) \<subseteq> set s" using Cons set_dropWhileD [of _ "\<lambda>c. \<not> P c" s] by (metis subsetI)
    from "1.prems" Cons consider "w = c # takeWhile P t" | "w \<in> set (runs P (dropWhile P t))"
      by (auto simp: runs.simps [of P s])
    then show ?thesis
    proof cases
      case 1
      then show ?thesis using c sub by (auto simp: list_all_iff dest: set_takeWhileD)
    next
      case 2
      from "1.IH" [OF Cons 2] show ?thesis using sub by (auto dest: set_dropWhileD)
    qed
  qed
qed

subsection \<open>Tokens\<close>

lemma index_token_form:
  assumes "unicode_ok u" and "w \<in> tokenize_text u doc"
  shows "w \<noteq> [] \<and> str_len w > 2 \<and> list_all ascii_letter w \<and> list_all (\<lambda>c. \<not> ascii_upper c) w"
proof -
  have w: "w \<in> set (runs (word_char u) (to_lowercase u doc))" "list_all ascii_letter w" "str_len w > 2"
    using assms by (auto simp: tokenize_text_def unicode_okD(7))
  moreover have "list_all (\<lambda>c. \<not> ascii_upper c) w"
    using runs_elem [OF w(1)] unicode_okD(2) [OF assms(1), of doc] by (auto simp: list_all_iff)
  ultimately show ?thesis using runs_elem [OF w(1)] by simp
qed

lemma trim_matches_id: "list_all (\<lambda>c. \<not> P c) w \<Longrightarrow> trim_matches P w = w"
proof -
  assume "list_all (\<lambda>c. \<not> P c) w"
  then have "dropWhile P w = w" "dropWhile P (rev w) = rev w"
    by (auto simp: list_all_iff dropWhile_eq_self_iff hd_rev)
  then show ?thesis by (simp add: trim_matches_def)
qed

text \<open>A query made of several words.\<close>

fun join_words :: "str list \<Rightarrow> str" where
  "join_words [] = []"
| "join_words [w] = w"
| "join_words (w # ws) = w @ 32 # join_words ws"

lemma runs_join:
  "\<not> P 32 \<Longrightarrow> \<forall>w \<in> set ws. w \<noteq> [] \<and> list_all P w \<Longrightarrow> runs P (join_words ws) = ws"
  by (induction ws rule: join_words.induct) (simp_all add: runs_whole runs_word_then)

lemma set_join_words: "set (join_words ws) \<subseteq> {32} \<union> \<Union> (set ` set ws)"
  by (induction ws rule: join_words.induct) auto

lemma lower_join:
  assumes "unicode_ok u" and "\<forall>w \<in> set ws. list_all ascii_letter w \<and> list_all (\<lambda>c. \<not> ascii_upper c) w"
  shows "to_lowercase u (join_words ws) = join_words ws"
proof -
  have chars: "c = 32 \<or> (ascii_letter c \<and> \<not> ascii_upper c)" if "c \<in> set (join_words ws)" for c
    using that set_join_words [of ws] assms(2) by (auto simp: list_all_iff)
  then have "list_all (\<lambda>c. c < 128) (join_words ws)"
    using ascii_letter_less unfolding list_all_iff by fastforce
  then have "to_lowercase u (join_words ws) = map ascii_lower (join_words ws)"
    by (rule unicode_okD(1) [OF assms(1)])
  also have "\<dots> = join_words ws"
  proof (rule map_idI)
    fix c
    assume "c \<in> set (join_words ws)"
    then have "\<not> ascii_upper c" using chars [of c] by (auto simp: ascii_upper_def)
    then show "ascii_lower c = c" by (simp add: ascii_lower_def)
  qed
  finally show ?thesis .
qed

lemma index_token_query:
  assumes "unicode_ok u" and "\<forall>w \<in> set ws. \<exists>doc. w \<in> tokenize_text u doc"
  shows "tokenize_query u (join_words ws) = ws"
proof -
  have form: "w \<noteq> [] \<and> str_len w > 2 \<and> list_all ascii_letter w \<and> list_all (\<lambda>c. \<not> ascii_upper c) w"
    if "w \<in> set ws" for w
    using assms(2) that index_token_form [OF assms(1)] by blast
  have alnum: "list_all (is_alphanumeric u) w" if "w \<in> set ws" for w
    using form [OF that] unicode_okD(3) [OF assms(1)] by (auto simp: list_all_iff)
  have nonspace: "list_all (\<lambda>c. \<not> is_whitespace u c) w" if "w \<in> set ws" for w
    using form [OF that] unicode_okD(4,5) [OF assms(1)] by (auto simp: list_all_iff)
  have "split_whitespace u (join_words ws) = ws"
    unfolding split_whitespace_def using form nonspace unicode_okD(6) [OF assms(1)]
    by (intro runs_join) auto
  moreover have "to_lowercase u (join_words ws) = join_words ws"
    using form by (intro lower_join [OF assms(1)]) blast
  moreover have "filter (\<lambda>word. str_len word > 2) ws = ws" using form by (simp add: filter_id_conv)
  moreover have "map (trim_matches (\<lambda>c. \<not> is_alphanumeric u c)) ws = ws"
    using alnum by (intro map_idI trim_matches_id) simp
  moreover have "filter (\<lambda>word. word \<noteq> []) ws = ws" using form by (simp add: filter_id_conv)
  ultimately show ?thesis by (simp add: tokenize_query_def)
qed

subsection \<open>Examples\<close>

text \<open>The ASCII part of Unicode.\<close>

definition ascii_word :: "nat \<Rightarrow> bool" where
  "ascii_word c \<longleftrightarrow> ascii_letter c \<or> 48 \<le> c \<and> c \<le> 57 \<or> c = 95"

definition digit_char :: "nat \<Rightarrow> bool" where
  "digit_char c \<longleftrightarrow> 48 \<le> c \<and> c \<le> 57"

fun ascii_four_digits :: "str \<Rightarrow> str option" where
  "ascii_four_digits (a # b # c # d # s) =
     (if list_all digit_char [a, b, c, d] then Some [a, b, c, d] else ascii_four_digits (b # c # d # s))"
| "ascii_four_digits s = None"

definition ascii_unicode :: unicode where
  "ascii_unicode = \<lparr>to_lowercase = map ascii_lower,
     is_whitespace = (\<lambda>c. c = 32 \<or> 9 \<le> c \<and> c \<le> 13),
     is_alphanumeric = (\<lambda>c. ascii_letter c \<or> 48 \<le> c \<and> c \<le> 57),
     word_char = ascii_word,
     word_matches = (\<lambda>s. filter (list_all ascii_letter) (runs ascii_word s)),
     four_digits = ascii_four_digits\<rparr>"

lemma ascii_unicode_ok [simp]: "unicode_ok ascii_unicode"
  by (auto simp: unicode_ok_def ascii_unicode_def ascii_word_def ascii_letter_def ascii_lower_def
      ascii_upper_def list_all_iff)

subsection \<open>Properties\<close>

text \<open>C31: every term of the index can be searched: a query that joins terms of indexed documents by
  spaces is tokenized back to exactly these terms, in order.\<close>
theorem index_terms_are_searchable:
  assumes "unicode_ok u" and "\<forall>w \<in> set ws. \<exists>doc. w \<in> tokenize_text u doc"
  shows "tokenize_query u (join_words ws) = ws"
  using assms by (rule index_token_query)

theorem index_terms_are_searchable_witness:
  "tokenize_query ascii_unicode (join_words [lit ''whale'', lit ''sea'']) = [lit ''whale'', lit ''sea'']"
proof (rule index_terms_are_searchable [OF ascii_unicode_ok])
  have "w \<in> tokenize_text ascii_unicode w" if "w = lit ''whale'' \<or> w = lit ''sea''" for w
    using that runs_whole [of w ascii_word]
    by (auto simp: tokenize_text_def ascii_unicode_def lit_simps ascii_lower_def ascii_upper_def
        ascii_letter_def ascii_word_def utf8_width_def)
  then show "\<forall>w \<in> set [lit ''whale'', lit ''sea'']. \<exists>doc. w \<in> tokenize_text ascii_unicode doc" by auto
qed

text \<open>Query terms the index cannot have: a term of a query with a character that is not an ASCII letter,
  such as a digit, an apostrophe inside a word or an accented letter, is a term of no document.\<close>
theorem non_letter_terms_never_match:
  assumes "unicode_ok u" and "w \<in> set (tokenize_query u query)" and "c \<in> set w" and "\<not> ascii_letter c"
  shows "w \<notin> tokenize_text u doc"
  using index_token_form [OF assms(1), of w doc] assms(3,4) by (auto simp: list_all_iff)

theorem non_letter_terms_never_match_witness:
  "lit ''1984'' \<notin> tokenize_text ascii_unicode (lit ''in 1984'')"
proof (rule non_letter_terms_never_match [OF ascii_unicode_ok])
  have w: "runs (\<lambda>c. c \<noteq> 32 \<and> (9 \<le> c \<longrightarrow> \<not> c \<le> 13)) (lit ''1984'') = [lit ''1984'']"
    by (rule runs_whole) (simp_all add: lit_simps)
  show "lit ''1984'' \<in> set (tokenize_query ascii_unicode (lit ''1984''))"
    using w by (simp add: tokenize_query_def split_whitespace_def ascii_unicode_def lit_simps ascii_lower_def
        ascii_upper_def trim_matches_def utf8_width_def)
  show "49 \<in> set (lit ''1984'')" "\<not> ascii_letter 49"
    by (simp_all add: lit_simps ascii_letter_def ascii_upper_def)
qed

end
