(* ===== verification/Search.thy ===== *)
theory Search
  imports Tokenizer MapContent "HOL-Library.Multiset" "HOL-Library.Countable"
begin

text \<open>
  The search engine (\<open>src/src/search/engine.rs\<close>, \<open>types.rs\<close>) and the public search handler
  (\<open>handlers.rs\<close>), over the cluster of the inverted index and the cluster of the metadata map. The
  iteration order of the \<open>HashMap\<close> of scores is the argument \<open>order\<close>. Scores are \<open>usize\<close> counters,
  here natural numbers.
\<close>

record book_metadata =
  bm_book_id :: str
  bm_title :: str
  bm_author :: str
  bm_language :: str
  bm_year :: "u32 option"
  bm_word_count :: nat
  bm_unique_words :: nat

type_synonym index_net = "(str, str list) cluster"
type_synonym books_net = "(str, book_metadata) cluster"

subsection \<open>The engine\<close>

definition bump :: "str \<Rightarrow> (str, nat) dashmap \<Rightarrow> (str, nat) dashmap" where
  "bump book_id scores =
     dm_insert book_id (case dm_get scores book_id of Some score \<Rightarrow> score + 1 | None \<Rightarrow> 1) scores"

fun score_tokens :: "(str \<Rightarrow> u64) \<Rightarrow> (str, str list) codec \<Rightarrow> sock_addr \<Rightarrow> str list \<Rightarrow> (str, nat) dashmap
    \<Rightarrow> index_net \<Rightarrow> (str, nat) dashmap \<times> index_net" where
  "score_tokens hash cdi self [] scores n = (scores, n)"
| "score_tokens hash cdi self (token # tokens) scores n =
     (case get hash cdi self token n of
        (Some book_index, n1) \<Rightarrow> score_tokens hash cdi self tokens (fold bump book_index scores) n1
      | (None, n1) \<Rightarrow> score_tokens hash cdi self tokens scores n1)"

fun hydrate :: "(str \<Rightarrow> u64) \<Rightarrow> (str, book_metadata) codec \<Rightarrow> sock_addr \<Rightarrow> (str \<times> nat) list
    \<Rightarrow> books_net \<Rightarrow> (book_metadata \<times> nat) list \<times> books_net" where
  "hydrate hash cdb self [] n = ([], n)"
| "hydrate hash cdb self ((book_id, score) # rest) n =
     (case get hash cdb self book_id n of
        (Some metadata, n1) \<Rightarrow>
          (case hydrate hash cdb self rest n1 of (results, n2) \<Rightarrow> ((metadata, score) # results, n2))
      | (None, n1) \<Rightarrow> hydrate hash cdb self rest n1)"

text \<open>\<open>sort_by(|a, b| b.1.cmp(&a.1))\<close> is a stable sort by falling score.\<close>

definition rank :: "('a \<times> nat) list \<Rightarrow> ('a \<times> nat) list" where
  "rank results = sort_key (\<lambda>r. - int (snd r)) results"

definition search :: "unicode \<Rightarrow> ((str \<times> nat) list \<Rightarrow> (str \<times> nat) list) \<Rightarrow> (str \<Rightarrow> u64)
    \<Rightarrow> (str, str list) codec \<Rightarrow> (str, book_metadata) codec \<Rightarrow> sock_addr \<Rightarrow> str \<Rightarrow> index_net \<times> books_net
    \<Rightarrow> (book_metadata \<times> nat) list \<times> index_net \<times> books_net" where
  "search u order hash cdi cdb self query st =
     (case st of (idx, bks) \<Rightarrow>
        let query_tokens = tokenize_query u query
        in case score_tokens hash cdi self query_tokens [] idx of (book_scores, idx1) \<Rightarrow>
           case hydrate hash cdb self (order book_scores) bks of (results, bks1) \<Rightarrow>
             (rank results, idx1, bks1))"

subsection \<open>The handler\<close>

record search_params =
  sp_q :: str
  sp_limit :: "nat option"
  sp_offset :: "nat option"

record search_result_item =
  sr_book_id :: str
  sr_title :: str
  sr_author :: str
  sr_score :: nat

record search_response =
  rs_query :: str
  rs_filters :: "(str, str) dashmap"
  rs_total_count :: nat
  rs_count :: nat
  rs_results :: "search_result_item list"

definition result_item :: "book_metadata \<times> nat \<Rightarrow> search_result_item" where
  "result_item r = \<lparr>sr_book_id = bm_book_id (fst r), sr_title = bm_title (fst r),
     sr_author = bm_author (fst r), sr_score = snd r\<rparr>"

definition handle_search :: "unicode \<Rightarrow> ((str \<times> nat) list \<Rightarrow> (str \<times> nat) list) \<Rightarrow> (str \<Rightarrow> u64)
    \<Rightarrow> (str, str list) codec \<Rightarrow> (str, book_metadata) codec \<Rightarrow> sock_addr \<Rightarrow> search_params
    \<Rightarrow> index_net \<times> books_net \<Rightarrow> search_response \<times> index_net \<times> books_net" where
  "handle_search u order hash cdi cdb self params st =
     (case search u order hash cdi cdb self (sp_q params) st of (found, st1) \<Rightarrow>
        let results = map result_item found;
            limit = (case sp_limit params of Some l \<Rightarrow> l | None \<Rightarrow> 10);
            offset = (case sp_offset params of Some l \<Rightarrow> l | None \<Rightarrow> 0);
            total_count = length results;
            page = take limit (drop offset results)
        in (\<lparr>rs_query = sp_q params, rs_filters = [], rs_total_count = total_count,
             rs_count = length page, rs_results = page\<rparr>, st1))"

subsection \<open>Specification\<close>

text \<open>
  Over an abstract index \<open>I\<close> and abstract metadata \<open>B\<close>, a book scores one point for each occurrence
  in the postings of each query token.
\<close>

definition postings :: "(str \<Rightarrow> str list option) \<Rightarrow> str \<Rightarrow> str list" where
  "postings I token = (case I token of Some ids \<Rightarrow> ids | None \<Rightarrow> [])"

definition score :: "(str \<Rightarrow> str list option) \<Rightarrow> str list \<Rightarrow> str \<Rightarrow> nat" where
  "score I tokens b = sum_list (map (\<lambda>t. count_list (postings I t) b) tokens)"

definition nat_of :: "nat option \<Rightarrow> nat" where
  "nat_of x = (case x of Some v \<Rightarrow> v | None \<Rightarrow> 0)"

text \<open>Scores in the table are positive; a book without points is not in it.\<close>

definition scores_ok :: "(str, nat) dashmap \<Rightarrow> bool" where
  "scores_ok scores \<longleftrightarrow> dm_wf scores \<and> (\<forall>b s. dm_get scores b = Some s \<longrightarrow> 0 < s)"

lemma nat_of_bump: "nat_of (dm_get (bump b scores) b') = nat_of (dm_get scores b') + (if b' = b then 1 else 0)"
  by (simp add: bump_def nat_of_def split: option.splits)

lemma scores_ok_bump: "scores_ok scores \<Longrightarrow> scores_ok (bump b scores)"
  by (auto simp: scores_ok_def bump_def split: if_splits option.splits)

lemma fold_bump:
  "scores_ok scores \<Longrightarrow> scores_ok (fold bump ids scores) \<and>
     nat_of (dm_get (fold bump ids scores) b) = nat_of (dm_get scores b) + count_list ids b"
  by (induction ids arbitrary: scores) (auto simp: nat_of_bump scores_ok_bump)

text \<open>A reachable map: every read gives the value of the abstract map \<open>A\<close>.\<close>

definition readable :: "(str \<Rightarrow> u64) \<Rightarrow> (str, 'v) codec \<Rightarrow> str list \<Rightarrow> (str \<Rightarrow> sock_addr) \<Rightarrow> partition_manager
    \<Rightarrow> (str \<Rightarrow> 'v option) \<Rightarrow> (str, 'v) cluster \<Rightarrow> bool" where
  "readable hash cd ids addr pm A n \<longleftrightarrow> healthy ids addr pm n \<and> codec_ok cd \<and>
     consistent hash cd ids addr pm n A \<and> reliable n \<and> all_listening ids addr n"

definition url_safe :: "('k, 'v) codec \<Rightarrow> 'k \<Rightarrow> bool" where
  "url_safe cd k \<longleftrightarrow> url_segment cd (to_string cd k) = Some (to_string cd k)"

lemma readable_get:
  assumes r: "readable hash cd ids addr pm A n" and i: "i \<in> set ids" and url: "url_safe cd k"
  shows "\<exists>n'. get hash cd (addr i) k n = (A k, n') \<and> servers n' = servers n \<and> same_network n n'"
proof -
  have h: "healthy ids addr pm n" and cd: "codec_ok cd" and con: "consistent hash cd ids addr pm n A"
    and net: "reliable n" "all_listening ids addr n" using r by (simp_all add: readable_def)
  let ?own = "placement ids pm (key_partition hash cd pm k)"
  obtain q bs where own: "?own = q # bs" and q: "q \<in> set ids"
    using placement_cases [OF h i] by metis
  have "listening n (addr q)" using net(2) q by (simp add: all_listening_def)
  then have "\<exists>j \<in> set ?own. listening n (addr j)" using own by auto
  with get_effect [OF h cd i url [unfolded url_safe_def] con] net(1) obtain r n' where
    g: "get hash cd (addr i) k n = (r, n')" and "servers n' = servers n" "r = A k" by auto
  then show ?thesis using get_network [of n hash cd "addr i" k] by simp
qed

lemma readable_same:
  "readable hash cd ids addr pm A n \<Longrightarrow> servers n' = servers n \<Longrightarrow> same_network n n' \<Longrightarrow>
     readable hash cd ids addr pm A n'"
  using healthy_servers [of ids addr pm n n']
  by (simp add: readable_def consistent_def reliable_same all_listening_same)

lemma score_tokens_effect:
  assumes i: "i \<in> set ids"
  shows "readable hash cdi ids addr pm I n \<Longrightarrow> \<forall>t \<in> set tokens. url_safe cdi t \<Longrightarrow> scores_ok scores \<Longrightarrow>
    \<exists>s' n'. score_tokens hash cdi (addr i) tokens scores n = (s', n') \<and> servers n' = servers n \<and>
      scores_ok s' \<and> (\<forall>b. nat_of (dm_get s' b) = nat_of (dm_get scores b) + score I tokens b)"
proof (induction tokens arbitrary: scores n)
  case Nil
  then show ?case by (simp add: score_def)
next
  case (Cons t tokens)
  obtain n1 where g: "get hash cdi (addr i) t n = (I t, n1)" and sv: "servers n1 = servers n"
    and net: "same_network n n1" using readable_get [OF Cons.prems(1) i, of t] Cons.prems(2) by auto
  let ?s = "fold bump (postings I t) scores"
  have step: "score_tokens hash cdi (addr i) (t # tokens) scores n = score_tokens hash cdi (addr i) tokens ?s n1"
    using g by (simp add: postings_def split: option.split)
  have "readable hash cdi ids addr pm I n1" using readable_same [OF Cons.prems(1) sv net] .
  from Cons.IH [OF this _ conjunct1 [OF fold_bump [OF Cons.prems(3)]]] Cons.prems(2) obtain s' n' where
    "score_tokens hash cdi (addr i) tokens ?s n1 = (s', n')" "servers n' = servers n1" "scores_ok s'"
    "\<forall>b. nat_of (dm_get s' b) = nat_of (dm_get ?s b) + score I tokens b" by force
  with sv step fold_bump [OF Cons.prems(3), of "postings I t"] show ?case by (simp add: score_def)
qed

definition found :: "(str \<Rightarrow> book_metadata option) \<Rightarrow> (str \<times> nat) list \<Rightarrow> (book_metadata \<times> nat) list" where
  "found B xs = List.map_filter (\<lambda>(b, s). map_option (\<lambda>m. (m, s)) (B b)) xs"

lemma hydrate_effect:
  assumes i: "i \<in> set ids"
  shows "readable hash cdb ids addr pm B n \<Longrightarrow> \<forall>x \<in> set xs. url_safe cdb (fst x) \<Longrightarrow>
    \<exists>n'. hydrate hash cdb (addr i) xs n = (found B xs, n') \<and> servers n' = servers n"
proof (induction xs arbitrary: n)
  case Nil
  then show ?case by (simp add: found_def List.map_filter_def)
next
  case (Cons x xs)
  obtain b s where x: "x = (b, s)" by (cases x)
  obtain n1 where g: "get hash cdb (addr i) b n = (B b, n1)" and sv: "servers n1 = servers n"
    and net: "same_network n n1" using readable_get [OF Cons.prems(1) i, of b] Cons.prems(2) x by auto
  have "readable hash cdb ids addr pm B n1" using readable_same [OF Cons.prems(1) sv net] .
  with Cons.IH [of n1] Cons.prems(2) obtain n' where
    "hydrate hash cdb (addr i) xs n1 = (found B xs, n')" "servers n' = servers n1" by auto
  with x g sv show ?case by (cases "B b") (auto simp: found_def List.map_filter_def)
qed

lemma mset_found: "mset (found B xs) =
    image_mset (\<lambda>x. (the (B (fst x)), snd x)) (filter_mset (\<lambda>x. B (fst x) \<noteq> None) (mset xs))"
  by (induction xs) (auto simp: found_def List.map_filter_def)

lemma scores_mset:
  assumes ok: "scores_ok S" and sc: "\<And>b. nat_of (dm_get S b) = f b"
  shows "mset S = image_mset (\<lambda>b. (b, f b)) (mset_set {b. 0 < f b})"
proof -
  have mem: "(b, s) \<in> set S \<longleftrightarrow> 0 < f b \<and> s = f b" for b s
  proof -
    have "(b, s) \<in> set S \<longleftrightarrow> dm_get S b = Some s"
      using ok dm_get_eq_Some_iff [of S b s] by (simp add: scores_ok_def)
    also have "\<dots> \<longleftrightarrow> 0 < f b \<and> s = f b"
      using ok sc [of b] by (cases "dm_get S b") (auto simp: scores_ok_def nat_of_def)
    finally show ?thesis .
  qed
  have "set S = (\<lambda>b. (b, f b)) ` {b. 0 < f b}" using mem by auto
  moreover have "distinct S" using ok by (simp add: scores_ok_def dm_wf_def distinct_map)
  moreover have "inj_on (\<lambda>b. (b, f b)) {b. 0 < f b}" by (simp add: inj_on_def)
  ultimately show ?thesis by (metis image_mset_mset_set mset_set_set)
qed

lemma rank_sorted: "sorted_wrt (\<lambda>r r'. snd r' \<le> snd r) (rank rs)"
proof -
  have "sorted (map (\<lambda>r. - int (snd r)) (rank rs))" by (simp add: rank_def)
  then show ?thesis by (simp add: sorted_map) 
qed

subsection \<open>Properties\<close>

lemma score_pos_iff: "0 < score I tokens b \<longleftrightarrow> (\<exists>t \<in> set tokens. b \<in> set (postings I t))"
proof -
  have "score I tokens b = 0 \<longleftrightarrow> (\<forall>t \<in> set tokens. count_list (postings I t) b = 0)"
    by (simp add: score_def)
  then show ?thesis by (auto simp: count_list_0_iff)
qed

lemma ranked_member:
  "mset rs = image_mset f (mset_set S) \<Longrightarrow> b \<in> S \<Longrightarrow> finite S \<Longrightarrow> f b \<in> set rs"
  by (metis finite_set_mset_mset_set image_eqI set_image_mset set_mset_mset)

lemma finite_scored: "finite {b. 0 < score I tokens b}"
proof (rule finite_subset)
  show "{b. 0 < score I tokens b} \<subseteq> (\<Union>t \<in> set tokens. set (postings I t))" by (auto simp: score_pos_iff)
qed simp

lemma search_effect:
  assumes "readable hash cdi ids addr pm I idx" and "readable hash cdb ids addr pm B bks" and "i \<in> set ids"
    and "\<forall>t \<in> set (tokenize_query u query). url_safe cdi t"
    and "\<forall>b. 0 < score I (tokenize_query u query) b \<longrightarrow> url_safe cdb b"
    and "\<And>xs. mset (order xs) = mset xs"
  shows "case search u order hash cdi cdb (addr i) query (idx, bks) of (rs, idx', bks') \<Rightarrow>
    sorted_wrt (\<lambda>r r'. snd r' \<le> snd r) rs \<and>
    mset rs = image_mset (\<lambda>b. (the (B b), score I (tokenize_query u query) b))
      (mset_set {b. 0 < score I (tokenize_query u query) b \<and> B b \<noteq> None}) \<and>
    servers idx' = servers idx \<and> servers bks' = servers bks"
proof -
  let ?q = "tokenize_query u query"
  let ?f = "score I ?q"
  have "scores_ok []" by (simp add: scores_ok_def)
  from score_tokens_effect [OF assms(3,1,4) this] obtain S idx' where
    s: "score_tokens hash cdi (addr i) ?q [] idx = (S, idx')" "servers idx' = servers idx" "scores_ok S"
    and sc: "\<And>b. nat_of (dm_get S b) = ?f b" by (auto simp: nat_of_def)
  have mS: "mset (order S) = image_mset (\<lambda>b. (b, ?f b)) (mset_set {b. 0 < ?f b})"
    using scores_mset [OF s(3) sc] assms(6) by simp
  have fin: "finite {b. 0 < ?f b}" by (rule finite_scored)
  have "set (order S) = (\<lambda>b. (b, ?f b)) ` {b. 0 < ?f b}"
    using arg_cong [OF mS, of set_mset] fin by simp
  then have "\<forall>x \<in> set (order S). url_safe cdb (fst x)" using assms(5) by auto
  from hydrate_effect [OF assms(3,2) this] obtain bks' where
    h: "hydrate hash cdb (addr i) (order S) bks = (found B (order S), bks')" "servers bks' = servers bks" by blast
  have "mset (found B (order S)) = image_mset (\<lambda>b. (the (B b), ?f b)) (mset_set {b. 0 < ?f b \<and> B b \<noteq> None})"
    unfolding mset_found mS
    by (simp add: filter_mset_image_mset image_mset.compositionality comp_def fin)
  then have "mset (rank (found B (order S))) = image_mset (\<lambda>b. (the (B b), ?f b)) (mset_set {b. 0 < ?f b \<and> B b \<noteq> None})"
    by (simp add: rank_def)
  with s h rank_sorted show ?thesis by (simp add: search_def Let_def)
qed

text \<open>A search where the copies need not agree: it finds a book when the node sees it among the postings of some
  term of the query and sees its metadata, whatever it sees of other terms and books.\<close>

lemma get_keeps_running:
  assumes "running hash cd ids addr pm C n" and "get hash cd a k n = (r, n')"
  shows "running hash cd ids addr pm C n'"
  using running_same [OF assms(1)] get_servers [of hash cd a k n] get_network [of n hash cd a k] assms(2) by simp

lemma score_tokens_running:
  assumes i: "i \<in> set ids"
  shows "running hash cdi ids addr pm C n \<Longrightarrow> scores_ok scores \<Longrightarrow>
    \<exists>S n'. score_tokens hash cdi (addr i) tokens scores n = (S, n') \<and> scores_ok S \<and>
      nat_of (dm_get scores b) \<le> nat_of (dm_get S b) \<and>
      (\<forall>t l. t \<in> set tokens \<and> url_safe cdi t \<and> b \<in> set l \<and>
         visible (placement ids pm (key_partition hash cdi pm t)) (\<lambda>j. C j t) i = Some l \<longrightarrow>
         0 < nat_of (dm_get S b))"
proof (induction tokens arbitrary: scores n)
  case Nil
  then show ?case by simp
next
  case (Cons t tokens)
  let ?see = "\<lambda>t. visible (placement ids pm (key_partition hash cdi pm t)) (\<lambda>j. C j t) i"
  obtain r n1 where g: "get hash cdi (addr i) t n = (r, n1)" by (cases "get hash cdi (addr i) t n")
  have n1: "running hash cdi ids addr pm C n1" using get_keeps_running [OF Cons.prems(1) g] .
  let ?ids = "case r of Some l \<Rightarrow> l | None \<Rightarrow> []"
  let ?s = "fold bump ?ids scores"
  have step: "score_tokens hash cdi (addr i) (t # tokens) scores n = score_tokens hash cdi (addr i) tokens ?s n1"
    using g by (simp split: option.split)
  note s = fold_bump [OF Cons.prems(2), of ?ids b]
  obtain S n' where S: "score_tokens hash cdi (addr i) tokens ?s n1 = (S, n')" "scores_ok S"
    "nat_of (dm_get ?s b) \<le> nat_of (dm_get S b)"
    "\<And>t l. t \<in> set tokens \<and> url_safe cdi t \<and> b \<in> set l \<and> ?see t = Some l \<Longrightarrow> 0 < nat_of (dm_get S b)"
    using Cons.IH [OF n1 conjunct1 [OF s]] by blast
  have "0 < nat_of (dm_get S b)" if "url_safe cdi t" "b \<in> set l" "?see t = Some l" for l
  proof -
    have "r = Some l" using running_get [OF Cons.prems(1) i that(1) [unfolded url_safe_def]] g that(3) by auto
    then have "0 < count_list ?ids b" using that(2) by (simp add: count_list_0_iff zero_less_iff_neq_zero)
    with s S(3) show ?thesis by linarith
  qed
  with S step s show ?case by (intro exI [of _ S] exI [of _ n']) auto
qed

lemma hydrate_running:
  assumes i: "i \<in> set ids" and url: "url_safe cdb b"
    and m: "visible (placement ids pm (key_partition hash cdb pm b)) (\<lambda>j. C j b) i = Some m"
  shows "running hash cdb ids addr pm C n \<Longrightarrow> (b, s) \<in> set xs \<Longrightarrow>
    (m, s) \<in> set (fst (hydrate hash cdb (addr i) xs n))"
proof (induction xs arbitrary: n)
  case (Cons x xs)
  obtain b' s' where x: "x = (b', s')" by (cases x)
  obtain r n1 where g: "get hash cdb (addr i) b' n = (r, n1)" by (cases "get hash cdb (addr i) b' n")
  have n1: "running hash cdb ids addr pm C n1" using get_keeps_running [OF Cons.prems(1) g] .
  show ?case
  proof (cases "x = (b, s)")
    case True
    then have "r = Some m" using running_get [OF Cons.prems(1) i url [unfolded url_safe_def]] m g x by auto
    with True g x show ?thesis by (auto split: prod.split)
  next
    case False
    then have "(m, s) \<in> set (fst (hydrate hash cdb (addr i) xs n1))" using Cons.IH [OF n1] Cons.prems(2) by simp
    with x g show ?thesis by (auto split: option.split prod.split)
  qed
qed simp

lemma search_finds:
  assumes "running hash cdi ids addr pm CI idx" and "running hash cdb ids addr pm CB bks" and "i \<in> set ids"
    and "t \<in> set (tokenize_query u query)" and "url_safe cdi t"
    and "visible (placement ids pm (key_partition hash cdi pm t)) (\<lambda>j. CI j t) i = Some l" and "b \<in> set l"
    and "url_safe cdb b" and "visible (placement ids pm (key_partition hash cdb pm b)) (\<lambda>j. CB j b) i = Some m"
    and "\<And>xs. mset (order xs) = mset xs"
  shows "case search u order hash cdi cdb (addr i) query (idx, bks) of (rs, _) \<Rightarrow> m \<in> fst ` set rs"
proof -
  have "scores_ok []" by (simp add: scores_ok_def)
  from score_tokens_running [OF assms(3,1) this, where b = b and tokens = "tokenize_query u query"] obtain S idx' where
    S: "score_tokens hash cdi (addr i) (tokenize_query u query) [] idx = (S, idx')" "scores_ok S"
    and pos: "0 < nat_of (dm_get S b)"
    using assms(4-7) by blast
  then obtain sc where "dm_get S b = Some sc" by (cases "dm_get S b") (simp_all add: nat_of_def)
  then have "(b, sc) \<in> set (order S)"
    using dm_get_eq_Some_iff [of S b sc] S(2) arg_cong [OF assms(10) [of S], of set_mset] by (simp add: scores_ok_def)
  from hydrate_running [OF assms(3,8,9,2) this] have "m \<in> fst ` set (rank (fst (hydrate hash cdb (addr i) (order S) bks)))"
    by (force simp: rank_def)
  then show ?thesis using S(1) by (auto simp: search_def Let_def split: prod.split)
qed

text \<open>C30: a search over a consistent cluster, at any node, returns each book that has metadata and occurs in
  the postings of some query token, once, with one point for every occurrence, best scores first,
  and changes nothing, whatever order the scores are visited in.\<close>
theorem search_ranks_matches:
  assumes "readable hash cdi ids addr pm I idx" and "readable hash cdb ids addr pm B bks" and "i \<in> set ids"
    and "\<forall>t \<in> set (tokenize_query u query). url_safe cdi t"
    and "\<forall>b. 0 < score I (tokenize_query u query) b \<longrightarrow> url_safe cdb b"
    and "\<And>xs. mset (order xs) = mset xs"
  shows "case search u order hash cdi cdb (addr i) query (idx, bks) of (rs, idx', bks') \<Rightarrow>
    sorted_wrt (\<lambda>r r'. snd r' \<le> snd r) rs \<and>
    mset rs = image_mset (\<lambda>b. (the (B b), score I (tokenize_query u query) b))
      (mset_set {b. 0 < score I (tokenize_query u query) b \<and> B b \<noteq> None}) \<and>
    servers idx' = servers idx \<and> servers bks' = servers bks"
  using search_effect [OF assms] .

text \<open>An example: codecs that number the values, an index with the term \<open>sea\<close> and one book.\<close>

definition number_codec :: "('v \<Rightarrow> nat) \<Rightarrow> (nat \<Rightarrow> 'v) \<Rightarrow> (str, 'v) codec" where
  "number_codec enc dec = \<lparr>to_string = (\<lambda>s. s), parse = Some, to_json = (\<lambda>v. Some [enc v]),
     from_json = (\<lambda>j. case j of [x] \<Rightarrow> Some (dec x) | _ \<Rightarrow> None),
     url_segment = (\<lambda>s. if SLASH \<in> set s then None else Some s)\<rparr>"

lemma number_codec_ok: "(\<And>v. dec (enc v) = v) \<Longrightarrow> codec_ok (number_codec enc dec)"
  by (simp add: codec_ok_def number_codec_def)

definition ids_codec :: "(str, str list) codec" where
  "ids_codec = number_codec to_nat from_nat"

definition metadata_to_nat :: "book_metadata \<Rightarrow> nat" where
  "metadata_to_nat m = to_nat (bm_book_id m, bm_title m, bm_author m, bm_language m,
     map_option unat (bm_year m), bm_word_count m, bm_unique_words m)"

definition metadata_from_nat :: "nat \<Rightarrow> book_metadata" where
  "metadata_from_nat x = (case from_nat x of (i, t, a, l, y, w, k) \<Rightarrow>
     \<lparr>bm_book_id = i, bm_title = t, bm_author = a, bm_language = l, bm_year = map_option of_nat y,
      bm_word_count = w, bm_unique_words = k\<rparr>)"

definition metadata_codec :: "(str, book_metadata) codec" where
  "metadata_codec = number_codec metadata_to_nat metadata_from_nat"

lemma sample_codecs_ok [simp]: "codec_ok ids_codec" "codec_ok metadata_codec"
proof -
  show "codec_ok ids_codec" by (simp add: ids_codec_def number_codec_ok)
  have "map_option (of_nat \<circ> unat) y = (y :: u32 option)" for y by (cases y) simp_all
  then have "metadata_from_nat (metadata_to_nat m) = m" for m
    by (cases m) (simp add: metadata_from_nat_def metadata_to_nat_def option.map_comp)
  then show "codec_ok metadata_codec" by (simp add: metadata_codec_def number_codec_ok)
qed

definition moby :: book_metadata where
  "moby = \<lparr>bm_book_id = lit ''15'', bm_title = lit ''Moby Dick'', bm_author = lit ''Melville'',
     bm_language = lit ''English'', bm_year = Some 1851, bm_word_count = 3, bm_unique_words = 3\<rparr>"

lemma loaded_readable:
  assumes "codec_ok cd"
  shows "readable hash cd three_ids node_addr new_partition_manager [k \<mapsto> w]
    (loaded_cluster hash cd three_ids new_partition_manager k w)"
  unfolding readable_def
  using loaded_cluster_healthy [OF three_ids_simps(1) three_rf] loaded_cluster_consistent [OF assms]
  by (simp add: assms) (simp add: loaded_cluster_def)

theorem search_ranks_matches_witness:
  "case search ascii_unicode (\<lambda>xs. xs) length_hash ids_codec metadata_codec (node_addr (lit ''a'')) (lit ''sea'')
     (loaded_cluster length_hash ids_codec three_ids new_partition_manager (lit ''sea'') [lit ''15''],
      loaded_cluster length_hash metadata_codec three_ids new_partition_manager (lit ''15'') moby)
   of (rs, idx', bks') \<Rightarrow> mset rs = {#(moby, 1)#}"
proof -
  let ?I = "[lit ''sea'' \<mapsto> [lit ''15'']]" and ?B = "[lit ''15'' \<mapsto> moby]"
  have letters: "list_all ascii_letter (lit ''sea'')" "list_all (\<lambda>c. \<not> ascii_upper c) (lit ''sea'')"
    by (simp_all add: lit_simps ascii_letter_def ascii_upper_def)
  have "lit ''sea'' \<in> tokenize_text ascii_unicode (lit ''sea'')"
    using runs_whole [of "lit ''sea''" ascii_word]
    by (simp add: tokenize_text_def ascii_unicode_def lit_simps ascii_lower_def ascii_upper_def
        ascii_letter_def ascii_word_def utf8_width_def)
  then have q: "tokenize_query ascii_unicode (lit ''sea'') = [lit ''sea'']"
    using index_token_query [OF ascii_unicode_ok, of "[lit ''sea'']"] by auto
  have sc: "score ?I [lit ''sea''] b = (if b = lit ''15'' then 1 else 0)" for b
    by (simp add: score_def postings_def)
  have url: "url_safe ids_codec (lit ''sea'')" "url_safe metadata_codec (lit ''15'')"
    by (simp_all add: url_safe_def ids_codec_def metadata_codec_def number_codec_def SLASH_def lit_simps)
  have one: "{b. 0 < score ?I [lit ''sea''] b \<and> ?B b \<noteq> None} = {lit ''15''}" by (auto simp: sc)
  have toks: "\<forall>t \<in> set (tokenize_query ascii_unicode (lit ''sea'')). url_safe ids_codec t"
    by (simp add: q url)
  have books: "\<forall>b. 0 < score ?I (tokenize_query ascii_unicode (lit ''sea'')) b \<longrightarrow> url_safe metadata_codec b"
    by (simp add: q sc url)
  have a: "lit ''a'' \<in> set three_ids" by simp
  from search_ranks_matches [where order = "\<lambda>xs. xs" and hash = length_hash,
      OF loaded_readable [OF sample_codecs_ok(1)]
      loaded_readable [OF sample_codecs_ok(2), where k = "lit ''15''" and w = moby] a toks books refl]
  show ?thesis unfolding q one by (simp add: sc split: prod.splits)
qed

end
