(* ===== verification/Documents.thy ===== *)
theory Documents
  imports Search
begin

text \<open>
  Taking a downloaded e-book apart (\<open>src/src/ingestion/handlers.rs\<close>): the split into header and body
  at the Gutenberg markers, the metadata fields of the header, the word counts. Strings are lists of
  characters here where Rust counts bytes; the positions Rust slices at are found by \<open>find\<close>, so they
  are character boundaries. A slice with its bounds out of order would panic: the result is \<open>None\<close>.
\<close>

definition START_MARKER :: str where
  "START_MARKER = lit ''*** START OF THE PROJECT GUTENBERG EBOOK''"

definition END_MARKER :: str where
  "END_MARKER = lit ''*** END OF THE PROJECT GUTENBERG EBOOK''"

subsection \<open>Strings\<close>

definition starts_with :: "str \<Rightarrow> str \<Rightarrow> bool" where
  "starts_with pat s \<longleftrightarrow> take (length pat) s = pat"

text \<open>The position of the first occurrence.\<close>

fun str_find :: "str \<Rightarrow> str \<Rightarrow> nat option" where
  "str_find pat [] = (if pat = [] then Some 0 else None)"
| "str_find pat (c # s) =
     (if starts_with pat (c # s) then Some 0 else map_option Suc (str_find pat s))"

definition slice :: "nat \<Rightarrow> nat \<Rightarrow> str \<Rightarrow> str option" where
  "slice a b s = (if a \<le> b \<and> b \<le> length s then Some (take (b - a) (drop a s)) else None)"

text \<open>\<open>str::lines\<close>: a line ends with a line feed, or a carriage return and a line feed.\<close>

definition strip_cr :: "str \<Rightarrow> str" where
  "strip_cr l = (if l \<noteq> [] \<and> last l = 13 then butlast l else l)"

function lines :: "str \<Rightarrow> str list" where
  "lines s =
     (if s = [] then []
      else if 10 \<in> set s
      then strip_cr (takeWhile (\<lambda>c. c \<noteq> 10) s) # lines (drop 1 (dropWhile (\<lambda>c. c \<noteq> 10) s))
      else [s])"
  by pat_completeness auto
termination
proof (relation "measure length", simp)
  fix s :: str
  assume "s \<noteq> []" "10 \<in> set s"
  then have "dropWhile (\<lambda>c. c \<noteq> 10) s \<noteq> []" by (auto simp: dropWhile_eq_Nil_conv)
  then show "(drop 1 (dropWhile (\<lambda>c. c \<noteq> 10) s), s) \<in> measure length"
    using length_dropWhile_le [of "\<lambda>c. c \<noteq> 10" s] by (cases "dropWhile (\<lambda>c. c \<noteq> 10) s") auto
qed

declare lines.simps [simp del]

text \<open>\<open>parse\<close> for an unsigned integer of \<open>w\<close> bits: an optional plus sign, then decimal digits whose value
  fits.\<close>

definition digit :: "nat \<Rightarrow> bool" where
  "digit c \<longleftrightarrow> 48 \<le> c \<and> c \<le> 57"

definition digits_value :: "str \<Rightarrow> nat" where
  "digits_value s = foldl (\<lambda>v c. 10 * v + (c - 48)) 0 s"

definition parse_unsigned :: "nat \<Rightarrow> str \<Rightarrow> nat option" where
  "parse_unsigned w s =
     (let ds = (case s of c # t \<Rightarrow> if c = 43 then t else s | [] \<Rightarrow> [])
      in if ds \<noteq> [] \<and> list_all digit ds \<and> digits_value ds < 2 ^ w then Some (digits_value ds) else None)"

definition parse_u32 :: "str \<Rightarrow> u32 option" where
  "parse_u32 s = map_option of_nat (parse_unsigned 32 s)"

subsection \<open>The parser\<close>

text \<open>The outer option is \<open>None\<close> for a panic.\<close>

definition split_gutenberg_text :: "unicode \<Rightarrow> str \<Rightarrow> (str \<times> str) option option" where
  "split_gutenberg_text u text =
     (case str_find START_MARKER text of
        None \<Rightarrow> Some None
      | Some start_idx \<Rightarrow>
          (case str_find END_MARKER text of
             None \<Rightarrow> Some None
           | Some end_idx \<Rightarrow>
               if start_idx \<ge> end_idx then Some None
               else (case slice 0 start_idx text of
                       None \<Rightarrow> None
                     | Some header \<Rightarrow>
                         (case slice (start_idx + length START_MARKER) end_idx text of
                            None \<Rightarrow> None
                          | Some body \<Rightarrow> Some (Some (trim u header, trim u body))))))"

definition extract_header_field :: "unicode \<Rightarrow> str \<Rightarrow> str \<Rightarrow> str option" where
  "extract_header_field u header label =
     (case List.find (starts_with label) (lines header) of
        None \<Rightarrow> None
      | Some line \<Rightarrow>
          (let v = trim u (drop (length label) line) in if v \<noteq> [] then Some v else None))"

definition extract_year :: "unicode \<Rightarrow> str option \<Rightarrow> u32 option" where
  "extract_year u field =
     (case field of
        None \<Rightarrow> None
      | Some text \<Rightarrow> (case four_digits u text of None \<Rightarrow> None | Some y \<Rightarrow> parse_u32 y))"

definition unwrap_or :: "'a \<Rightarrow> 'a option \<Rightarrow> 'a" where
  "unwrap_or d x = (case x of Some v \<Rightarrow> v | None \<Rightarrow> d)"

definition parse_metadata :: "unicode \<Rightarrow> str \<Rightarrow> str \<Rightarrow> nat \<Rightarrow> nat \<Rightarrow> book_metadata" where
  "parse_metadata u header book_id word_count unique_words =
     (let title = unwrap_or (lit ''Book '' @ book_id) (extract_header_field u header (lit ''Title:''));
          author = unwrap_or (lit ''Unknown'') (extract_header_field u header (lit ''Author:''));
          language = unwrap_or (lit ''unknown'') (extract_header_field u header (lit ''Language:''));
          year = extract_year u (extract_header_field u header (lit ''Release Date:''))
      in \<lparr>bm_book_id = book_id, bm_title = title, bm_author = author, bm_language = language,
          bm_year = year, bm_word_count = word_count, bm_unique_words = unique_words\<rparr>)"

text \<open>The loop over the matches keeps the counter and the \<open>HashSet\<close>.\<close>

definition compute_counts :: "unicode \<Rightarrow> str \<Rightarrow> nat \<times> nat" where
  "compute_counts u body =
     (case fold (\<lambda>cap (words, unique). (words + 1, insert (to_lowercase u cap) unique))
        (word_matches u body) (0, {}) of
        (words, unique) \<Rightarrow> (words, card unique))"

subsection \<open>Searching a text\<close>

text \<open>\<open>pat\<close> occurs in \<open>s\<close> right after the prefix \<open>pre\<close>, and nowhere before.\<close>

definition first_at :: "str \<Rightarrow> str \<Rightarrow> str \<Rightarrow> bool" where
  "first_at pat pre s \<longleftrightarrow> (\<exists>post. s = pre @ pat @ post) \<and>
     (\<forall>pre' post. s = pre' @ pat @ post \<longrightarrow> length pre \<le> length pre')"

lemma starts_with_iff: "starts_with pat s \<longleftrightarrow> (\<exists>post. s = pat @ post)"
  by (metis append_take_drop_id append_eq_conv_conj starts_with_def)

lemma str_find_Some:
  "str_find pat s = Some i \<Longrightarrow> i + length pat \<le> length s \<and> starts_with pat (drop i s) \<and>
     (\<forall>j < i. \<not> starts_with pat (drop j s))"
proof (induction pat s arbitrary: i rule: str_find.induct)
  case (1 pat)
  then show ?case by (auto simp: starts_with_def split: if_splits)
next
  case (2 pat c s)
  show ?case
  proof (cases "starts_with pat (c # s)")
    case True
    with "2.prems" show ?thesis by (auto simp: starts_with_iff dest: arg_cong [of _ _ length])
  next
    case False
    with "2.prems" obtain i' where i: "i = Suc i'" "str_find pat s = Some i'" by auto
    have "\<not> starts_with pat (drop j (c # s))" if "j < i" for j
      using "2.IH" [OF False i(2)] False i(1) that by (cases j) auto
    with "2.IH" [OF False i(2)] i(1) show ?thesis by simp
  qed
qed

lemma str_find_None: "str_find pat s = None \<Longrightarrow> \<not> starts_with pat (drop j s)"
proof (induction pat s arbitrary: j rule: str_find.induct)
  case (1 pat)
  then show ?case by (auto simp: starts_with_def split: if_splits)
next
  case (2 pat c s)
  then show ?case by (cases j) (auto split: if_splits)
qed

lemma starts_with_drop: "s = pre @ pat @ post \<Longrightarrow> starts_with pat (drop (length pre) s)"
  by (simp add: starts_with_iff)

lemma str_find_iff: "str_find pat s = Some i \<longleftrightarrow> i \<le> length s \<and> first_at pat (take i s) s"
proof
  assume "str_find pat s = Some i"
  note f = str_find_Some [OF this]
  obtain post where post: "drop i s = pat @ post" using f starts_with_iff by blast
  have "s = take i s @ pat @ post" using post append_take_drop_id [of i s] by metis
  moreover have "length (take i s) \<le> length pre'" if "s = pre' @ pat @ post'" for pre' post'
  proof (rule ccontr)
    assume "\<not> length (take i s) \<le> length pre'"
    then have "length pre' < i" using f by simp
    with f starts_with_drop [OF that] show False by blast
  qed
  ultimately show "i \<le> length s \<and> first_at pat (take i s) s" using f unfolding first_at_def by auto
next
  assume a: "i \<le> length s \<and> first_at pat (take i s) s"
  then obtain post where "s = take i s @ pat @ post" unfolding first_at_def by blast
  from starts_with_drop [OF this] a have at: "starts_with pat (drop i s)" by simp
  then obtain j where j: "str_find pat s = Some j" using str_find_None by (cases "str_find pat s") auto
  note f = str_find_Some [OF j]
  obtain post' where "drop j s = pat @ post'" using f starts_with_iff by blast
  then have "s = take j s @ pat @ post'" using append_take_drop_id [of j s] by metis
  with a have "length (take i s) \<le> length (take j s)" unfolding first_at_def by blast
  moreover have "\<not> i < j" using f at by blast
  ultimately show "str_find pat s = Some i" using a f j by (auto simp: min_def split: if_splits)
qed

text \<open>The markers cannot overlap: after its first character the start marker never goes on as the end
  marker begins.\<close>

lemma starts_with_mono: "starts_with (a @ b) s \<Longrightarrow> starts_with a s"
  by (auto simp: starts_with_iff)

lemma starts_with_take: "starts_with pat s \<Longrightarrow> k \<le> length pat \<Longrightarrow> take k s = take k pat"
  by (auto simp: starts_with_iff)

lemma marker_lengths [simp]: "length START_MARKER = 40" "length END_MARKER = 38"
  by (simp_all add: START_MARKER_def END_MARKER_def)

lemma nth_lit: "i < length s \<Longrightarrow> lit s ! i = of_char (s ! i)"
  by (simp add: lit_def)

lemma star_positions:
  "i < 40 \<Longrightarrow> START_MARKER ! i = 42 \<longleftrightarrow> i < 3"
  "END_MARKER ! 0 = 42" "END_MARKER ! 1 = 42" "END_MARKER ! 2 = 42" "END_MARKER ! 3 = 32"
proof -
  have "\<forall>i \<in> set [0..<40]. START_MARKER ! i = 42 \<longleftrightarrow> i < 3"
    unfolding START_MARKER_def by code_simp
  then show "i < 40 \<Longrightarrow> START_MARKER ! i = 42 \<longleftrightarrow> i < 3" by simp
qed (simp_all add: END_MARKER_def lit_simps)

lemma starts_with_nth:
  "starts_with pat (drop i s) \<Longrightarrow> k < length pat \<Longrightarrow> i \<le> length s \<Longrightarrow> s ! (i + k) = pat ! k"
proof -
  assume "starts_with pat (drop i s)" and k: "k < length pat" and i: "i \<le> length s"
  then obtain post where "drop i s = pat @ post" using starts_with_iff by blast
  then have "drop i s ! k = pat ! k" using k by (simp add: nth_append)
  then show "s ! (i + k) = pat ! k" using i by simp
qed

lemma markers_disjoint:
  assumes "starts_with START_MARKER (drop i s)" and "starts_with END_MARKER (drop j s)"
    and "i < j" and "j \<le> length s"
  shows "i + 40 \<le> j"
proof (rule ccontr)
  assume "\<not> i + 40 \<le> j"
  then obtain d where d: "j = i + d" "0 < d" "d < 40" using assms(3) by (metis add_less_cancel_left less_imp_add_positive not_le)
  have S: "s ! (i + k) = START_MARKER ! k" if "k < 40" for k
    using starts_with_nth [OF assms(1)] that assms(3,4) by simp
  have E: "s ! (i + (d + k)) = END_MARKER ! k" if "k < 38" for k
    using starts_with_nth [OF assms(2), of k] that assms(4) d(1) by (simp add: add.assoc)
  have "START_MARKER ! d = 42" using S [OF d(3)] E [of 0] star_positions by simp
  then have "d < 3" using star_positions(1) [OF d(3)] by simp
  then have "START_MARKER ! 3 = 42"
    using d(2) S [of 3] E [of 1] E [of 2] star_positions(3,4) by (cases "d = 1") (auto simp: less_Suc_eq numeral_3_eq_3)
  then show False using star_positions(1) [of 3] by simp
qed

lemma slice_middle: "slice (length a) (length a + length b) (a @ b @ c) = Some b"
  by (simp add: slice_def)

lemma first_at_find: "first_at pat pre s \<longleftrightarrow> str_find pat s = Some (length pre) \<and> take (length pre) s = pre"
proof
  assume f: "first_at pat pre s"
  then have "take (length pre) s = pre" "length pre \<le> length s" unfolding first_at_def by auto
  with f show "str_find pat s = Some (length pre) \<and> take (length pre) s = pre" by (simp add: str_find_iff)
next
  assume f: "str_find pat s = Some (length pre) \<and> take (length pre) s = pre"
  then have "first_at pat (take (length pre) s) s" using str_find_iff by blast
  then show "first_at pat pre s" unfolding conjunct2 [OF f] .
qed

lemma split_found:
  assumes "str_find START_MARKER text = Some i" and "str_find END_MARKER text = Some j" and "i < j"
  shows "\<exists>mid. text = take i text @ START_MARKER @ mid @ drop j text \<and> length mid = j - (i + 40) \<and> i + 40 \<le> j \<and>
    split_gutenberg_text u text = Some (Some (trim u (take i text), trim u mid))"
proof -
  note S = str_find_Some [OF assms(1)] and E = str_find_Some [OF assms(2)]
  have le: "i + 40 \<le> j" "j \<le> length text" using markers_disjoint [where s = "text"] S E assms(3) by auto
  let ?mid = "take (j - (i + 40)) (drop (i + 40) text)"
  obtain post where post: "drop i text = START_MARKER @ post" using S starts_with_iff by blast
  then have "drop (i + 40) text = post" using drop_drop [of 40 i "text"] by (simp add: add.commute)
  then have "drop i text = START_MARKER @ drop (i + 40) text" using post by simp
  moreover have "drop (i + 40) text = ?mid @ drop j text"
    using le append_take_drop_id [of "j - (i + 40)" "drop (i + 40) text"] by simp
  ultimately have "text = take i text @ START_MARKER @ ?mid @ drop j text"
    by (metis append_assoc append_take_drop_id)
  then show ?thesis using assms le by (auto simp: split_gutenberg_text_def slice_def)
qed

lemma split_not_found:
  "\<not> (\<exists>i j. str_find START_MARKER text = Some i \<and> str_find END_MARKER text = Some j \<and> i < j) \<Longrightarrow>
     split_gutenberg_text u text = Some None"
  by (auto simp: split_gutenberg_text_def split: option.split)

text \<open>C32: splitting a book never panics, and it succeeds exactly when the first end marker comes after the first
  start marker: the header is the trimmed text before the first, the body the trimmed text between the
  two, with all that is left of the line of the start marker.\<close>
theorem split_gutenberg_text_spec:
  "split_gutenberg_text u text \<noteq> None \<and>
   (split_gutenberg_text u text = Some (Some (header, body)) \<longleftrightarrow>
      (\<exists>pre mid. first_at START_MARKER pre text \<and> first_at END_MARKER (pre @ START_MARKER @ mid) text \<and>
         header = trim u pre \<and> body = trim u mid))"
proof (cases "\<exists>i j. str_find START_MARKER text = Some i \<and> str_find END_MARKER text = Some j \<and> i < j")
  case True
  then obtain i j where ij: "str_find START_MARKER text = Some i" "str_find END_MARKER text = Some j" "i < j" by blast
  from split_found [OF this] obtain mid where
    mid: "text = take i text @ START_MARKER @ mid @ drop j text" "length mid = j - (i + 40)" "i + 40 \<le> j"
    and res: "split_gutenberg_text u text = Some (Some (trim u (take i text), trim u mid))" by blast
  have len: "length (take i text) = i" "length (take i text @ START_MARKER @ mid) = j"
    using mid str_find_Some [OF ij(1)] by auto
  then have "take j text = take i text @ START_MARKER @ mid"
    using mid(1) by (metis append_assoc append_eq_conv_conj)
  with len ij have at: "first_at START_MARKER (take i text) text"
    "first_at END_MARKER (take i text @ START_MARKER @ mid) text" by (simp_all add: first_at_find)
  moreover have "pre = take i text \<and> mid' = mid"
    if "first_at START_MARKER pre text" "first_at END_MARKER (pre @ START_MARKER @ mid') text" for pre mid'
  proof -
    have "pre = take i text" using that(1) ij(1) by (auto simp: first_at_find)
    moreover have "pre @ START_MARKER @ mid' = take i text @ START_MARKER @ mid"
      using that(2) at(2) unfolding first_at_find ij(2) option.inject by metis
    ultimately show ?thesis by simp
  qed
  ultimately have "(\<exists>pre mid. first_at START_MARKER pre text \<and> first_at END_MARKER (pre @ START_MARKER @ mid) text \<and>
         header = trim u pre \<and> body = trim u mid) \<longleftrightarrow> header = trim u (take i text) \<and> body = trim u mid" by blast
  then show ?thesis using res by (simp only: option.simps prod.inject) (simp add: eq_commute)
next
  case False
  then have "\<not> (first_at START_MARKER pre text \<and> first_at END_MARKER (pre @ START_MARKER @ mid) text)" for pre mid
    by (auto simp: first_at_find)
  with split_not_found [OF False, of u] show ?thesis by auto
qed

subsection \<open>Lines and header fields\<close>

text \<open>A header as Gutenberg prints it: one field per line.\<close>

definition print_lines :: "str list \<Rightarrow> str" where
  "print_lines ls = concat (map (\<lambda>l. l @ [10]) ls)"

definition line_ok :: "str \<Rightarrow> bool" where
  "line_ok l \<longleftrightarrow> 10 \<notin> set l \<and> (l \<noteq> [] \<longrightarrow> last l \<noteq> 13)"

lemma lines_cons: "10 \<notin> set l \<Longrightarrow> lines (l @ 10 # s) = strip_cr l # lines s"
proof -
  assume "10 \<notin> set l"
  then have "takeWhile (\<lambda>c. c \<noteq> 10) (l @ 10 # s) = l" "dropWhile (\<lambda>c. c \<noteq> 10) (l @ 10 # s) = 10 # s"
    by (auto simp: takeWhile_append dropWhile_append)
  then show ?thesis by (subst lines.simps) simp
qed

lemma lines_print: "\<forall>l \<in> set ls. line_ok l \<Longrightarrow> lines (print_lines ls) = ls"
proof (induction ls)
  case Nil
  then show ?case by (simp add: print_lines_def lines.simps)
next
  case (Cons l ls)
  then have "10 \<notin> set l" "strip_cr l = l" by (auto simp: line_ok_def strip_cr_def)
  with Cons lines_cons [of l "print_lines ls"] show ?case by (simp add: print_lines_def)
qed

definition trimmed :: "unicode \<Rightarrow> str \<Rightarrow> bool" where
  "trimmed u s \<longleftrightarrow> s \<noteq> [] \<and> \<not> is_whitespace u (hd s) \<and> \<not> is_whitespace u (last s)"

lemma trim_space: "is_whitespace u 32 \<Longrightarrow> trimmed u s \<Longrightarrow> trim u (32 # s) = s"
proof -
  assume "is_whitespace u 32" and t: "trimmed u s"
  then have "dropWhile (is_whitespace u) (32 # s) = s" "dropWhile (is_whitespace u) (rev s) = rev s"
    by (auto simp: trimmed_def dropWhile_eq_self_iff hd_rev)
  then show ?thesis by (simp add: trim_def trim_matches_def del: dropWhile.simps)
qed

lemma field_value:
  assumes "\<forall>l \<in> set ls. line_ok l" and "List.find (starts_with label) ls = Some (label @ 32 # v)"
    and "is_whitespace u 32" and "trimmed u v"
  shows "extract_header_field u (print_lines ls) label = Some v"
  using assms trim_space [OF assms(3,4)]
  by (simp add: extract_header_field_def lines_print Let_def) (simp add: trimmed_def)

definition field_line :: "string \<Rightarrow> str \<Rightarrow> str" where
  "field_line label v = lit label @ 32 # v"

definition book_header :: "str \<Rightarrow> str \<Rightarrow> str \<Rightarrow> str \<Rightarrow> str list" where
  "book_header title author date language =
     [field_line ''Title:'' title, [], field_line ''Author:'' author, [],
      field_line ''Release Date:'' date, field_line ''Language:'' language]"

definition field_ok :: "unicode \<Rightarrow> str \<Rightarrow> bool" where
  "field_ok u v \<longleftrightarrow> trimmed u v \<and> 10 \<notin> set v \<and> last v \<noteq> 13"

lemma field_line_ok: "field_ok u v \<Longrightarrow> label \<in> {''Title:'', ''Author:'', ''Release Date:'', ''Language:''} \<Longrightarrow>
    line_ok (field_line label v)"
  by (auto simp: field_ok_def trimmed_def line_ok_def field_line_def lit_simps)

lemma book_header_fields:
  assumes "is_whitespace u 32" and "field_ok u t" and "field_ok u a" and "field_ok u d" and "field_ok u l"
  shows "extract_header_field u (print_lines (book_header t a d l)) (lit ''Title:'') = Some t"
    and "extract_header_field u (print_lines (book_header t a d l)) (lit ''Author:'') = Some a"
    and "extract_header_field u (print_lines (book_header t a d l)) (lit ''Release Date:'') = Some d"
    and "extract_header_field u (print_lines (book_header t a d l)) (lit ''Language:'') = Some l"
proof -
  have ok: "\<forall>x \<in> set (book_header t a d l). line_ok x"
    using assms(2-5) field_line_ok by (auto simp: book_header_def line_ok_def [of "[]"])
  have tr: "trimmed u t" "trimmed u a" "trimmed u d" "trimmed u l" using assms by (simp_all add: field_ok_def)
  note f = field_value [OF ok _ assms(1)]
  show "extract_header_field u (print_lines (book_header t a d l)) (lit ''Title:'') = Some t"
    by (rule f [OF _ tr(1)]) (simp add: book_header_def field_line_def starts_with_def lit_simps)
  show "extract_header_field u (print_lines (book_header t a d l)) (lit ''Author:'') = Some a"
    by (rule f [OF _ tr(2)]) (simp add: book_header_def field_line_def starts_with_def lit_simps)
  show "extract_header_field u (print_lines (book_header t a d l)) (lit ''Release Date:'') = Some d"
    by (rule f [OF _ tr(3)]) (simp add: book_header_def field_line_def starts_with_def lit_simps)
  show "extract_header_field u (print_lines (book_header t a d l)) (lit ''Language:'') = Some l"
    by (rule f [OF _ tr(4)]) (simp add: book_header_def field_line_def starts_with_def lit_simps)
qed

text \<open>C33: the metadata of a header that prints title, author, release date and language one per line come
  back unchanged, and the year is the first number of four digits in the date.\<close>
theorem parse_metadata_roundtrip:
  assumes "is_whitespace u 32" and "field_ok u t" and "field_ok u a" and "field_ok u d" and "field_ok u l"
  shows "parse_metadata u (print_lines (book_header t a d l)) i w n =
    \<lparr>bm_book_id = i, bm_title = t, bm_author = a, bm_language = l,
     bm_year = (case four_digits u d of Some y \<Rightarrow> parse_u32 y | None \<Rightarrow> None),
     bm_word_count = w, bm_unique_words = n\<rparr>"
  using book_header_fields [OF assms]
  by (simp add: parse_metadata_def unwrap_or_def extract_year_def Let_def split: option.split)

theorem parse_metadata_roundtrip_witness:
  "parse_metadata ascii_unicode
     (print_lines (book_header (lit ''Moby Dick'') (lit ''Melville'') (lit ''1851'') (lit ''English''))) (lit ''15'') 3 3
   = \<lparr>bm_book_id = lit ''15'', bm_title = lit ''Moby Dick'', bm_author = lit ''Melville'',
      bm_language = lit ''English'', bm_year = Some 1851, bm_word_count = 3, bm_unique_words = 3\<rparr>"
proof -
  have ok: "field_ok ascii_unicode (lit ''Moby Dick'')" "field_ok ascii_unicode (lit ''Melville'')"
    "field_ok ascii_unicode (lit ''1851'')" "field_ok ascii_unicode (lit ''English'')"
    by (simp_all add: field_ok_def trimmed_def ascii_unicode_def lit_simps)
  have "four_digits ascii_unicode (lit ''1851'') = Some (lit ''1851'')"
    by (simp add: ascii_unicode_def lit_simps digit_char_def)
  moreover have "parse_u32 (lit ''1851'') = Some 1851"
    by (simp add: parse_u32_def parse_unsigned_def digits_value_def digit_def lit_simps)
  ultimately show ?thesis using parse_metadata_roundtrip [OF unicode_okD(6) [OF ascii_unicode_ok] ok, of "lit ''15''" 3 3] by simp
qed

subsection \<open>Word counts\<close>

lemma counts_fold:
  "fold (\<lambda>cap (words, unique). (words + 1, insert (f cap) unique)) xs (k, S) = (k + length xs, f ` set xs \<union> S)"
  by (induction xs arbitrary: k S) auto

lemma compute_counts_eq:
  "compute_counts u body = (length (word_matches u body), card (to_lowercase u ` set (word_matches u body)))"
  unfolding compute_counts_def counts_fold by simp

lemma runs_map: "(\<And>c. P (f c) = P c) \<Longrightarrow> runs P (map f s) = map (map f) (runs P s)"
proof (induction P s rule: runs.induct)
  case (1 P s)
  have P: "P \<circ> f = P" "(\<lambda>c. \<not> P c) \<circ> f = (\<lambda>c. \<not> P c)" using "1.prems" by (auto simp: fun_eq_iff)
  show ?case
  proof (cases "dropWhile (\<lambda>c. \<not> P c) s")
    case Nil
    then show ?thesis by (simp only: runs.simps [of P s] runs.simps [of P "map f s"] dropWhile_map P list.map list.case)
  next
    case (Cons c t)
    then have "runs P (map f s) = (f c # map f (takeWhile P t)) # runs P (map f (dropWhile P t))"
      by (simp add: runs.simps [of P "map f s"] dropWhile_map takeWhile_map P)
    with "1.IH" [OF Cons "1.prems"] Cons show ?thesis by (simp add: runs.simps [of P s])
  qed
qed

lemma ascii_lower_letter: "ascii_letter (ascii_lower c) \<longleftrightarrow> ascii_letter c"
  by (auto simp: ascii_lower_def ascii_letter_def ascii_upper_def)

lemma ascii_lower_word: "unicode_ok u \<Longrightarrow> word_char u (ascii_lower c) \<longleftrightarrow> word_char u c"
  using unicode_okD(4) [of u c] unicode_okD(4) [of u "ascii_lower c"] ascii_lower_letter [of c]
  by (auto simp: ascii_lower_def ascii_letter_def)

lemma ascii_matches:
  assumes "unicode_ok u" and "list_all (\<lambda>c. c < 128) body"
  shows "word_matches u (to_lowercase u body) = map (to_lowercase u) (word_matches u body)"
proof -
  have low: "to_lowercase u w = map ascii_lower w" if "list_all ascii_letter w" for w
    using that ascii_letter_less by (intro unicode_okD(1) [OF assms(1)]) (auto simp: list_all_iff)
  have "word_matches u (to_lowercase u body)
      = filter (list_all ascii_letter) (map (map ascii_lower) (runs (word_char u) body))"
    by (simp add: unicode_okD(7) [OF assms(1)] unicode_okD(1) [OF assms] runs_map ascii_lower_word [OF assms(1)])
  also have "\<dots> = map (map ascii_lower) (filter (list_all ascii_letter) (runs (word_char u) body))"
    by (simp add: filter_map comp_def list.pred_map ascii_lower_letter [abs_def])
  also have "\<dots> = map (to_lowercase u) (word_matches u body)"
    using low by (auto simp: unicode_okD(7) [OF assms(1)])
  finally show ?thesis .
qed

text \<open>C37: for an ASCII text the words that the ingestion counts and the terms that the indexer adds agree: the
  index terms are exactly the counted words, in lower case, of more than two letters, so there are
  at most as many as the unique words, which are at most as many as the words.\<close>
theorem ascii_terms_are_counted:
  assumes "unicode_ok u" and "list_all (\<lambda>c. c < 128) body"
  shows "tokenize_text u body = {w \<in> to_lowercase u ` set (word_matches u body). 2 < str_len w} \<and>
    card (tokenize_text u body) \<le> snd (compute_counts u body) \<and>
    snd (compute_counts u body) \<le> fst (compute_counts u body)"
proof -
  let ?W = "to_lowercase u ` set (word_matches u body)"
  have eq: "tokenize_text u body = {w \<in> ?W. 2 < str_len w}"
    by (auto simp: tokenize_text_def ascii_matches [OF assms])
  moreover have "card {w \<in> ?W. 2 < str_len w} \<le> card ?W" by (rule card_mono) auto
  moreover have "card ?W \<le> length (word_matches u body)"
    using card_image_le [of "set (word_matches u body)" "to_lowercase u"] card_length [of "word_matches u body"]
    by simp
  ultimately show ?thesis by (simp add: compute_counts_eq)
qed

theorem ascii_terms_are_counted_witness:
  "card (tokenize_text ascii_unicode (lit ''The sea, the sea'')) \<le>
     snd (compute_counts ascii_unicode (lit ''The sea, the sea''))"
proof -
  have "list_all (\<lambda>c. c < 128) (lit ''The sea, the sea'')" by (simp add: lit_simps)
  from ascii_terms_are_counted [OF ascii_unicode_ok this] show ?thesis by blast
qed

end
