(* ===== verification/TaskQueue.thy ===== *)
theory TaskQueue
  imports Placement
begin

text \<open>
  One node's part of the distributed task queue (\<open>src/src/executor/queue.rs\<close>, \<open>types.rs\<close>,
  \<open>protocol.rs\<close>) and the HTTP handlers that touch that part only (\<open>handlers.rs\<close>): the tasks by
  partition and id, claiming, leases and completion. The operations that involve other nodes are
  in \<open>QueueCluster\<close>. \<open>'p\<close> is the type of payloads (\<open>serde_json::Value\<close>), \<open>now\<close> is what
  \<open>now_ms()\<close> reads; a task id is its UUID string.
\<close>

datatype task_status = Pending | Running | Completed | Failed str

datatype 'p task = Execute (task_handler: str) (task_payload: 'p)

record 'p task_entry =
  etask :: "'p task"
  estatus :: task_status
  assigned_to :: "str option"
  created_at :: u64
  lease_expires :: "u64 option"

record 'p queue =
  local_tasks :: "(u32, (str, 'p task_entry) dashmap) dashmap"
  queue_membership :: membership
  queue_partitioner :: partition_manager
  now :: u64

definition new_queue :: "membership \<Rightarrow> partition_manager \<Rightarrow> u64 \<Rightarrow> 'p queue" where
  "new_queue ms pm t = \<lparr>local_tasks = [], queue_membership = ms, queue_partitioner = pm, now = t\<rparr>"

text \<open>The entry every submission creates.\<close>

definition pending_entry :: "'p task \<Rightarrow> u64 \<Rightarrow> 'p task_entry" where
  "pending_entry t created = \<lparr>etask = t, estatus = Pending, assigned_to = None, created_at = created,
     lease_expires = None\<rparr>"

subsection \<open>The store\<close>

definition tasks_of :: "'p queue \<Rightarrow> u32 \<Rightarrow> (str, 'p task_entry) dashmap" where
  "tasks_of q p = (case dm_get (local_tasks q) p of Some partition_map \<Rightarrow> partition_map | None \<Rightarrow> [])"

definition store_task :: "u32 \<Rightarrow> str \<Rightarrow> 'p task_entry \<Rightarrow> 'p queue \<Rightarrow> 'p queue" where
  "store_task p task_id entry q =
     (let partition_map = tasks_of q p;
          partition_map1 = (if \<not> dm_contains_key partition_map task_id
                            then dm_insert task_id entry partition_map else partition_map)
      in q\<lparr>local_tasks := dm_insert p partition_map1 (local_tasks q)\<rparr>)"

definition dump_tasks :: "u32 \<Rightarrow> 'p queue \<Rightarrow> (str \<times> 'p task_entry) list" where
  "dump_tasks p q = tasks_of q p"

definition has_tasks :: "u32 \<Rightarrow> 'p queue \<Rightarrow> bool" where
  "has_tasks p q \<longleftrightarrow>
     (case dm_get (local_tasks q) p of Some partition_map \<Rightarrow> partition_map \<noteq> [] | None \<Rightarrow> False)"

definition apply_tasks :: "u32 \<Rightarrow> (str \<times> 'p task_entry) list \<Rightarrow> 'p queue \<Rightarrow> 'p queue" where
  "apply_tasks p entries q =
     q\<lparr>local_tasks := dm_insert p
         (fold (\<lambda>(task_id, entry) partition_map.
            if \<not> dm_contains_key partition_map task_id then dm_insert task_id entry partition_map
            else partition_map) entries (tasks_of q p)) (local_tasks q)\<rparr>"

definition local_task_partitions :: "'p queue \<Rightarrow> nat" where
  "local_task_partitions q = length (local_tasks q)"

definition local_task_count :: "'p queue \<Rightarrow> nat" where
  "local_task_count q = sum_list (map length (dm_values (local_tasks q)))"

fun count_status :: "task_status \<Rightarrow> nat \<times> nat \<times> nat \<times> nat \<Rightarrow> nat \<times> nat \<times> nat \<times> nat" where
  "count_status Pending (pending, running, completed, failed) = (Suc pending, running, completed, failed)"
| "count_status Running (pending, running, completed, failed) = (pending, Suc running, completed, failed)"
| "count_status Completed (pending, running, completed, failed) = (pending, running, Suc completed, failed)"
| "count_status (Failed e) (pending, running, completed, failed) = (pending, running, completed, Suc failed)"

definition local_task_status_counts :: "'p queue \<Rightarrow> nat \<times> nat \<times> nat \<times> nat" where
  "local_task_status_counts q =
     fold (\<lambda>partition_map. fold (\<lambda>e. count_status (estatus e)) (dm_values partition_map))
       (dm_values (local_tasks q)) (0, 0, 0, 0)"

subsection \<open>Lookup, claiming, leases\<close>

definition task_partition :: "(str \<Rightarrow> u64) \<Rightarrow> str \<Rightarrow> 'p queue \<Rightarrow> u32" where
  "task_partition hash task_id q = get_partition hash (queue_partitioner q) task_id"

text \<open>The nested lookup \<open>local_tasks.get(&partition)\<close>, then \<open>partition_map.get(task_id)\<close>.\<close>

definition task_at :: "'p queue \<Rightarrow> u32 \<Rightarrow> str \<Rightarrow> 'p task_entry option" where
  "task_at q p task_id =
     (case dm_get (local_tasks q) p of Some partition_map \<Rightarrow> dm_get partition_map task_id | None \<Rightarrow> None)"

definition get_task_local :: "(str \<Rightarrow> u64) \<Rightarrow> str \<Rightarrow> 'p queue \<Rightarrow> 'p task_entry option" where
  "get_task_local hash task_id q = task_at q (task_partition hash task_id q) task_id"

text \<open>Writing through the guard of \<open>get_mut\<close>.\<close>

definition set_task :: "u32 \<Rightarrow> str \<Rightarrow> 'p task_entry \<Rightarrow> 'p queue \<Rightarrow> 'p queue" where
  "set_task p task_id entry q =
     q\<lparr>local_tasks := dm_insert p (dm_insert task_id entry (tasks_of q p)) (local_tasks q)\<rparr>"

definition get_my_primary_partitions :: "'p queue \<Rightarrow> u32 list" where
  "get_my_primary_partitions q =
     filter (\<lambda>p. let owners = get_owners (queue_partitioner q) (queue_membership q) p
                 in owners \<noteq> [] \<and> owners ! 0 = nid (local_node (queue_membership q)))
       (partitions (queue_partitioner q))"

definition is_available :: "u64 \<Rightarrow> 'p task_entry \<Rightarrow> bool" where
  "is_available t e =
     (case estatus e of
        Pending \<Rightarrow> True
      | Running \<Rightarrow> (case lease_expires e of Some lease \<Rightarrow> t > lease | None \<Rightarrow> False)
      | _ \<Rightarrow> False)"

definition my_pending_tasks :: "'p queue \<Rightarrow> (str \<times> 'p task_entry) list" where
  "my_pending_tasks q =
     concat (map (\<lambda>p. filter (\<lambda>(task_id, e). is_available (now q) e) (tasks_of q p))
       (get_my_primary_partitions q))"

definition LEASE_MS :: u64 where "LEASE_MS = 30000"

definition try_claim_task :: "(str \<Rightarrow> u64) \<Rightarrow> str \<Rightarrow> 'p queue \<Rightarrow> (error + bool) \<times> 'p queue" where
  "try_claim_task hash task_id q =
     (let p = task_partition hash task_id q
      in case task_at q p task_id of
           Some entry \<Rightarrow>
             if estatus entry \<noteq> Pending then (Inr False, q)
             else (Inr True, set_task p task_id
                    (entry\<lparr>estatus := Running,
                           assigned_to := Some (nid (local_node (queue_membership q))),
                           lease_expires := Some (now q + LEASE_MS)\<rparr>) q)
         | None \<Rightarrow> (Inr False, q))"

definition renew_lease :: "(str \<Rightarrow> u64) \<Rightarrow> str \<Rightarrow> 'p queue \<Rightarrow> (error + unit) \<times> 'p queue" where
  "renew_lease hash task_id q =
     (let p = task_partition hash task_id q
      in case task_at q p task_id of
           Some entry \<Rightarrow>
             if estatus entry = Running
             then (Inr (), set_task p task_id (entry\<lparr>lease_expires := Some (now q + LEASE_MS)\<rparr>) q)
             else (Inl TaskNotRunning, q)
         | None \<Rightarrow> (Inl TaskNotFound, q))"

text \<open>The result of a handler is \<open>Ok(())\<close> or an error, here its text \<open>e.to_string()\<close>.\<close>

type_synonym task_result = "str + unit"

definition complete_task :: "(str \<Rightarrow> u64) \<Rightarrow> str \<Rightarrow> task_result \<Rightarrow> 'p queue \<Rightarrow> (error + unit) \<times> 'p queue" where
  "complete_task hash task_id result q =
     (let p = task_partition hash task_id q
      in case task_at q p task_id of
           Some entry \<Rightarrow>
             (let entry1 = (case result of
                              Inr _ \<Rightarrow> entry\<lparr>estatus := Completed\<rparr>
                            | Inl e \<Rightarrow> entry\<lparr>estatus := Failed e\<rparr>)
              in (Inr (), set_task p task_id (entry1\<lparr>lease_expires := None\<rparr>) q))
         | None \<Rightarrow> (Inl TaskNotFound, q))"

subsection \<open>Local HTTP handlers\<close>

record 'p replicate_task_request =
  rt_partition :: u32
  rt_task_id :: str
  rt_entry :: "'p task_entry"

type_synonym 'p get_task_response = "status \<times> 'p task_entry option"

record 'p task_dump =
  td_partition :: u32
  td_entries :: "(str \<times> 'p task_entry) list"

definition handle_replicate_task :: "'p replicate_task_request \<Rightarrow> 'p queue \<Rightarrow> status \<times> 'p queue" where
  "handle_replicate_task req q = (OK, store_task (rt_partition req) (rt_task_id req) (rt_entry req) q)"

definition handle_get_task_internal :: "(str \<Rightarrow> u64) \<Rightarrow> str \<Rightarrow> 'p queue \<Rightarrow> 'p get_task_response \<times> 'p queue" where
  "handle_get_task_internal hash task_id q =
     ((case get_task_local hash task_id q of
         Some entry \<Rightarrow> (OK, Some entry)
       | None \<Rightarrow> (NOT_FOUND, None)), q)"

definition handle_task_partition_dump :: "u32 \<Rightarrow> 'p queue \<Rightarrow> (status \<times> 'p task_dump) \<times> 'p queue" where
  "handle_task_partition_dump p q = ((OK, \<lparr>td_partition = p, td_entries = dump_tasks p q\<rparr>), q)"

text \<open>The route \<open>/internal/get_task/:id\<close>: \<open>seg\<close> is what the receiving router reads off the path.\<close>

definition route_get_task :: "(str \<Rightarrow> str option) \<Rightarrow> (str \<Rightarrow> u64) \<Rightarrow> str \<Rightarrow> 'p queue
    \<Rightarrow> 'p get_task_response \<times> 'p queue" where
  "route_get_task seg hash path q =
     (case seg path of
        None \<Rightarrow> ((NOT_FOUND, None), q)
      | Some task_id \<Rightarrow> handle_get_task_internal hash task_id q)"

subsection \<open>The store is a two-level store that keeps the first entry\<close>

definition queue_wf :: "'p queue \<Rightarrow> bool" where
  "queue_wf q \<longleftrightarrow> dm_wf (local_tasks q) \<and> (\<forall>pm \<in> snd ` set (local_tasks q). dm_wf pm)"

lemma dm_get_tasks_of: "dm_get (tasks_of q p) i = task_at q p i"
  by (simp add: tasks_of_def task_at_def split: option.splits)

lemma task_at_new [simp]: "task_at (new_queue ms pm t) p i = None"
  by (simp add: task_at_def new_queue_def)

lemma queue_wf_new [simp]: "queue_wf (new_queue ms pm t)"
  by (simp add: queue_wf_def new_queue_def)

lemma queue_wf_tasks_of: "queue_wf q \<Longrightarrow> dm_wf (tasks_of q p)"
  unfolding queue_wf_def tasks_of_def
  by (cases "dm_get (local_tasks q) p") (auto dest: dm_get_in_values)

lemma queue_wf_set_partition:
  assumes "queue_wf q" and "dm_wf pm"
  shows "queue_wf (q\<lparr>local_tasks := dm_insert p pm (local_tasks q)\<rparr>)"
proof -
  have "\<forall>pm \<in> snd ` set (local_tasks q). dm_wf pm" using assms(1) unfolding queue_wf_def by blast
  then have "\<forall>x \<in> snd ` set (dm_insert p pm (local_tasks q)). dm_wf x"
    using assms(2) by (rule dm_insert_all_values)
  moreover have "dm_wf (dm_insert p pm (local_tasks q))"
    using assms(1) by (intro dm_wf_insert) (simp add: queue_wf_def)
  moreover have "local_tasks (q\<lparr>local_tasks := dm_insert p pm (local_tasks q)\<rparr>)
      = dm_insert p pm (local_tasks q)" by simp
  ultimately show ?thesis unfolding queue_wf_def by (simp only: simp_thms)
qed

lemma task_at_set_partition:
  "task_at (q\<lparr>local_tasks := dm_insert p pm (local_tasks q)\<rparr>) p' i
     = (if p' = p then dm_get pm i else task_at q p' i)"
  by (simp add: task_at_def)

lemma task_at_store_task [simp]:
  "task_at (store_task p i e q) p' i' =
     (if p' = p \<and> i' = i then Some (case task_at q p i of Some old \<Rightarrow> old | None \<Rightarrow> e)
      else task_at q p' i')"
  by (auto simp: store_task_def Let_def task_at_set_partition dm_contains_key_def dm_get_tasks_of
      split: option.splits)

lemma queue_wf_store_task: "queue_wf q \<Longrightarrow> queue_wf (store_task p i e q)"
  unfolding store_task_def Let_def
  by (intro queue_wf_set_partition) (auto intro: queue_wf_tasks_of)

lemma task_at_set_task [simp]:
  "task_at (set_task p i e q) p' i' = (if p' = p \<and> i' = i then Some e else task_at q p' i')"
  by (simp add: set_task_def task_at_set_partition dm_get_tasks_of)

lemma queue_wf_set_task: "queue_wf q \<Longrightarrow> queue_wf (set_task p i e q)"
  unfolding set_task_def by (intro queue_wf_set_partition) (auto intro: queue_wf_tasks_of)

interpretation task_store: sharded_store task_at store_task
  "\<lambda>old e. case old of Some e' \<Rightarrow> e' | None \<Rightarrow> e" queue_wf
  by unfold_locales (auto simp: queue_wf_store_task split: option.splits)

lemma store_task_frame [simp]:
  "queue_membership (store_task p i e q) = queue_membership q"
  "queue_partitioner (store_task p i e q) = queue_partitioner q" "now (store_task p i e q) = now q"
  by (simp_all add: store_task_def Let_def)

lemma set_task_frame [simp]:
  "queue_membership (set_task p i e q) = queue_membership q"
  "queue_partitioner (set_task p i e q) = queue_partitioner q" "now (set_task p i e q) = now q"
  by (simp_all add: set_task_def)

text \<open>A repeated store changes nothing: this is what makes the queue's messages safe to resend.\<close>

lemma store_task_idem: "store_task p i e (store_task p i e q) = store_task p i e q"
proof -
  let ?q = "store_task p i e q"
  obtain pm where pm: "?q = q\<lparr>local_tasks := dm_insert p pm (local_tasks q)\<rparr>"
    by (simp add: store_task_def Let_def)
  then have get: "dm_get (local_tasks ?q) p = Some pm" by simp
  then have of: "tasks_of ?q p = pm" by (simp add: tasks_of_def)
  have "dm_contains_key pm i"
    using dm_get_tasks_of [of ?q p i] of by (simp add: dm_contains_key_def)
  then have "store_task p i e ?q = ?q\<lparr>local_tasks := dm_insert p pm (local_tasks ?q)\<rparr>"
    by (simp add: store_task_def [of p i e ?q] of Let_def)
  then show ?thesis using dm_insert_triv [OF get] by simp
qed

interpretation replicate_task: idempotent_service handle_replicate_task
  by unfold_locales (simp add: handle_replicate_task_def store_task_idem)

interpretation get_task_internal: readonly_service "route_get_task seg hash"
  for seg :: "str \<Rightarrow> str option" and hash :: "str \<Rightarrow> u64"
  by unfold_locales (simp add: route_get_task_def handle_get_task_internal_def split: option.split)

interpretation task_dump_service: readonly_service handle_task_partition_dump
  by unfold_locales (simp add: handle_task_partition_dump_def)

lemma apply_tasks_store:
  assumes "es \<noteq> []"
  shows "apply_tasks p es q = fold (\<lambda>(i, e). store_task p i e) es q"
proof -
  let ?ins = "\<lambda>(i, e) m. if \<not> dm_contains_key m i then dm_insert i e m else m"
  have store: "store_task p i e (q\<lparr>local_tasks := dm_insert p m (local_tasks q)\<rparr>)
      = q\<lparr>local_tasks := dm_insert p (?ins (i, e) m) (local_tasks q)\<rparr>" for i e m and q :: "'a queue"
    by (simp add: store_task_def tasks_of_def Let_def)
  have "fold (\<lambda>(i, e). store_task p i e) es (q\<lparr>local_tasks := dm_insert p m (local_tasks q)\<rparr>)
      = q\<lparr>local_tasks := dm_insert p (fold ?ins es m) (local_tasks q)\<rparr>" for es m
    by (induction es arbitrary: m) (auto simp: store split del: if_split)
  moreover obtain i e es' where es: "es = (i, e) # es'" using assms by (cases es) auto
  moreover have "store_task p i e q = q\<lparr>local_tasks := dm_insert p (?ins (i, e) (tasks_of q p)) (local_tasks q)\<rparr>"
    by (simp add: store_task_def Let_def)
  ultimately show ?thesis by (simp add: apply_tasks_def)
qed

end
