(* ===== verification/TaskLifecycle.thy ===== *)
theory TaskLifecycle
  imports TaskQueue
begin

text \<open>
  The life of a task at one node: every way the program changes a node's task table is a
  \<open>queue_op\<close>, in any order, with the clock moving between them as it likes. The lemmas follow one
  entry through a run of operations; the properties are the guarantees a worker relies on (one
  successful claim, no lease stolen, results kept) and the one it does not have (a task whose
  worker died is offered for ever and can never be claimed).
\<close>

datatype 'p queue_op =
    StoreTask u32 str "'p task_entry"
  | ApplyTasks u32 "(str \<times> 'p task_entry) list"
  | Claim str
  | Renew str
  | Complete str task_result
  | ClockTo u64

fun queue_step :: "(str \<Rightarrow> u64) \<Rightarrow> 'p queue_op \<Rightarrow> 'p queue \<Rightarrow> 'p queue" where
  "queue_step hash (StoreTask p i e) q = store_task p i e q"
| "queue_step hash (ApplyTasks p es) q = apply_tasks p es q"
| "queue_step hash (Claim i) q = snd (try_claim_task hash i q)"
| "queue_step hash (Renew i) q = snd (renew_lease hash i q)"
| "queue_step hash (Complete i r) q = snd (complete_task hash i r q)"
| "queue_step hash (ClockTo t) q = q\<lparr>now := t\<rparr>"

definition queue_run :: "(str \<Rightarrow> u64) \<Rightarrow> 'p queue_op list \<Rightarrow> 'p queue \<Rightarrow> 'p queue" where
  "queue_run hash ops q = fold (queue_step hash) ops q"

lemma queue_run_simps [simp]:
  "queue_run hash [] q = q"
  "queue_run hash (op # ops) q = queue_run hash ops (queue_step hash op q)"
  by (simp_all add: queue_run_def)

subsection \<open>What one operation does to one entry\<close>

lemma apply_tasks_empty: "task_at (apply_tasks p [] q) p' i = task_at q p' i"
  by (simp add: apply_tasks_def task_at_set_partition dm_get_tasks_of)

lemma task_at_now [simp]: "task_at (q\<lparr>now := t\<rparr>) = task_at q"
  by (simp add: task_at_def fun_eq_iff)

lemma task_at_store_kept:
  "task_at q p' i' = Some e \<Longrightarrow> task_at (store_task p i e' q) p' i' = Some e"
  by auto

lemma task_at_fold_store:
  "task_at q p' i = Some e \<Longrightarrow> task_at (fold (\<lambda>(i, e). store_task p i e) es q) p' i = Some e"
  by (induction es arbitrary: q) (auto simp: task_at_store_kept simp del: task_at_store_task)

lemma task_at_apply:
  assumes "task_at q p' i = Some e"
  shows "task_at (apply_tasks p es q) p' i = Some e"
  using assms by (cases "es = []") (simp_all add: apply_tasks_empty apply_tasks_store task_at_fold_store)

lemma apply_tasks_frame [simp]:
  "queue_membership (apply_tasks p es q) = queue_membership q"
  "queue_partitioner (apply_tasks p es q) = queue_partitioner q" "now (apply_tasks p es q) = now q"
  by (simp_all add: apply_tasks_def)

lemma queue_step_frame [simp]:
  "queue_membership (queue_step hash op q) = queue_membership q"
  "queue_partitioner (queue_step hash op q) = queue_partitioner q"
  by (cases op; auto simp: try_claim_task_def renew_lease_def complete_task_def Let_def
      split: option.splits)+

lemma queue_run_frame [simp]:
  "queue_membership (queue_run hash ops q) = queue_membership q"
  "queue_partitioner (queue_run hash ops q) = queue_partitioner q"
  by (induction ops arbitrary: q) auto

text \<open>The entry the operations on the task \<open>i\<close> look at.\<close>

lemma get_task_local_after:
  "get_task_local hash i (queue_step hash op q) = task_at (queue_step hash op q) (task_partition hash i q) i"
  by (simp add: get_task_local_def task_partition_def)

definition entry_after :: "(str \<Rightarrow> u64) \<Rightarrow> str \<Rightarrow> 'p queue_op \<Rightarrow> 'p queue \<Rightarrow> 'p task_entry \<Rightarrow> 'p task_entry" where
  "entry_after hash i op q e =
     (case op of
        Claim j \<Rightarrow> if j = i \<and> estatus e = Pending
          then e\<lparr>estatus := Running, assigned_to := Some (nid (local_node (queue_membership q))),
                 lease_expires := Some (now q + LEASE_MS)\<rparr> else e
      | Renew j \<Rightarrow> if j = i \<and> estatus e = Running then e\<lparr>lease_expires := Some (now q + LEASE_MS)\<rparr> else e
      | Complete j r \<Rightarrow> if j = i
          then (case r of Inr _ \<Rightarrow> e\<lparr>estatus := Completed\<rparr> | Inl msg \<Rightarrow> e\<lparr>estatus := Failed msg\<rparr>)
                 \<lparr>lease_expires := None\<rparr> else e
      | _ \<Rightarrow> e)"

lemma get_task_local_step:
  assumes "get_task_local hash i q = Some e"
  shows "get_task_local hash i (queue_step hash op q) = Some (entry_after hash i op q e)"
proof -
  have e: "task_at q (task_partition hash i q) i = Some e" using assms by (simp add: get_task_local_def)
  show ?thesis
    unfolding get_task_local_after
  proof (cases op)
    case (StoreTask p j e')
    with e show "task_at (queue_step hash op q) (task_partition hash i q) i = Some (entry_after hash i op q e)"
      by (simp add: entry_after_def task_at_store_kept del: task_at_store_task)
  next
    case (ApplyTasks p es)
    with e show "task_at (queue_step hash op q) (task_partition hash i q) i = Some (entry_after hash i op q e)"
      by (simp add: entry_after_def task_at_apply)
  next
    case (Claim j)
    with e show "task_at (queue_step hash op q) (task_partition hash i q) i = Some (entry_after hash i op q e)"
      by (auto simp: entry_after_def try_claim_task_def Let_def split: option.splits)
  next
    case (Renew j)
    with e show "task_at (queue_step hash op q) (task_partition hash i q) i = Some (entry_after hash i op q e)"
      by (auto simp: entry_after_def renew_lease_def Let_def split: option.splits)
  next
    case (Complete j r)
    with e show "task_at (queue_step hash op q) (task_partition hash i q) i = Some (entry_after hash i op q e)"
      by (auto simp: entry_after_def complete_task_def Let_def split: option.splits)
  next
    case (ClockTo t)
    with e show "task_at (queue_step hash op q) (task_partition hash i q) i = Some (entry_after hash i op q e)"
      by (simp add: entry_after_def)
  qed
qed

subsection \<open>Along a run\<close>

fun status_rank :: "task_status \<Rightarrow> nat" where
  "status_rank Pending = 0"
| "status_rank Running = 1"
| "status_rank Completed = 2"
| "status_rank (Failed e) = 2"

text \<open>The order in which a task passes through its states; completed and failed are both final.\<close>

instantiation task_status :: preorder
begin

definition less_eq_task_status :: "task_status \<Rightarrow> task_status \<Rightarrow> bool" where
  "s \<le> t \<longleftrightarrow> status_rank s \<le> status_rank t"

definition less_task_status :: "task_status \<Rightarrow> task_status \<Rightarrow> bool" where
  "s < t \<longleftrightarrow> status_rank s < status_rank t"

instance
  by standard (auto simp: less_eq_task_status_def less_task_status_def)

end

lemma status_le_simps [simp]:
  "Pending \<le> (s :: task_status)" "Running \<le> s \<longleftrightarrow> s \<noteq> Pending" "s \<le> Completed" "s \<le> Failed e"
  "\<not> Completed \<le> Pending" "\<not> Completed \<le> Running"
  by (cases s; simp add: less_eq_task_status_def)+

lemma entry_after_rank: "estatus e \<le> estatus (entry_after hash i op q e)"
  by (cases op; cases "estatus e") (auto simp: entry_after_def split: sum.splits)

lemma entry_after_same [simp]:
  "etask (entry_after hash i op q e) = etask e" "created_at (entry_after hash i op q e) = created_at e"
  by (cases op; auto simp: entry_after_def split: sum.splits)+

lemma get_task_local_run:
  "get_task_local hash i q = Some e \<Longrightarrow> \<exists>e'. get_task_local hash i (queue_run hash ops q) = Some e' \<and>
     etask e' = etask e \<and> created_at e' = created_at e \<and>
     estatus e \<le> estatus e'"
proof (induction ops arbitrary: q e)
  case Nil
  then show ?case by simp
next
  case (Cons op ops)
  from Cons.IH [OF get_task_local_step [OF Cons.prems, of op]] obtain e' where
    "get_task_local hash i (queue_run hash ops (queue_step hash op q)) = Some e'"
    "etask e' = etask e" "created_at e' = created_at e"
    "estatus (entry_after hash i op q e) \<le> estatus e'" by auto
  with entry_after_rank [of e hash i op q] show ?case by (auto intro: order_trans)
qed

fun claims :: "(str \<Rightarrow> u64) \<Rightarrow> str \<Rightarrow> 'p queue_op list \<Rightarrow> 'p queue \<Rightarrow> nat" where
  "claims hash i [] q = 0"
| "claims hash i (op # ops) q =
     (case op of Claim j \<Rightarrow> if j = i \<and> fst (try_claim_task hash i q) = Inr True then 1 else 0 | _ \<Rightarrow> 0)
     + claims hash i ops (queue_step hash op q)"

lemma try_claim_iff:
  "fst (try_claim_task hash i q) = Inr True \<longleftrightarrow>
     (\<exists>e. get_task_local hash i q = Some e \<and> estatus e = Pending)"
  by (auto simp: try_claim_task_def get_task_local_def Let_def split: option.splits)

lemma no_claims:
  "get_task_local hash i q = Some e \<Longrightarrow> Running \<le> estatus e \<Longrightarrow> claims hash i ops q = 0"
proof (induction ops arbitrary: q e)
  case Nil
  then show ?case by simp
next
  case (Cons op ops)
  have "estatus e \<noteq> Pending" using Cons.prems(2) by auto
  then have no: "fst (try_claim_task hash i q) \<noteq> Inr True" using Cons.prems(1) by (auto simp: try_claim_iff)
  have "Running \<le> estatus (entry_after hash i op q e)"
    using Cons.prems(2) entry_after_rank [of e hash i op q] by (rule order_trans)
  from Cons.IH [OF get_task_local_step [OF Cons.prems(1)] this] no show ?case by (cases op) auto
qed

lemma claimed_run:
  "get_task_local hash i q = Some e \<Longrightarrow> estatus e \<noteq> Pending \<Longrightarrow> assigned_to e = w \<Longrightarrow>
     \<exists>e'. get_task_local hash i (queue_run hash ops q) = Some e' \<and> estatus e' \<noteq> Pending \<and> assigned_to e' = w"
proof (induction ops arbitrary: q e)
  case (Cons op ops)
  have "estatus (entry_after hash i op q e) \<noteq> Pending" "assigned_to (entry_after hash i op q e) = w"
    using Cons.prems(2,3) by (auto simp: entry_after_def split: queue_op.split sum.split)
  with Cons.IH [OF get_task_local_step [OF Cons.prems(1), of op]] show ?case by simp
qed simp

text \<open>Entries in order: what the fields say about each other.\<close>

definition entry_ok :: "'p task_entry \<Rightarrow> bool" where
  "entry_ok e \<longleftrightarrow>
     (case estatus e of
        Pending \<Rightarrow> assigned_to e = None \<and> lease_expires e = None
      | Running \<Rightarrow> assigned_to e \<noteq> None \<and> lease_expires e \<noteq> None
      | _ \<Rightarrow> lease_expires e = None)"

definition table_ok :: "'p queue \<Rightarrow> bool" where
  "table_ok q \<longleftrightarrow> (\<forall>p i e. task_at q p i = Some e \<longrightarrow> entry_ok e)"

fun op_ok :: "'p queue_op \<Rightarrow> bool" where
  "op_ok (StoreTask p i e) \<longleftrightarrow> entry_ok e"
| "op_ok (ApplyTasks p es) \<longleftrightarrow> (\<forall>(i, e) \<in> set es. entry_ok e)"
| "op_ok _ \<longleftrightarrow> True"

lemma table_ok_store: "table_ok q \<Longrightarrow> entry_ok e \<Longrightarrow> table_ok (store_task p i e q)"
  by (auto simp: table_ok_def split: option.splits if_splits)

lemma table_ok_set: "table_ok q \<Longrightarrow> entry_ok e \<Longrightarrow> table_ok (set_task p i e q)"
  by (simp add: table_ok_def)

lemma table_okD: "table_ok q \<Longrightarrow> task_at q p i = Some e \<Longrightarrow> entry_ok e"
  by (simp add: table_ok_def)

lemma table_ok_apply: "table_ok q \<Longrightarrow> \<forall>(i, e) \<in> set es. entry_ok e \<Longrightarrow> table_ok (apply_tasks p es q)"
proof (cases "es = []")
  case False
  assume "table_ok q" and "\<forall>(i, e) \<in> set es. entry_ok e"
  then have "table_ok (fold (\<lambda>(i, e). store_task p i e) es q)"
    by (induction es arbitrary: q) (auto simp: table_ok_store)
  with False show ?thesis by (simp add: apply_tasks_store)
qed (simp add: table_ok_def apply_tasks_empty)

lemma table_ok_step: "table_ok q \<Longrightarrow> op_ok op \<Longrightarrow> table_ok (queue_step hash op q)"
proof (cases op)
  case (Claim j)
  assume q: "table_ok q"
  show ?thesis unfolding Claim
    by (auto simp: try_claim_task_def Let_def q entry_ok_def intro!: table_ok_set split: option.split)
next
  case (Renew j)
  assume q: "table_ok q"
  have "entry_ok (e\<lparr>lease_expires := Some l\<rparr>)" if "entry_ok e" "estatus e = Running" for e l
    using that by (simp add: entry_ok_def)
  then show ?thesis unfolding Renew
    by (auto simp: renew_lease_def Let_def q intro!: table_ok_set split: option.split dest: table_okD [OF q])
next
  case (Complete j r)
  assume q: "table_ok q"
  show ?thesis unfolding Complete
    by (auto simp: complete_task_def Let_def q entry_ok_def intro!: table_ok_set split: option.split sum.split)
next
  case (ClockTo t)
  assume "table_ok q"
  then show ?thesis using ClockTo by (simp add: table_ok_def)
qed (auto simp: table_ok_store table_ok_apply)

text \<open>
  A run in which the worker of task \<open>i\<close> keeps up: \<open>renewed\<close> is the time of the last renewal, \<open>cur\<close>
  the current time; the clock never shows more than 30 seconds after the last renewal.
\<close>

fun on_time :: "str \<Rightarrow> u64 \<Rightarrow> u64 \<Rightarrow> 'p queue_op list \<Rightarrow> bool" where
  "on_time i renewed cur [] \<longleftrightarrow> True"
| "on_time i renewed cur (ClockTo t # ops) \<longleftrightarrow>
     unat t \<le> unat renewed + 30000 \<and> unat t + 30000 < 2 ^ 64 \<and> on_time i renewed t ops"
| "on_time i renewed cur (Renew j # ops) \<longleftrightarrow> on_time i (if j = i then cur else renewed) cur ops"
| "on_time i renewed cur (op # ops) \<longleftrightarrow> on_time i renewed cur ops"

definition leased :: "u64 \<Rightarrow> u64 \<Rightarrow> 'p task_entry \<Rightarrow> bool" where
  "leased renewed cur e \<longleftrightarrow> unat cur \<le> unat renewed + 30000 \<and> unat renewed + 30000 < 2 ^ 64 \<and>
     unat cur + 30000 < 2 ^ 64 \<and> estatus e = Running \<and> lease_expires e = Some (renewed + LEASE_MS)"

lemma unat_lease: "unat t + 30000 < 2 ^ 64 \<Longrightarrow> unat (t + LEASE_MS) = unat t + 30000"
  unfolding LEASE_MS_def by (subst unat_add_lem [THEN iffD1]) simp_all

lemma leased_not_available: "leased renewed cur e \<Longrightarrow> \<not> is_available cur e"
  by (simp add: leased_def is_available_def word_less_nat_alt unat_lease)

lemma finished_not_available: "Completed \<le> estatus e \<Longrightarrow> \<not> is_available cur e"
  by (cases "estatus e") (auto simp: is_available_def)

lemma now_step: "now (queue_step hash op q) = (case op of ClockTo t \<Rightarrow> t | _ \<Rightarrow> now q)"
  by (cases op) (auto simp: try_claim_task_def renew_lease_def complete_task_def Let_def split: option.splits)

lemma leased_step:
  assumes "leased renewed (now q) e" and "on_time i renewed (now q) (op # ops)" and "\<And>r. op \<noteq> Complete i r"
  shows "\<exists>renewed'. leased renewed' (now (queue_step hash op q)) (entry_after hash i op q e) \<and>
    on_time i renewed' (now (queue_step hash op q)) ops"
proof (cases op)
  case (Renew j)
  then show ?thesis using assms
    by (intro exI [of _ "if j = i then now q else renewed"]) (simp add: now_step entry_after_def leased_def del: queue_step.simps)
next
  case (Claim j)
  then show ?thesis using assms
    by (intro exI [of _ renewed]) (simp add: now_step entry_after_def leased_def del: queue_step.simps)
next
  case (Complete j r)
  then show ?thesis using assms(1,2) assms(3) [of r]
    by (intro exI [of _ renewed]) (simp add: now_step entry_after_def leased_def del: queue_step.simps)
qed (use assms in \<open>auto simp: entry_after_def leased_def\<close>)

lemma leased_run:
  "get_task_local hash i q = Some e \<Longrightarrow> leased renewed (now q) e \<Longrightarrow> on_time i renewed (now q) ops \<Longrightarrow>
     \<exists>e'. get_task_local hash i (queue_run hash ops q) = Some e' \<and>
       \<not> is_available (now (queue_run hash ops q)) e'"
proof (induction ops arbitrary: q e renewed)
  case Nil
  then show ?case by (auto simp: leased_not_available)
next
  case (Cons op ops)
  note step = get_task_local_step [OF Cons.prems(1), of op]
  show ?case
  proof (cases "\<exists>r. op = Complete i r")
    case True
    then have "Completed \<le> estatus (entry_after hash i op q e)"
      by (auto simp: entry_after_def split: sum.splits)
    with get_task_local_run [OF step, of ops] show ?thesis
      by (auto dest: order_trans finished_not_available)
  next
    case False
    with leased_step [OF Cons.prems(2,3), of hash] obtain renewed' where
      "leased renewed' (now (queue_step hash op q)) (entry_after hash i op q e)"
      "on_time i renewed' (now (queue_step hash op q)) ops" by blast
    from Cons.IH [OF step this] show ?thesis by simp
  qed
qed

subsection \<open>Examples\<close>

definition sample_task :: "unit task" where
  "sample_task = Execute (lit ''index_document'') ()"

text \<open>A single-node queue that holds one pending task.\<close>

definition sample_queue :: "unit queue" where
  "sample_queue = store_task 7 (lit ''t'') (pending_entry sample_task 100)
     (new_queue (stable_view [lit ''a''] (lit ''a'')) new_partition_manager 100)"

definition const_hash :: "str \<Rightarrow> u64" where
  "const_hash s = 7"

lemma sample_queue_partition [simp]:
  "task_partition const_hash i (queue_run hash ops sample_queue) = 7"
  "task_partition const_hash i sample_queue = 7"
proof -
  have "(7 :: u32) mod 256 = 7" by simp
  then show "task_partition const_hash i (queue_run hash ops sample_queue) = 7"
    "task_partition const_hash i sample_queue = 7"
    by (simp_all add: task_partition_def get_partition_def const_hash_def sample_queue_def new_queue_def
        new_partition_manager_def new_with_replication_def)
qed

lemma sample_queue_task:
  "get_task_local const_hash (lit ''t'') sample_queue = Some (pending_entry sample_task 100)"
  by (simp add: get_task_local_def) (simp add: sample_queue_def)

lemma sample_queue_table_ok: "table_ok sample_queue"
proof -
  have "entry_ok (pending_entry sample_task 100)" by (simp add: entry_ok_def pending_entry_def)
  then show ?thesis unfolding sample_queue_def by (intro table_ok_store) (simp_all add: table_ok_def)
qed

subsection \<open>Properties\<close>

text \<open>C22: a node never loses a task and never takes back its progress: along any run of operations, a task
  that is in the table stays there with the same work and submission time, and its status only
  moves forward, from pending to running to completed or failed.\<close>
theorem task_never_goes_back:
  assumes "get_task_local hash i q = Some e"
  shows "case get_task_local hash i (queue_run hash ops q) of None \<Rightarrow> False
    | Some e' \<Rightarrow> etask e' = etask e \<and> created_at e' = created_at e \<and>
        estatus e \<le> estatus e'"
  using get_task_local_run [OF assms, of ops] by auto

theorem task_never_goes_back_witness:
  "case get_task_local const_hash (lit ''t'') (queue_run const_hash
      [Claim (lit ''t''), StoreTask 7 (lit ''t'') (pending_entry sample_task 200)] sample_queue)
   of None \<Rightarrow> False | Some e' \<Rightarrow> created_at e' = 100"
  using task_never_goes_back [OF sample_queue_task, of
      "[Claim (lit ''t''), StoreTask 7 (lit ''t'') (pending_entry sample_task 200)]"]
  by (simp add: pending_entry_def split: option.splits)

text \<open>C10: a claimed task belongs to its worker: once a claim of a pending task has succeeded, no other claim
  of it succeeds as long as the worker keeps its lease, that is, as long as the clock never shows more
  than 30 seconds after the claim or the last renewal; the task stays assigned to the node that claimed
  it and never becomes pending again, however often it is submitted or copied in the meantime. What
  happens after the lease has run out is left open here.\<close>
theorem claim_is_exclusive:
  assumes "get_task_local hash i q = Some e" and "estatus e = Pending"
    and "unat (now q) + 30000 < 2 ^ 64" and "on_time i (now q) (now q) ops"
  shows "case try_claim_task hash i q of (r, q1) \<Rightarrow> r = Inr True \<and> claims hash i ops q1 = 0 \<and>
    (case get_task_local hash i (queue_run hash ops q1) of None \<Rightarrow> False
     | Some e' \<Rightarrow> estatus e' \<noteq> Pending \<and> assigned_to e' = Some (nid (local_node (queue_membership q))) \<and>
         \<not> is_available (now (queue_run hash ops q1)) e')"
proof -
  let ?q1 = "snd (try_claim_task hash i q)" and ?me = "Some (nid (local_node (queue_membership q)))"
  have r: "fst (try_claim_task hash i q) = Inr True" using assms(1,2) by (simp add: try_claim_iff)
  let ?e1 = "entry_after hash i (Claim i) q e"
  have e1: "get_task_local hash i ?q1 = Some ?e1" using get_task_local_step [OF assms(1), of "Claim i"] by simp
  have run: "estatus ?e1 = Running" "assigned_to ?e1 = ?me" "lease_expires ?e1 = Some (now q + LEASE_MS)"
    using assms(2) by (simp_all add: entry_after_def)
  have t: "now ?q1 = now q" using now_step [of hash "Claim i" q] by simp
  have "claims hash i ops ?q1 = 0" using e1 by (rule no_claims) (simp add: run(1))
  moreover obtain e' where e': "get_task_local hash i (queue_run hash ops ?q1) = Some e'" "estatus e' \<noteq> Pending"
    "assigned_to e' = ?me" using claimed_run [OF e1 _ run(2)] run(1) by auto
  moreover have "\<not> is_available (now (queue_run hash ops ?q1)) e'"
    using leased_run [OF e1, of "now q" ops] assms(3,4) run(1,3) e'(1) by (auto simp: leased_def t)
  ultimately show ?thesis using r by (simp add: case_prod_beta)
qed

theorem claim_is_exclusive_witness:
  "fst (try_claim_task const_hash (lit ''t'') sample_queue) = Inr True \<and>
   claims const_hash (lit ''t'') [ClockTo 20000, Claim (lit ''t''), Renew (lit ''t''), ClockTo 45000, Claim (lit ''t'')]
     (snd (try_claim_task const_hash (lit ''t'') sample_queue)) = 0"
proof -
  have now: "now sample_queue = 100" by (simp add: sample_queue_def new_queue_def)
  have p: "estatus (pending_entry sample_task 100) = Pending" by (simp add: pending_entry_def)
  let ?ops = "[ClockTo 20000, Claim (lit ''t''), Renew (lit ''t''), ClockTo 45000, Claim (lit ''t'')] :: unit queue_op list"
  have "unat (now sample_queue) + 30000 < 2 ^ 64" "on_time (lit ''t'') (now sample_queue) (now sample_queue) ?ops"
    unfolding now by simp_all
  from claim_is_exclusive [OF sample_queue_task p this] show ?thesis by (auto split: prod.splits)
qed

text \<open>Because an expired lease is never taken over (\<open>abandoned_task_is_stuck\<close>), a second claim does not succeed
  even after the lease has run out, which the documentation of \<open>try_claim_task\<close> allows.\<close>
theorem at_most_one_claim:
  "claims hash i ops q \<le> 1"
proof (induction ops arbitrary: q)
  case Nil
  then show ?case by simp
next
  case (Cons op ops)
  show ?case
  proof (cases "op = Claim i \<and> fst (try_claim_task hash i q) = Inr True")
    case True
    then obtain e where e: "get_task_local hash i q = Some e" "estatus e = Pending"
      by (auto simp: try_claim_iff)
    have "Running \<le> estatus (entry_after hash i op q e)"
      using True e(2) by (simp add: entry_after_def)
    then have "claims hash i ops (queue_step hash op q) = 0"
      using no_claims [OF get_task_local_step [OF e(1), of op]] by blast
    with True show ?thesis by simp
  next
    case False
    with Cons.IH [of "queue_step hash op q"] show ?thesis by (cases op) auto
  qed
qed

text \<open>The operations by which a live worker would touch the task.\<close>

definition touches :: "str \<Rightarrow> 'p queue_op \<Rightarrow> bool" where
  "touches i op \<longleftrightarrow> op = Renew i \<or> (\<exists>r. op = Complete i r)"

lemma running_untouched:
  "get_task_local hash i q = Some e \<Longrightarrow> estatus e = Running \<Longrightarrow> \<forall>op \<in> set ops. \<not> touches i op \<Longrightarrow>
     get_task_local hash i (queue_run hash ops q) = Some e"
proof (induction ops arbitrary: q)
  case Nil
  then show ?case by simp
next
  case (Cons op ops)
  have "entry_after hash i op q e = e"
    using Cons.prems by (cases op) (auto simp: entry_after_def touches_def)
  then have "get_task_local hash i (queue_step hash op q) = Some e"
    using get_task_local_step [OF Cons.prems(1), of op] by simp
  with Cons show ?case by simp
qed

lemma my_pending_iff:
  assumes "queue_wf q"
  shows "(i, e) \<in> set (my_pending_tasks q) \<longleftrightarrow>
    (\<exists>p \<in> set (get_my_primary_partitions q). task_at q p i = Some e \<and> is_available (now q) e)"
proof -
  have "(i, e) \<in> set (tasks_of q p) \<longleftrightarrow> task_at q p i = Some e" for p
    using dm_get_eq_Some_iff [OF queue_wf_tasks_of [OF assms], of p i e] by (simp add: dm_get_tasks_of)
  then show ?thesis by (auto simp: my_pending_tasks_def)
qed

lemma queue_wf_step: "queue_wf q \<Longrightarrow> queue_wf (queue_step hash op q)"
proof (cases op)
  case (ApplyTasks p es)
  assume wf: "queue_wf q"
  have "dm_wf (fold (\<lambda>(i, e) pm. if \<not> dm_contains_key pm i then dm_insert i e pm else pm) es pm)"
    if "dm_wf pm" for pm
    using that by (induction es arbitrary: pm) auto
  then show ?thesis
    using wf ApplyTasks by (simp add: apply_tasks_def queue_wf_set_partition queue_wf_tasks_of)
next
  case (ClockTo t)
  assume "queue_wf q"
  then show ?thesis using ClockTo by (simp add: queue_wf_def)
qed (auto simp: queue_wf_store_task queue_wf_set_task try_claim_task_def renew_lease_def complete_task_def
    Let_def split: option.splits)

lemma queue_wf_run: "queue_wf q \<Longrightarrow> queue_wf (queue_run hash ops q)"
  by (induction ops arbitrary: q) (auto simp: queue_wf_step)

text \<open>C11: a task whose worker died is stuck for ever: once it is running and nobody renews or completes it,
  it is offered for execution as soon as its lease has run out, as documented, but every claim of
  it is refused and it stays as it is, whatever else happens at the node.\<close>
theorem abandoned_task_is_stuck:
  assumes "queue_wf q" and "get_task_local hash i q = Some e" and "estatus e = Running"
    and "lease_expires e = Some l" and "\<forall>op \<in> set ops. \<not> touches i op"
    and "task_partition hash i q \<in> set (get_my_primary_partitions q)"
    and "l < now (queue_run hash ops q)"
  shows "(i, e) \<in> set (my_pending_tasks (queue_run hash ops q)) \<and>
    try_claim_task hash i (queue_run hash ops q) = (Inr False, queue_run hash ops q)"
proof -
  let ?q = "queue_run hash ops q"
  have e: "get_task_local hash i ?q = Some e" using assms(2,3,5) by (rule running_untouched)
  have part: "task_partition hash i ?q = task_partition hash i q" by (simp add: task_partition_def)
  have "task_at ?q (task_partition hash i q) i = Some e" using e by (simp add: get_task_local_def part)
  moreover have "is_available (now ?q) e" using assms(3,4,7) by (simp add: is_available_def)
  moreover have "get_my_primary_partitions ?q = get_my_primary_partitions q"
    by (simp add: get_my_primary_partitions_def)
  ultimately have "(i, e) \<in> set (my_pending_tasks ?q)"
    using assms(6) by (auto simp: my_pending_iff [OF queue_wf_run [OF assms(1)]])
  moreover have "try_claim_task hash i ?q = (Inr False, ?q)"
    using e assms(3) by (simp add: try_claim_task_def get_task_local_def Let_def)
  ultimately show ?thesis by blast
qed

theorem abandoned_task_is_stuck_witness:
  "(\<exists>e. (lit ''t'', e) \<in> set (my_pending_tasks (queue_run const_hash [ClockTo 90000]
      (snd (try_claim_task const_hash (lit ''t'') sample_queue))))) \<and>
   fst (try_claim_task const_hash (lit ''t'') (queue_run const_hash [ClockTo 90000]
      (snd (try_claim_task const_hash (lit ''t'') sample_queue)))) = Inr False"
proof -
  let ?q = "snd (try_claim_task const_hash (lit ''t'') sample_queue)"
  let ?ops = "[ClockTo 90000] :: unit queue_op list"
  obtain e where e: "get_task_local const_hash (lit ''t'') ?q = Some e" "estatus e = Running"
    "lease_expires e = Some 30100"
    using get_task_local_step [OF sample_queue_task, of "Claim (lit ''t'')"]
    by (simp add: entry_after_def pending_entry_def LEASE_MS_def sample_queue_def new_queue_def)
  have wf: "queue_wf ?q"
    using queue_wf_step [of sample_queue const_hash "Claim (lit ''t'')"]
    by (simp add: sample_queue_def queue_wf_store_task)
  have part: "task_partition const_hash (lit ''t'') ?q = 7"
    using sample_queue_partition(1) [where i = "lit ''t''" and ops = "[Claim (lit ''t'')]"] by simp
  have mem: "queue_membership ?q = stable_view [lit ''a''] (lit ''a'')"
    "queue_partitioner ?q = new_partition_manager"
    using queue_step_frame [of const_hash "Claim (lit ''t'')" sample_queue]
    by (simp_all add: sample_queue_def) (simp_all add: new_queue_def)
  have "ring_owners 2 [lit ''a''] k = [lit ''a'']" for k
    by (simp add: ring_owners_def)
  then have prim: "(7 :: u32) \<in> set (get_my_primary_partitions ?q)"
    by (simp add: get_my_primary_partitions_def mem Let_def get_owners_ring set_partitions)
      (simp add: new_partition_manager_def new_with_replication_def max_def)
  have "30100 < now (queue_run const_hash ?ops ?q)" by simp
  from abandoned_task_is_stuck [OF wf e, of ?ops, unfolded part, OF _ prim this]
  show ?thesis by (auto simp: touches_def)
qed

text \<open>C24: the life of an entry: if every entry that comes in, from a submission or from another node, is in
  order, all entries stay in order: a pending task has no worker and no lease, a running one has
  both, a finished one has no lease.\<close>
theorem task_table_stays_ok:
  assumes "\<forall>op \<in> set ops. op_ok op" and "table_ok q"
  shows "table_ok (queue_run hash ops q)"
  using assms by (induction ops arbitrary: q) (auto simp: table_ok_step)

theorem task_table_stays_ok_witness:
  "table_ok (queue_run const_hash [Claim (lit ''t''), StoreTask 7 (lit ''u'') (pending_entry sample_task 1),
     ClockTo 50, Complete (lit ''t'') (Inr ())] sample_queue)"
  by (rule task_table_stays_ok [OF _ sample_queue_table_ok]) (simp add: entry_ok_def pending_entry_def)

text \<open>The four status counts add up to the number of tasks the node holds.\<close>
theorem status_counts_add_up:
  "(case local_task_status_counts q of (pending, running, completed, failed) \<Rightarrow>
      pending + running + completed + failed) = local_task_count q"
proof -
  let ?sum = "\<lambda>(a, b, c, d). a + b + c + (d :: nat)"
  have one: "?sum (count_status s t) = Suc (?sum t)" for s t
    by (cases t; cases s) auto
  have inner: "?sum (fold (\<lambda>e. count_status (estatus e)) es t) = ?sum t + length es"
    for es :: "'a task_entry list" and t
    by (induction es arbitrary: t) (auto simp: one)
  have "?sum (fold (\<lambda>pm. fold (\<lambda>e. count_status (estatus e)) (dm_values pm)) pms t)
      = ?sum t + sum_list (map length pms)" for pms :: "(str, 'a task_entry) dashmap list" and t
    by (induction pms arbitrary: t) (auto simp: inner dm_values_def)
  then show ?thesis by (simp add: local_task_status_counts_def local_task_count_def)
qed

text \<open>C21: a heartbeat that comes in time keeps the task: from the moment a worker holds a lease taken at the
  current time, the task is not offered to anyone as long as the clock never runs more than the
  lease of 30 seconds past the last renewal, and neither after the task is completed.\<close>
theorem heartbeat_keeps_task:
  assumes "get_task_local hash i q = Some e" and "estatus e = Running"
    and "lease_expires e = Some (now q + LEASE_MS)" and "unat (now q) + 30000 < 2 ^ 64"
    and "on_time i (now q) (now q) ops"
  shows "case get_task_local hash i (queue_run hash ops q) of None \<Rightarrow> False
    | Some e' \<Rightarrow> \<not> is_available (now (queue_run hash ops q)) e'"
  using leased_run [OF assms(1), of "now q" ops] assms by (auto simp: leased_def)

theorem heartbeat_keeps_task_witness:
  "case get_task_local const_hash (lit ''t'') (queue_run const_hash
      [ClockTo 20000, Renew (lit ''t''), ClockTo 45000] (queue_run const_hash [Claim (lit ''t'')] sample_queue))
   of None \<Rightarrow> False | Some e' \<Rightarrow> \<not> is_available 45000 e'"
proof -
  let ?q = "queue_run const_hash [Claim (lit ''t'')] sample_queue"
  let ?ops = "[ClockTo 20000, Renew (lit ''t''), ClockTo 45000] :: unit queue_op list"
  let ?e = "entry_after const_hash (lit ''t'') (Claim (lit ''t'')) sample_queue (pending_entry sample_task 100)"
  have now: "now ?q = 100" "now sample_queue = 100"
    by (simp_all add: now_step del: queue_step.simps) (simp_all add: sample_queue_def new_queue_def)
  have e: "get_task_local const_hash (lit ''t'') ?q = Some ?e"
    by (simp only: queue_run_simps get_task_local_step [OF sample_queue_task])
  have run: "estatus ?e = Running" "lease_expires ?e = Some (now ?q + LEASE_MS)"
    unfolding now by (simp_all add: entry_after_def pending_entry_def now)
  have ot: "on_time (lit ''t'') (now ?q) (now ?q) ?ops" unfolding now by simp
  have fin: "now (queue_run const_hash ?ops ?q) = 45000" by simp
  have "unat (now ?q) + 30000 < 2 ^ 64" unfolding now by simp
  from heartbeat_keeps_task [OF e run this ot] show ?thesis unfolding fin .
qed

end
