(* ===== verification/QueueCluster.thy ===== *)
theory QueueCluster
  imports TaskLifecycle
begin

text \<open>
  The operations of the task queue that involve several nodes (\<open>src/src/executor/queue.rs\<close>:
  submission, forwarding, replication, lookup; \<open>handlers.rs\<close>: the handlers that call them;
  \<open>src/src/main.rs\<close>: the anti-entropy pass \<open>sync_queue_partitions\<close>), over a \<open>net\<close> of nodes as in
  \<open>MapCluster\<close>. The fresh UUID of a task is an argument.
\<close>

type_synonym 'p queue_net = "'p queue net"

definition task_owners_at :: "sock_addr \<Rightarrow> u32 \<Rightarrow> 'p queue_net \<Rightarrow> str list" where
  "task_owners_at self p n =
     get_owners (queue_partitioner (servers n self)) (queue_membership (servers n self)) p"

subsection \<open>Submitting\<close>

definition replicate_task_to_backup :: "sock_addr \<Rightarrow> str \<Rightarrow> u32 \<Rightarrow> str \<Rightarrow> 'p task_entry \<Rightarrow> 'p queue_net
    \<Rightarrow> (error + unit) \<times> 'p queue_net" where
  "replicate_task_to_backup self backup p task_id entry n =
     (case get_member (queue_membership (servers n self)) backup of
        None \<Rightarrow> (Inl NodeNotFound, n)
      | Some node \<Rightarrow>
          (case post_with_retry_queue (serve handle_replicate_task) (http_addr node)
                  \<lparr>rt_partition = p, rt_task_id = task_id, rt_entry = entry\<rparr> 3 n of
             (Inl e, n1) \<Rightarrow> (Inl e, n1)
           | (Inr st, n1) \<Rightarrow> if \<not> is_success st then (Inl (BadStatus st), n1) else (Inr (), n1)))"

fun replicate_tasks :: "sock_addr \<Rightarrow> str list \<Rightarrow> u32 \<Rightarrow> str \<Rightarrow> 'p task_entry \<Rightarrow> 'p queue_net
    \<Rightarrow> (error + unit) \<times> 'p queue_net" where
  "replicate_tasks self [] p task_id entry n = (Inr (), n)"
| "replicate_tasks self (backup # backups) p task_id entry n =
     (case replicate_task_to_backup self backup p task_id entry n of
        (Inl e, n1) \<Rightarrow> (Inl e, n1)
      | (Inr _, n1) \<Rightarrow> replicate_tasks self backups p task_id entry n1)"

definition store_task_as_primary :: "sock_addr \<Rightarrow> u32 \<Rightarrow> str \<Rightarrow> 'p task_entry \<Rightarrow> 'p queue_net
    \<Rightarrow> (error + unit) \<times> 'p queue_net" where
  "store_task_as_primary self p task_id entry n =
     (let n1 = set_server self (store_task p task_id entry (servers n self)) n
      in replicate_tasks self (drop 1 (task_owners_at self p n1)) p task_id entry n1)"

record 'p forward_task_request =
  ft_partition :: u32
  ft_task_id :: str
  ft_task :: "'p task"

definition handle_internal_submit_task :: "sock_addr \<Rightarrow> 'p forward_task_request \<Rightarrow> 'p queue_net
    \<Rightarrow> (status \<times> str) \<times> 'p queue_net" where
  "handle_internal_submit_task self req n =
     (case store_task_as_primary self (ft_partition req) (ft_task_id req)
             (pending_entry (ft_task req) (now (servers n self))) n of
        (Inl e, n1) \<Rightarrow> ((INTERNAL_SERVER_ERROR, ft_task_id req), n1)
      | (Inr _, n1) \<Rightarrow> ((OK, ft_task_id req), n1))"

definition forward_task :: "sock_addr \<Rightarrow> str \<Rightarrow> u32 \<Rightarrow> str \<Rightarrow> 'p task \<Rightarrow> 'p queue_net
    \<Rightarrow> (error + unit) \<times> 'p queue_net" where
  "forward_task self target p task_id t n =
     (case get_member (queue_membership (servers n self)) target of
        None \<Rightarrow> (Inl NodeNotFound, n)
      | Some node \<Rightarrow>
          (case post_with_retry_queue handle_internal_submit_task (http_addr node)
                  \<lparr>ft_partition = p, ft_task_id = task_id, ft_task = t\<rparr> 3 n of
             (Inl e, n1) \<Rightarrow> (Inl e, n1)
           | (Inr response, n1) \<Rightarrow>
               if \<not> is_success (fst response) then (Inl (BadStatus (fst response)), n1)
               else (Inr (), n1)))"

definition submit :: "(str \<Rightarrow> u64) \<Rightarrow> sock_addr \<Rightarrow> str \<Rightarrow> 'p task \<Rightarrow> 'p queue_net
    \<Rightarrow> (error + str) \<times> 'p queue_net" where
  "submit hash self uuid t n =
     (let q = servers n self;
          p = task_partition hash uuid q;
          owners = task_owners_at self p n
      in if owners = []
         then (Inr uuid, set_server self (store_task p uuid (pending_entry t (now q)) q) n)
         else if owners ! 0 = nid (local_node (queue_membership q))
         then (case store_task_as_primary self p uuid (pending_entry t (now q)) n of
                 (Inl e, n1) \<Rightarrow> (Inl e, n1)
               | (Inr _, n1) \<Rightarrow> (Inr uuid, n1))
         else (case forward_task self (owners ! 0) p uuid t n of
                 (Inl e, n1) \<Rightarrow> (Inl e, n1)
               | (Inr _, n1) \<Rightarrow> (Inr uuid, n1)))"

text \<open>The error answer carries a second, meaningless UUID.\<close>

definition handle_submit_task :: "(str \<Rightarrow> u64) \<Rightarrow> sock_addr \<Rightarrow> str \<Rightarrow> str \<Rightarrow> 'p task \<Rightarrow> 'p queue_net
    \<Rightarrow> (status \<times> str) \<times> 'p queue_net" where
  "handle_submit_task hash self uuid dummy t n =
     (case submit hash self uuid t n of
        (Inr task_id, n1) \<Rightarrow> ((OK, task_id), n1)
      | (Inl e, n1) \<Rightarrow> ((INTERNAL_SERVER_ERROR, dummy), n1))"

subsection \<open>Looking a task up\<close>

definition fetch_remote_task :: "(str \<Rightarrow> str option) \<Rightarrow> (str \<Rightarrow> u64) \<Rightarrow> sock_addr \<Rightarrow> str \<Rightarrow> str \<Rightarrow> 'p queue_net
    \<Rightarrow> (error + 'p task_entry option) \<times> 'p queue_net" where
  "fetch_remote_task seg hash self node_id key n =
     (case get_member (queue_membership (servers n self)) node_id of
        None \<Rightarrow> (Inl NodeNotFound, n)
      | Some node \<Rightarrow>
          (case get_with_retry_queue (serve (route_get_task seg hash)) (http_addr node) key 3 n of
             (Inl e, n1) \<Rightarrow> (Inl e, n1)
           | (Inr (st, found), n1) \<Rightarrow>
               if \<not> is_success st then (Inl (BadStatus st), n1) else (Inr found, n1)))"

fun ask_owners :: "(str \<Rightarrow> str option) \<Rightarrow> (str \<Rightarrow> u64) \<Rightarrow> sock_addr \<Rightarrow> str list \<Rightarrow> str \<Rightarrow> 'p queue_net
    \<Rightarrow> 'p task_entry option \<times> 'p queue_net" where
  "ask_owners seg hash self [] task_id n = (None, n)"
| "ask_owners seg hash self (own # owners) task_id n =
     (case fetch_remote_task seg hash self own task_id n of
        (Inr (Some entry), n1) \<Rightarrow> (Some entry, n1)
      | (Inr None, n1) \<Rightarrow> ask_owners seg hash self owners task_id n1
      | (Inl e, n1) \<Rightarrow> ask_owners seg hash self owners task_id n1)"

definition get_task :: "(str \<Rightarrow> str option) \<Rightarrow> (str \<Rightarrow> u64) \<Rightarrow> sock_addr \<Rightarrow> str \<Rightarrow> 'p queue_net
    \<Rightarrow> 'p task_entry option \<times> 'p queue_net" where
  "get_task seg hash self task_id n =
     (let q = servers n self
      in case get_task_local hash task_id q of
           Some entry \<Rightarrow> (Some entry, n)
         | None \<Rightarrow>
             (let owners = task_owners_at self (task_partition hash task_id q) n
              in if owners \<noteq> [] \<and> owners ! 0 \<noteq> nid (local_node (queue_membership q))
                 then ask_owners seg hash self owners task_id n
                 else (None, n)))"

record task_status_response =
  ts_task_id :: str
  ts_status :: task_status
  ts_assigned_to :: "str option"
  ts_created_at :: u64

definition status_response :: "str \<Rightarrow> 'p task_entry \<Rightarrow> task_status_response" where
  "status_response task_id entry = \<lparr>ts_task_id = task_id, ts_status = estatus entry,
     ts_assigned_to = assigned_to entry, ts_created_at = created_at entry\<rparr>"

definition handle_get_task_status_internal :: "(str \<Rightarrow> str option) \<Rightarrow> (str \<Rightarrow> u64) \<Rightarrow> sock_addr \<Rightarrow> str
    \<Rightarrow> 'p queue_net \<Rightarrow> (status \<times> task_status_response option) \<times> 'p queue_net" where
  "handle_get_task_status_internal seg hash self task_id n =
     (case get_task seg hash self task_id n of
        (Some entry, n1) \<Rightarrow> ((OK, Some (status_response task_id entry)), n1)
      | (None, n1) \<Rightarrow> ((NOT_FOUND, None), n1))"

definition handle_get_task_status :: "(str \<Rightarrow> str option) \<Rightarrow> (str \<Rightarrow> u64) \<Rightarrow> sock_addr \<Rightarrow> str
    \<Rightarrow> 'p queue_net \<Rightarrow> (status \<times> task_status_response option) \<times> 'p queue_net" where
  "handle_get_task_status seg hash self task_id n =
     (let q = servers n self;
          owners = task_owners_at self (task_partition hash task_id q) n
      in if owners \<noteq> [] \<and> owners ! 0 = nid (local_node (queue_membership q))
         then (case get_task seg hash self task_id n of
                 (Some entry, n1) \<Rightarrow> ((OK, Some (status_response task_id entry)), n1)
               | (None, n1) \<Rightarrow> ((NOT_FOUND, None), n1))
         else (case get_task seg hash self task_id n of
                 (Some entry, n1) \<Rightarrow> ((OK, Some (status_response task_id entry)), n1)
               | (None, n1) \<Rightarrow> ((NOT_FOUND, None), n1)))"

subsection \<open>Anti-entropy\<close>

definition fetch_tasks :: "sock_addr \<Rightarrow> str \<Rightarrow> u32 \<Rightarrow> 'p queue_net
    \<Rightarrow> (error + (str \<times> 'p task_entry) list) \<times> 'p queue_net" where
  "fetch_tasks self node_id p n =
     (case get_member (queue_membership (servers n self)) node_id of
        None \<Rightarrow> (Inl NodeNotFound, n)
      | Some node \<Rightarrow>
          (case get_with_retry_queue (serve handle_task_partition_dump) (http_addr node) p 3 n of
             (Inl e, n1) \<Rightarrow> (Inl e, n1)
           | (Inr (st, dump), n1) \<Rightarrow>
               if st = NOT_FOUND then (Inr [], n1)
               else if \<not> is_success st then (Inl (BadStatus st), n1)
               else (Inr (td_entries dump), n1)))"

definition sync_queue_partition :: "sock_addr \<Rightarrow> u32 \<Rightarrow> 'p queue_net \<Rightarrow> 'p queue_net" where
  "sync_queue_partition self p n =
     (let q = servers n self; owners = task_owners_at self p n
      in if owners = [] then n
         else
           (let is_primary = (owners ! 0 = nid (local_node (queue_membership q)));
                source_owner =
                  (if is_primary
                   then if has_tasks p q then None
                        else (if length owners > 1 then Some (owners ! 1) else None)
                   else Some (owners ! 0))
            in case source_owner of
                 None \<Rightarrow> n
               | Some source \<Rightarrow>
                   (case fetch_tasks self source p n of
                      (Inr entries, n1) \<Rightarrow>
                        if entries \<noteq> [] then set_server self (apply_tasks p entries (servers n1 self)) n1
                        else n1
                    | (Inl e, n1) \<Rightarrow> n1)))"

definition queue_target_partitions :: "partition_manager \<Rightarrow> membership \<Rightarrow> u32 set" where
  "queue_target_partitions pm s = set (my_primary_partitions pm s) \<union> set (my_backup_partitions pm s)"

definition sync_queue_partitions :: "(u32 set \<Rightarrow> u32 list) \<Rightarrow> sock_addr \<Rightarrow> 'p queue_net \<Rightarrow> 'p queue_net" where
  "sync_queue_partitions order self n =
     (let q = servers n self
      in fold (sync_queue_partition self)
           (order (queue_target_partitions (queue_partitioner q) (queue_membership q))) n)"

subsection \<open>Replication\<close>

definition task_resolves :: "sock_addr \<Rightarrow> (str \<Rightarrow> sock_addr) \<Rightarrow> str \<Rightarrow> 'p queue_net \<Rightarrow> bool" where
  "task_resolves self addr b n \<longleftrightarrow>
     map_option http_addr (get_member (queue_membership (servers n self)) b) = Some (addr b)"

lemma upd_at_store_task_frame [simp]:
  "queue_membership (upd_at S (store_task p i e) sv a) = queue_membership (sv a)"
  "queue_partitioner (upd_at S (store_task p i e) sv a) = queue_partitioner (sv a)"
  by (simp_all add: upd_at_def)

interpretation task_loop: replication_loop "\<lambda>b n. replicate_task_to_backup self b p i e n"
  "\<lambda>bs n. replicate_tasks self bs p i e n" "store_task p i e" "task_resolves self"
  for self p i and e :: "'p task_entry"
proof unfold_locales
  show "replicate_tasks self [] p i e n = (Inr (), n)" for n by simp
  show "replicate_tasks self (b # bs) p i e n =
      (case replicate_task_to_backup self b p i e n of (Inl e, n1) \<Rightarrow> (Inl e, n1)
       | (Inr u, n1) \<Rightarrow> replicate_tasks self bs p i e n1)" for b bs n by simp
  show "store_task p i e (store_task p i e s) = store_task p i e s" for s
    by (rule store_task_idem)
  show "task_resolves self addr b n'"
    if "task_resolves self addr b n" "servers n' = upd_at S (store_task p i e) (servers n)"
    for addr b n n' S using that by (simp add: task_resolves_def)
  show "\<exists>r n' S. replicate_task_to_backup self b p i e n = (r, n') \<and> same_network n n' \<and>
      S \<subseteq> {addr b} \<and> servers n' = upd_at S (store_task p i e) (servers n) \<and>
      (r = Inr () \<longrightarrow> S = {addr b}) \<and> (reliable n \<and> listening n (addr b) \<longrightarrow> r = Inr ())"
    if res: "task_resolves self addr b n" for addr b n
  proof -
    obtain node where node: "get_member (queue_membership (servers n self)) b = Some node"
      and na: "http_addr node = addr b" using res by (auto simp: task_resolves_def)
    let ?q = "\<lparr>rt_partition = p, rt_task_id = i, rt_entry = e\<rparr>"
    have "handle_replicate_task ?q s = (OK, store_task p i e s)" for s
      by (simp add: handle_replicate_task_def)
    from replicate_task.three_attempts [of ?q OK "store_task p i e" 150 "addr b" n, OF this]
    obtain r n1 S where e: "retry_loop (serve handle_replicate_task) 3 150 (addr b) ?q n = (r, n1)"
      and net: "same_network n n1" and S: "S \<subseteq> {addr b}"
      and sv: "servers n1 = upd_at S (store_task p i e) (servers n)"
      and r: "r = Inl TransportError \<or> r = Inr OK \<and> S = {addr b}"
      and ok: "reliable n \<and> listening n (addr b) \<longrightarrow> r = Inr OK" by blast
    have "replicate_task_to_backup self b p i e n = (case r of Inl e \<Rightarrow> Inl e | Inr _ \<Rightarrow> Inr (), n1)"
      using node na e r by (auto simp: replicate_task_to_backup_def retry_defs)
    then show ?thesis
      using net S sv r ok by (intro exI [of _ "case r of Inl e \<Rightarrow> Inl e | Inr _ \<Rightarrow> Inr ()"] exI [of _ n1]
        exI [of _ S]) auto
  qed
qed

end
