(* ===== verification/QueueGuarantees.thy ===== *)
theory QueueGuarantees
  imports QueueCluster
begin

text \<open>
  The guarantees of the distributed task queue: an acknowledged task is on every owner, whatever the
  network does and whichever node took it; a lookup only reports entries that some node has; and
  what anti-entropy does to the tasks a node already holds.
\<close>

definition queue_healthy :: "str list \<Rightarrow> (str \<Rightarrow> sock_addr) \<Rightarrow> partition_manager
    \<Rightarrow> (sock_addr \<Rightarrow> 'p queue) \<Rightarrow> bool" where
  "queue_healthy ids addr pm sv \<longleftrightarrow> distinct ids \<and> inj_on addr (set ids) \<and> 0 < replication_factor pm \<and>
     (\<forall>i \<in> set ids. knows ids addr i (queue_membership (sv (addr i))) \<and>
        queue_partitioner (sv (addr i)) = pm)"

lemma queue_healthyD:
  assumes "queue_healthy ids addr pm (servers n)" and "i \<in> set ids"
  shows "queue_partitioner (servers n (addr i)) = pm"
    and "task_owners_at (addr i) p n = placement ids pm p"
    and "nid (local_node (queue_membership (servers n (addr i)))) = i"
    and "j \<in> set ids \<Longrightarrow> task_resolves (addr i) addr j n"
  using assms by (auto simp: queue_healthy_def task_owners_at_def knows_owners)
    (auto simp: knows_def task_resolves_def)

lemma queue_healthy_cong:
  "queue_healthy ids addr pm sv \<Longrightarrow>
     (\<And>a. queue_membership (sv' a) = queue_membership (sv a) \<and>
        queue_partitioner (sv' a) = queue_partitioner (sv a)) \<Longrightarrow> queue_healthy ids addr pm sv'"
  by (simp add: queue_healthy_def)

text \<open>
  How far a submission of the task \<open>t\<close> has come: compared with the servers \<open>sv0\<close> before it, nodes
  may hold a pending copy under the new id, and nothing else has changed.
\<close>

definition submitting :: "(sock_addr \<Rightarrow> 'p queue) \<Rightarrow> u32 \<Rightarrow> str \<Rightarrow> 'p task \<Rightarrow> (sock_addr \<Rightarrow> 'p queue) \<Rightarrow> bool" where
  "submitting sv0 p i t sv \<longleftrightarrow>
     (\<forall>a. queue_membership (sv a) = queue_membership (sv0 a) \<and>
          queue_partitioner (sv a) = queue_partitioner (sv0 a) \<and>
          (queue_wf (sv0 a) \<longrightarrow> queue_wf (sv a)) \<and>
          (\<forall>p' i'. p' = p \<and> i' = i \<or> task_at (sv a) p' i' = task_at (sv0 a) p' i') \<and>
          (case task_at (sv a) p i of None \<Rightarrow> True | Some e \<Rightarrow> etask e = t \<and> estatus e = Pending))"

lemma submitting_upd:
  assumes "submitting sv0 p i t sv"
  shows "submitting sv0 p i t (upd_at S (store_task p i (pending_entry t c)) sv)"
  unfolding submitting_def
proof (intro allI conjI)
  fix a
  let ?sv = "upd_at S (store_task p i (pending_entry t c)) sv"
  have *: "queue_membership (sv a) = queue_membership (sv0 a)"
    "queue_partitioner (sv a) = queue_partitioner (sv0 a)"
    "p' = p \<and> i' = i \<or> task_at (sv a) p' i' = task_at (sv0 a) p' i'"
    "queue_wf (sv0 a) \<longrightarrow> queue_wf (sv a)"
    "case task_at (sv a) p i of None \<Rightarrow> True | Some e \<Rightarrow> etask e = t \<and> estatus e = Pending" for p' i'
    using assms unfolding submitting_def by blast+
  show "queue_membership (?sv a) = queue_membership (sv0 a)"
    "queue_partitioner (?sv a) = queue_partitioner (sv0 a)" using *(1,2) by simp_all
  show "p' = p \<and> i' = i \<or> task_at (?sv a) p' i' = task_at (sv0 a) p' i'" for p' i'
    using *(3) [of p' i'] by (auto simp: upd_at_def)
  show "queue_wf (sv0 a) \<longrightarrow> queue_wf (?sv a)"
    using *(4) by (simp add: upd_at_def queue_wf_store_task)
  show "case task_at (?sv a) p i of None \<Rightarrow> True | Some e \<Rightarrow> etask e = t \<and> estatus e = Pending"
    using *(5) by (auto simp: upd_at_def pending_entry_def split: option.splits)
qed

lemma upd_at_task_present:
  "a \<in> S \<Longrightarrow> task_at (upd_at S (store_task p i e) sv a) p i \<noteq> None"
  by (simp add: upd_at_def)

lemma store_task_as_primary_effect:
  assumes h: "queue_healthy ids addr pm (servers n)" and pl: "placement ids pm p = q # bs"
  shows "\<exists>r n' S. store_task_as_primary (addr q) p i e n = (r, n') \<and>
    servers n' = upd_at S (store_task p i e) (servers n) \<and> (r = Inr () \<longrightarrow> S = addr ` set (q # bs)) \<and>
    (reliable n \<and> all_listening ids addr n \<longrightarrow> r = Inr ())"
proof -
  have ids: "q \<in> set ids" "set bs \<subseteq> set ids" using set_placement [of ids pm p] pl by auto
  let ?n1 = "set_server (addr q) (store_task p i e (servers n (addr q))) n"
  have sv1: "servers ?n1 = upd_at {addr q} (store_task p i e) (servers n)"
    by (simp add: set_server_def upd_at_def fun_eq_iff)
  have h1: "queue_healthy ids addr pm (servers ?n1)"
    using h unfolding sv1 by (rule queue_healthy_cong) simp
  have "\<forall>b \<in> set bs. task_resolves (addr q) addr b ?n1"
    using queue_healthyD(4) [OF h1 ids(1)] ids(2) by blast
  from task_loop.send_all_effect [OF this, of p i e] obtain r n' S where
    e: "replicate_tasks (addr q) bs p i e ?n1 = (r, n')"
    and sv: "servers n' = upd_at S (store_task p i e) (servers ?n1)"
    and full: "r = Inr () \<longrightarrow> S = addr ` set bs"
    and ok: "reliable ?n1 \<and> (\<forall>b \<in> set bs. listening ?n1 (addr b)) \<longrightarrow> r = Inr ()"
    by blast
  have "store_task_as_primary (addr q) p i e n = (r, n')"
    using e queue_healthyD(2) [OF h1 ids(1), of p] by (simp add: store_task_as_primary_def Let_def pl)
  moreover have "servers n' = upd_at ({addr q} \<union> S) (store_task p i e) (servers n)"
    unfolding sv sv1 by (rule upd_at_upd_at) (rule store_task_idem)
  moreover have "reliable n \<and> all_listening ids addr n \<longrightarrow> r = Inr ()"
    using ok ids by (auto simp: reliable_def all_listening_def)
  ultimately show ?thesis using full
    by (intro exI [of _ r] exI [of _ n'] exI [of _ "{addr q} \<union> S"]) auto
qed

lemma submitting_healthy:
  "queue_healthy ids addr pm sv0 \<Longrightarrow> submitting sv0 p i t sv \<Longrightarrow> queue_healthy ids addr pm sv"
  unfolding submitting_def by (erule queue_healthy_cong) blast

lemma submitting_handler:
  assumes h: "queue_healthy ids addr pm sv0" and pl: "placement ids pm p = q # bs"
    and sub: "submitting sv0 p i t (servers n)"
  shows "submitting sv0 p i t (servers (snd (handle_internal_submit_task (addr q)
        \<lparr>ft_partition = p, ft_task_id = i, ft_task = t\<rparr> n)))" (is ?A)
    and "is_success (fst (fst (handle_internal_submit_task (addr q)
        \<lparr>ft_partition = p, ft_task_id = i, ft_task = t\<rparr> n))) \<Longrightarrow> a \<in> addr ` set (q # bs) \<Longrightarrow>
      task_at (servers (snd (handle_internal_submit_task (addr q)
        \<lparr>ft_partition = p, ft_task_id = i, ft_task = t\<rparr> n)) a) p i \<noteq> None"
proof -
  let ?req = "\<lparr>ft_partition = p, ft_task_id = i, ft_task = t\<rparr>"
  let ?e = "pending_entry t (now (servers n (addr q)))"
  from store_task_as_primary_effect [OF submitting_healthy [OF h sub] pl, of i ?e] obtain r n' S where
    e: "store_task_as_primary (addr q) p i ?e n = (r, n')"
    and sv: "servers n' = upd_at S (store_task p i ?e) (servers n)"
    and full: "r = Inr () \<longrightarrow> S = addr ` set (q # bs)" by blast
  have res: "handle_internal_submit_task (addr q) ?req n
      = ((case r of Inl _ \<Rightarrow> INTERNAL_SERVER_ERROR | Inr _ \<Rightarrow> OK, i), n')"
    using e by (simp add: handle_internal_submit_task_def split: sum.split)
  show ?A using submitting_upd [OF sub] by (simp add: res sv)
  assume ok: "is_success (fst (fst (handle_internal_submit_task (addr q) ?req n)))" and a: "a \<in> addr ` set (q # bs)"
  have "S = addr ` set (q # bs)" using ok full by (simp add: res split: sum.splits)
  with a have "task_at (servers n' a) p i \<noteq> None" unfolding sv by (intro upd_at_task_present) simp
  then show "task_at (servers (snd (handle_internal_submit_task (addr q) ?req n)) a) p i \<noteq> None"
    by (simp only: res snd_conv not_False_eq_True)
qed

subsection \<open>Examples\<close>

definition sample_queue_net :: "unit queue net" where
  "sample_queue_net = quiet_net (\<lambda>a. new_queue (stable_view three_ids (fst a)) new_partition_manager 0)"

lemma sample_queue_net_healthy:
  "queue_healthy three_ids node_addr new_partition_manager (servers sample_queue_net)"
  by (simp add: queue_healthy_def sample_queue_net_def new_queue_def knows_def stable_view_ok
      get_member_def image_image node_addr_def del: three_ids_simps(2))

lemma sample_queue_net_empty [simp]: "task_at (servers sample_queue_net a) p i = None"
  by (simp add: sample_queue_net_def)

lemma sample_task_placement:
  "placement three_ids new_partition_manager (get_partition length_hash new_partition_manager (lit ''x''))
     = [lit ''b'', lit ''c'']"
proof -
  have "get_partition length_hash new_partition_manager (lit ''x'') = 1"
    by (simp add: get_partition_def length_hash_def new_partition_manager_def new_with_replication_def)
  moreover have "ring_owners 2 [x, y, z] 1 = [y, z]" for x y z :: str
    by (simp add: ring_owners_def upt_rec)
  ultimately show ?thesis
    by (simp add: placement_def new_partition_manager_def new_with_replication_def max_def)
qed

subsection \<open>Submission\<close>

lemma queue_placement_cases:
  assumes "queue_healthy ids addr pm sv" and "i \<in> set ids"
  obtains q bs where "placement ids pm p = q # bs" and "q \<in> set ids"
proof -
  have "placement ids pm p \<noteq> []" using assms by (auto simp: queue_healthy_def placement_Nil_iff)
  then show ?thesis using set_placement [of ids pm p] that by (cases "placement ids pm p") auto
qed

lemma submit_cases:
  assumes h: "queue_healthy ids addr pm (servers n)" and i: "i \<in> set ids"
    and pl: "placement ids pm (get_partition hash pm uuid) = q # bs"
  shows "submit hash (addr i) uuid t n =
    (case (if i = q
           then store_task_as_primary (addr q) (get_partition hash pm uuid) uuid
                  (pending_entry t (now (servers n (addr q)))) n
           else forward_task (addr i) q (get_partition hash pm uuid) uuid t n) of
       (Inl e, n1) \<Rightarrow> (Inl e, n1) | (Inr _, n1) \<Rightarrow> (Inr uuid, n1))"
  using queue_healthyD(1,3) [OF h i] queue_healthyD(2) [OF h i, of "get_partition hash pm uuid"] pl
  by (simp add: submit_def Let_def task_partition_def)

lemma submitting_refl:
  assumes "\<And>a. task_at (sv a) p i = None"
  shows "submitting sv p i t sv"
  using assms by (simp add: submitting_def)

lemma forward_task_ok:
  assumes h: "queue_healthy ids addr pm (servers n)" and pl: "placement ids pm p = q # bs"
    and i: "i \<in> set ids" and fresh: "\<And>a. task_at (servers n a) p uuid = None"
    and res: "forward_task (addr i) q p uuid t n = (Inr (), n')"
  shows "submitting (servers n) p uuid t (servers n') \<and>
    (\<forall>a \<in> addr ` set (q # bs). task_at (servers n' a) p uuid \<noteq> None)"
proof -
  have q: "q \<in> set ids" using set_placement [of ids pm p] pl by auto
  obtain node where node: "get_member (queue_membership (servers n (addr i))) q = Some node"
    and na: "http_addr node = addr q" using queue_healthyD(4) [OF h i q] by (auto simp: task_resolves_def)
  let ?req = "\<lparr>ft_partition = p, ft_task_id = uuid, ft_task = t\<rparr>"
  let ?P = "submitting (servers n) p uuid t"
  have step: "?P (servers m) \<Longrightarrow> ?P (servers (snd (handle_internal_submit_task (addr q) ?req m)))" for m
    using submitting_handler(1) [OF h pl, of uuid t m] by simp
  obtain x where loop: "retry_loop handle_internal_submit_task 3 150 (addr q) ?req n = (Inr x, n')"
    and ok: "is_success (fst x)"
    using res node na by (auto simp: forward_task_def retry_defs split: prod.splits sum.splits if_splits)
  from retry_loop_answer [where P = ?P, OF step submitting_refl [OF fresh] loop] obtain n0 where
    sub: "?P (servers n0)" and run: "handle_internal_submit_task (addr q) ?req n0 = (x, n')" by blast
  have "task_at (servers n' a) p uuid \<noteq> None" if "a \<in> addr ` set (q # bs)" for a
    using submitting_handler(2) [OF h pl sub _ that] run ok by simp
  moreover have "?P (servers n')" using step [OF sub] run by simp
  ultimately show ?thesis by blast
qed

lemma forward_task_reliable:
  assumes h: "queue_healthy ids addr pm (servers n)" and pl: "placement ids pm p = q # bs"
    and i: "i \<in> set ids" and net: "reliable n" "all_listening ids addr n"
  shows "\<exists>n'. forward_task (addr i) q p uuid t n = (Inr (), n')"
proof -
  let ?n1 = "n\<lparr>sent := Suc (sent n)\<rparr>"
  have q: "q \<in> set ids" using set_placement [of ids pm p] pl by auto
  obtain node where node: "get_member (queue_membership (servers n (addr i))) q = Some node"
    and na: "http_addr node = addr q" using queue_healthyD(4) [OF h i q] by (auto simp: task_resolves_def)
  let ?req = "\<lparr>ft_partition = p, ft_task_id = uuid, ft_task = t\<rparr>"
  have h1: "queue_healthy ids addr pm (servers ?n1)" using h by simp
  obtain n' where "store_task_as_primary (addr q) p uuid (pending_entry t (now (servers ?n1 (addr q)))) ?n1 = (Inr (), n')"
    using store_task_as_primary_effect [OF h1 pl, of uuid "pending_entry t (now (servers ?n1 (addr q)))"] net
    by (auto simp: reliable_def all_listening_def)
  then have "handle_internal_submit_task (addr q) ?req ?n1 = ((OK, uuid), n')"
    by (simp add: handle_internal_submit_task_def)
  moreover have "listening n (addr q)" "fates n (sent n) = Delivered"
    using net q by (auto simp: all_listening_def reliable_def)
  ultimately have "retry_loop handle_internal_submit_task (Suc 2) 150 (addr q) ?req n = (Inr (OK, uuid), n')"
    by (simp only: retry_loop_delivered fst_conv snd_conv)
  then show ?thesis using node na by (simp add: forward_task_def retry_defs numeral_3_eq_3)
qed

lemma submit_complete:
  assumes "queue_healthy ids addr pm (servers n)" and "i \<in> set ids"
    and "\<And>a. task_at (servers n a) (get_partition hash pm uuid) uuid = None"
    and "submit hash (addr i) uuid t n = (Inr task_id, n')"
  shows "task_id = uuid \<and> submitting (servers n) (get_partition hash pm uuid) uuid t (servers n') \<and>
    (\<forall>a \<in> addr ` set (placement ids pm (get_partition hash pm uuid)).
       task_at (servers n' a) (get_partition hash pm uuid) uuid \<noteq> None)"
proof -
  let ?p = "get_partition hash pm uuid"
  obtain q bs where pl: "placement ids pm ?p = q # bs" using queue_placement_cases [OF assms(1,2)] by metis
  note sub = submit_cases [OF assms(1,2) pl, of t]
  have "task_id = uuid" using assms(4) unfolding sub by (auto split: prod.splits sum.splits)
  moreover have "submitting (servers n) ?p uuid t (servers n') \<and>
      (\<forall>a \<in> addr ` set (q # bs). task_at (servers n' a) ?p uuid \<noteq> None)"
  proof (cases "i = q")
    case False
    then have "forward_task (addr i) q ?p uuid t n = (Inr (), n')"
      using assms(4) unfolding sub by (auto split: prod.splits sum.splits)
    from forward_task_ok [OF assms(1) pl assms(2,3) this] show ?thesis .
  next
    case True
    let ?e = "pending_entry t (now (servers n (addr q)))"
    have "store_task_as_primary (addr q) ?p uuid ?e n = (Inr (), n')"
      using assms(4) True unfolding sub by (auto split: prod.splits sum.splits)
    with store_task_as_primary_effect [OF assms(1) pl, of uuid ?e]
    have sv: "servers n' = upd_at (addr ` set (q # bs)) (store_task ?p uuid ?e) (servers n)" by auto
    have "submitting (servers n) ?p uuid t (servers n')"
      unfolding sv using submitting_upd [OF submitting_refl [OF assms(3)]] .
    moreover have "\<forall>a \<in> addr ` set (q # bs). task_at (servers n' a) ?p uuid \<noteq> None"
      unfolding sv by (rule ballI) (rule upd_at_task_present)
    ultimately show ?thesis by blast
  qed
  ultimately show ?thesis unfolding pl by blast
qed

lemma submit_reliable:
  assumes "queue_healthy ids addr pm (servers n)" and "i \<in> set ids"
    and "reliable n" and "all_listening ids addr n"
  shows "\<exists>n'. submit hash (addr i) uuid t n = (Inr uuid, n')"
proof -
  let ?p = "get_partition hash pm uuid"
  obtain q bs where pl: "placement ids pm ?p = q # bs" using queue_placement_cases [OF assms(1,2)] by metis
  have "\<exists>n'. store_task_as_primary (addr q) ?p uuid e n = (Inr (), n')" for e
    using store_task_as_primary_effect [OF assms(1) pl, of uuid e] assms(3,4) by auto
  then have "\<exists>n'. (if i = q then store_task_as_primary (addr q) ?p uuid (pending_entry t (now (servers n (addr q)))) n
      else forward_task (addr i) q ?p uuid t n) = (Inr (), n')"
    using forward_task_reliable [OF assms(1) pl assms(2-4), of uuid t] by simp
  then obtain n' where "(if i = q then store_task_as_primary (addr q) ?p uuid (pending_entry t (now (servers n (addr q)))) n
      else forward_task (addr i) q ?p uuid t n) = (Inr (), n')" by blast
  then show ?thesis unfolding submit_cases [OF assms(1,2) pl, of t] by simp
qed

text \<open>C9: a task whose submission is acknowledged is on every owner of its partition: whatever the network
  lost or repeated and whichever node took the task, all owners hold it, pending and with the work
  submitted, and no other entry of any node has changed.\<close>
theorem acknowledged_task_is_on_every_owner:
  assumes "queue_healthy ids addr pm (servers n)" and "i \<in> set ids"
    and "\<And>a. task_at (servers n a) (get_partition hash pm uuid) uuid = None"
    and "submit hash (addr i) uuid t n = (Inr task_id, n')"
  shows "task_id = uuid \<and>
    (\<forall>j \<in> set (placement ids pm (get_partition hash pm uuid)).
       case task_at (servers n' (addr j)) (get_partition hash pm uuid) uuid of None \<Rightarrow> False
       | Some e \<Rightarrow> etask e = t \<and> estatus e = Pending) \<and>
    (\<forall>a p' i'. p' = get_partition hash pm uuid \<and> i' = uuid \<or>
       task_at (servers n' a) p' i' = task_at (servers n a) p' i')"
proof -
  let ?p = "get_partition hash pm uuid"
  have id: "task_id = uuid" and sub: "submitting (servers n) ?p uuid t (servers n')"
    and there: "\<forall>a \<in> addr ` set (placement ids pm ?p). task_at (servers n' a) ?p uuid \<noteq> None"
    using submit_complete [OF assms] by blast+
  have "case task_at (servers n' (addr j)) ?p uuid of None \<Rightarrow> False
      | Some e \<Rightarrow> etask e = t \<and> estatus e = Pending" if "j \<in> set (placement ids pm ?p)" for j
  proof -
    have "case task_at (servers n' (addr j)) ?p uuid of None \<Rightarrow> True
        | Some e \<Rightarrow> etask e = t \<and> estatus e = Pending"
      using sub unfolding submitting_def by blast
    moreover have "task_at (servers n' (addr j)) ?p uuid \<noteq> None" using there that by blast
    ultimately show ?thesis by (cases "task_at (servers n' (addr j)) ?p uuid") simp_all
  qed
  moreover have "\<forall>a p' i'. p' = ?p \<and> i' = uuid \<or> task_at (servers n' a) p' i' = task_at (servers n a) p' i'"
    using sub unfolding submitting_def by blast
  ultimately show ?thesis using id by blast
qed

theorem acknowledged_task_is_on_every_owner_witness:
  "case submit length_hash (node_addr (lit ''a'')) (lit ''x'') sample_task sample_queue_net of (r, n') \<Rightarrow>
     r = Inr (lit ''x'') \<and>
     (case task_at (servers n' (node_addr (lit ''c''))) 1 (lit ''x'') of None \<Rightarrow> False
      | Some e \<Rightarrow> estatus e = Pending)"
proof -
  let ?p = "get_partition length_hash new_partition_manager (lit ''x'')"
  have p: "?p = 1"
    by (simp add: get_partition_def length_hash_def new_partition_manager_def new_with_replication_def)
  have a: "lit ''a'' \<in> set three_ids" and ab: "lit ''a'' \<noteq> lit ''b''" by (simp_all add: lit_simps)
  note h = sample_queue_net_healthy
  obtain n' where e: "submit length_hash (node_addr (lit ''a'')) (lit ''x'') sample_task sample_queue_net
      = (Inr (lit ''x''), n')"
    using forward_task_reliable [OF h sample_task_placement a, of "lit ''x''" sample_task]
      submit_cases [OF h a sample_task_placement, of sample_task] ab
    by (auto simp: sample_queue_net_def)
  have "task_at (servers sample_queue_net b) ?p (lit ''x'') = None" for b by simp
  from acknowledged_task_is_on_every_owner [OF h a this e] sample_task_placement
  show ?thesis using e by (auto simp: p split: option.splits)
qed

subsection \<open>Lookup\<close>

lemma fetch_remote_task_effect:
  assumes h: "queue_healthy ids addr pm (servers n)" and i: "i \<in> set ids" and b: "b \<in> set ids"
    and seg: "seg task_id = Some task_id"
  shows "\<exists>r n'. fetch_remote_task seg hash (addr i) b task_id n = (r, n') \<and> servers n' = servers n \<and>
    same_network n n' \<and> (\<forall>e. r = Inr (Some e) \<longrightarrow> get_task_local hash task_id (servers n (addr b)) = Some e) \<and>
    (reliable n \<and> listening n (addr b) \<longrightarrow> (\<forall>e. get_task_local hash task_id (servers n (addr b)) = Some e
       \<longrightarrow> r = Inr (Some e)))"
proof -
  let ?h = "route_get_task seg hash" and ?g = "get_task_local hash task_id (servers n (addr b))"
  obtain node where node: "get_member (queue_membership (servers n (addr i))) b = Some node"
    and na: "http_addr node = addr b" using queue_healthyD(4) [OF h i b] by (auto simp: task_resolves_def)
  obtain r n1 where loop: "retry_loop (serve ?h) 3 150 (addr b) task_id n = (r, n1)"
    by (cases "retry_loop (serve ?h) 3 150 (addr b) task_id n")
  have hq: "?h task_id q = (case get_task_local hash task_id q of Some e \<Rightarrow> (OK, Some e) | None \<Rightarrow> (NOT_FOUND, None), q)"
    for q :: "'a queue" using seg by (simp add: route_get_task_def handle_get_task_internal_def split: option.split)
  have sv: "servers n1 = servers n"
    using get_task_internal.retry_keeps [of seg hash 3 150 "addr b" task_id n] loop by simp
  have r: "r = (if \<exists>t<3. fate_at n (addr b) t = Delivered
      then Inr (fst (?h task_id (servers n (addr b)))) else Inl TransportError)"
    using get_task_internal.retry_result [of 3 seg hash 150 "addr b" task_id n] by (simp add: loop)
  have net: "same_network n n1"
    using retry_loop_serve_frame(1,2) [of ?h 3 150 "addr b" task_id n] loop by (simp add: same_network_def)
  let ?r = "case r of Inl e \<Rightarrow> Inl e | Inr (st, found) \<Rightarrow> if is_success st then Inr found else Inl (BadStatus st)"
  have e: "fetch_remote_task seg hash (addr i) b task_id n = (?r, n1)"
    using node na loop by (auto simp: fetch_remote_task_def retry_defs split: sum.split prod.split)
  have "?g = Some e" if "?r = Inr (Some e)" for e
    using that r hq by (cases ?g) (auto split: if_splits)
  moreover have "?r = Inr (Some e)" if "reliable n \<and> listening n (addr b)" "?g = Some e" for e
    using that r hq some_try_delivered [of n "addr b"] by simp
  ultimately show ?thesis using e sv net by blast
qed

lemma ask_owners_effect:
  assumes i: "i \<in> set ids" and seg: "seg task_id = Some task_id"
  shows "queue_healthy ids addr pm (servers n) \<Longrightarrow> set own \<subseteq> set ids \<Longrightarrow>
    \<exists>r n'. ask_owners seg hash (addr i) own task_id n = (r, n') \<and> servers n' = servers n \<and>
      (\<forall>e. r = Some e \<longrightarrow> (\<exists>j \<in> set own. get_task_local hash task_id (servers n (addr j)) = Some e)) \<and>
      (reliable n \<and> (\<exists>j \<in> set own. listening n (addr j) \<and>
         get_task_local hash task_id (servers n (addr j)) \<noteq> None) \<longrightarrow> r \<noteq> None)"
proof (induction own arbitrary: n)
  case Nil
  then show ?case by simp
next
  case (Cons b own)
  have b: "b \<in> set ids" and own: "set own \<subseteq> set ids" using Cons.prems(2) by auto
  obtain r1 n1 where e1: "fetch_remote_task seg hash (addr i) b task_id n = (r1, n1)"
    and sv1: "servers n1 = servers n" and net1: "same_network n n1"
    and s1: "\<forall>e. r1 = Inr (Some e) \<longrightarrow> get_task_local hash task_id (servers n (addr b)) = Some e"
    and a1: "reliable n \<and> listening n (addr b) \<longrightarrow>
      (\<forall>e. get_task_local hash task_id (servers n (addr b)) = Some e \<longrightarrow> r1 = Inr (Some e))"
    using fetch_remote_task_effect [where seg = seg and task_id = task_id and n = n, OF Cons.prems(1) i b seg]
    by blast
  have "queue_healthy ids addr pm (servers n1)" using Cons.prems(1) sv1 by simp
  from Cons.IH [OF this own] obtain r n' where
    e: "ask_owners seg hash (addr i) own task_id n1 = (r, n')" and sv: "servers n' = servers n1"
    and s: "\<forall>e. r = Some e \<longrightarrow> (\<exists>j \<in> set own. get_task_local hash task_id (servers n1 (addr j)) = Some e)"
    and a: "reliable n1 \<and> (\<exists>j \<in> set own. listening n1 (addr j) \<and>
         get_task_local hash task_id (servers n1 (addr j)) \<noteq> None) \<longrightarrow> r \<noteq> None" by blast
  show ?case
  proof (cases "\<exists>x. r1 = Inr (Some x)")
    case True
    then obtain x where x: "r1 = Inr (Some x)" by blast
    then have "ask_owners seg hash (addr i) (b # own) task_id n = (Some x, n1)" using e1 by simp
    with x s1 sv1 show ?thesis by auto
  next
    case False
    then have "ask_owners seg hash (addr i) (b # own) task_id n = (r, n')"
      using e1 e by (auto split: sum.split option.split)
    moreover have "r \<noteq> None" if net: "reliable n" and j: "j \<in> set (b # own)" "listening n (addr j)"
      "get_task_local hash task_id (servers n (addr j)) \<noteq> None" for j
    proof -
      have "j \<noteq> b" using a1 net j False by auto
      with j have "j \<in> set own" by simp
      with a net j net1 show ?thesis unfolding sv1 by (auto simp: same_network_def reliable_def)
    qed
    ultimately show ?thesis using s sv sv1 by auto
  qed
qed

text \<open>C23: a lookup changes no node. The primary of the task's partition answers from its own table and asks
  nobody, so it misses a task that only the backups have. Every other node reports an entry only if the
  node itself or an owner of the partition has it, whatever the network does, and finds the task for
  certain when requests are not lost and some owner that is up has it.\<close>
theorem get_task_reports_owners:
  assumes "queue_healthy ids addr pm (servers n)" and "i \<in> set ids" and "seg task_id = Some task_id"
  shows "case get_task seg hash (addr i) task_id n of (r, n') \<Rightarrow> servers n' = servers n \<and>
    (if placement ids pm (get_partition hash pm task_id) ! 0 = i
     then r = get_task_local hash task_id (servers n (addr i))
     else
       (\<forall>e. r = Some e \<longrightarrow> (\<exists>j \<in> insert i (set (placement ids pm (get_partition hash pm task_id))).
          get_task_local hash task_id (servers n (addr j)) = Some e)) \<and>
       (reliable n \<and> (\<exists>j \<in> set (placement ids pm (get_partition hash pm task_id)).
          listening n (addr j) \<and> get_task_local hash task_id (servers n (addr j)) \<noteq> None) \<longrightarrow> r \<noteq> None))"
proof -
  let ?own = "placement ids pm (get_partition hash pm task_id)"
  have part: "task_partition hash task_id (servers n (addr i)) = get_partition hash pm task_id"
    using queue_healthyD(1) [OF assms(1,2)] by (simp add: task_partition_def)
  have at: "task_owners_at (addr i) (get_partition hash pm task_id) n = ?own"
    using queue_healthyD(2) [OF assms(1,2)] .
  have loc: "nid (local_node (queue_membership (servers n (addr i)))) = i"
    using queue_healthyD(3) [OF assms(1,2)] .
  have ne: "?own \<noteq> []" using assms(1,2) by (auto simp: queue_healthy_def placement_Nil_iff)
  show ?thesis
  proof (cases "get_task_local hash task_id (servers n (addr i))")
    case (Some e)
    then show ?thesis by (simp add: get_task_def Let_def)
  next
    case None
    show ?thesis
    proof (cases "?own ! 0 = i")
      case True
      with None part at loc show ?thesis by (simp add: get_task_def Let_def)
    next
      case False
      with None part at loc ne have "get_task seg hash (addr i) task_id n
          = ask_owners seg hash (addr i) ?own task_id n" by (simp add: get_task_def Let_def)
      with ask_owners_effect [where seg = seg and task_id = task_id and n = n and own = ?own and hash = hash,
          OF assms(2,3,1) set_placement] False show ?thesis by auto
    qed
  qed
qed

text \<open>A primary that has lost a task, by a restart for instance, denies it: it reports the task as unknown
  without asking the backups, although the other owners may all hold it.\<close>
theorem primary_never_asks_backups:
  assumes "queue_healthy ids addr pm (servers n)" and "i \<in> set ids"
    and "placement ids pm (get_partition hash pm task_id) ! 0 = i"
    and "get_task_local hash task_id (servers n (addr i)) = None"
  shows "handle_get_task_status seg hash (addr i) task_id n = ((NOT_FOUND, None), n)"
proof -
  have "task_partition hash task_id (servers n (addr i)) = get_partition hash pm task_id"
    using queue_healthyD(1) [OF assms(1,2)] by (simp add: task_partition_def)
  with queue_healthyD(2,3) [OF assms(1,2)] assms(3,4) show ?thesis
    by (simp add: handle_get_task_status_def get_task_def Let_def)
qed

text \<open>The example: the tasks of b are gone, its backup c has the task \<open>x\<close>.\<close>

definition b_restarted :: "unit queue net" where
  "b_restarted = set_server (node_addr (lit ''c''))
     (store_task 1 (lit ''x'') (pending_entry sample_task 0) (servers sample_queue_net (node_addr (lit ''c''))))
     sample_queue_net"

lemma b_restarted_facts:
  "queue_healthy three_ids node_addr new_partition_manager (servers b_restarted)"
  "task_at (servers b_restarted (node_addr i)) p j =
     (if i = lit ''c'' \<and> p = 1 \<and> j = lit ''x'' then Some (pending_entry sample_task 0) else None)"
  "get_partition length_hash new_partition_manager (lit ''x'') = 1"
  "queue_partitioner (servers b_restarted a) = new_partition_manager"
  "reliable b_restarted" "listening b_restarted a"
proof -
  show "queue_healthy three_ids node_addr new_partition_manager (servers b_restarted)"
    using sample_queue_net_healthy by (rule queue_healthy_cong) (simp add: b_restarted_def)
  show "task_at (servers b_restarted (node_addr i)) p j =
     (if i = lit ''c'' \<and> p = 1 \<and> j = lit ''x'' then Some (pending_entry sample_task 0) else None)"
    by (auto simp: b_restarted_def node_addr_def)
  show "get_partition length_hash new_partition_manager (lit ''x'') = 1"
    by (simp add: get_partition_def length_hash_def new_partition_manager_def new_with_replication_def)
  show "queue_partitioner (servers b_restarted a) = new_partition_manager"
    "reliable b_restarted" "listening b_restarted a"
    by (simp_all add: b_restarted_def sample_queue_net_def new_queue_def reliable_def)
qed

theorem get_task_reports_owners_witness:
  "fst (get_task Some length_hash (node_addr (lit ''a'')) (lit ''x'') b_restarted) \<noteq> None"
proof -
  have a: "lit ''a'' \<in> set three_ids" and ab: "lit ''b'' \<noteq> lit ''a''" by (simp_all add: lit_simps)
  note f = b_restarted_facts
  have "get_task_local length_hash (lit ''x'') (servers b_restarted (node_addr (lit ''c''))) \<noteq> None"
    by (simp add: get_task_local_def task_partition_def f)
  with get_task_reports_owners [OF f(1) a, of Some "lit ''x''" length_hash] ab f(5,6)
  show ?thesis by (auto simp: sample_task_placement split: prod.splits)
qed

theorem primary_never_asks_backups_witness:
  "handle_get_task_status Some length_hash (node_addr (lit ''b'')) (lit ''x'') b_restarted
     = ((NOT_FOUND, None), b_restarted) \<and>
   get_task_local length_hash (lit ''x'') (servers b_restarted (node_addr (lit ''c''))) \<noteq> None"
proof -
  have b: "lit ''b'' \<in> set three_ids" and bc: "lit ''b'' \<noteq> lit ''c''" by (simp_all add: lit_simps)
  note f = b_restarted_facts
  have "get_task_local length_hash (lit ''x'') (servers b_restarted (node_addr (lit ''b''))) = None"
    using bc by (simp add: get_task_local_def task_partition_def f)
  moreover have "get_task_local length_hash (lit ''x'') (servers b_restarted (node_addr (lit ''c''))) \<noteq> None"
    by (simp add: get_task_local_def task_partition_def f)
  ultimately show ?thesis
    using primary_never_asks_backups [OF f(1) b, of length_hash "lit ''x''" Some]
    by (simp add: sample_task_placement)
qed

subsection \<open>Anti-entropy\<close>

lemma fetch_tasks_servers: "servers (snd (fetch_tasks self b p n)) = servers n"
proof -
  have "snd (fetch_tasks self b p n) =
      (case get_member (queue_membership (servers n self)) b of None \<Rightarrow> n
       | Some node \<Rightarrow> snd (retry_loop (serve handle_task_partition_dump) 3 150 (http_addr node) p n))"
    by (simp add: fetch_tasks_def retry_defs split: option.split prod.split sum.split)
  then show ?thesis by (simp add: task_dump_service.retry_keeps split: option.split)
qed

lemma sync_queue_partition_keeps:
  assumes "task_at (servers n self) p' i = Some e"
  shows "task_at (servers (sync_queue_partition self p n) self) p' i = Some e"
proof -
  have "task_at (servers (case fetch_tasks self b p n of
       (Inr entries, n1) \<Rightarrow> if entries \<noteq> [] then set_server self (apply_tasks p entries (servers n1 self)) n1 else n1
     | (Inl e, n1) \<Rightarrow> n1) self) p' i = Some e" for b
    using fetch_tasks_servers [of self b p n] assms
    by (cases "fetch_tasks self b p n") (auto simp: task_at_apply split: sum.splits)
  with assms show ?thesis by (auto simp: sync_queue_partition_def Let_def split: option.splits)
qed

text \<open>Anti-entropy only adds tasks: a pass leaves every entry the node holds as it is, whatever the peers
  answer and the network does. So a backup that holds a task as pending never learns that it was
  run: completions are not replicated, and after a failover the task is run again.\<close>
theorem queue_sync_keeps_entries:
  assumes "task_at (servers n self) p i = Some e"
  shows "task_at (servers (sync_queue_partitions order self n) self) p i = Some e"
proof -
  have "task_at (servers (fold (sync_queue_partition self) ps m) self) p i = Some e"
    if "task_at (servers m self) p i = Some e" for ps m
    using that by (induction ps arbitrary: m) (auto simp: sync_queue_partition_keeps)
  with assms show ?thesis by (simp add: sync_queue_partitions_def Let_def)
qed

theorem queue_sync_keeps_entries_witness:
  "task_at (servers (sync_queue_partitions sorted_list_of_set (node_addr (lit ''c'')) b_restarted)
     (node_addr (lit ''c''))) 1 (lit ''x'') = Some (pending_entry sample_task 0)"
  by (rule queue_sync_keeps_entries) (simp add: b_restarted_facts)

end
