(* ===== verification/Executor.thy ===== *)
theory Executor
  imports TaskLifecycle
begin

text \<open>
  The worker pool (\<open>src/src/executor/executor.rs\<close>) and the handler registry (\<open>registry.rs\<close>). A task
  handler is any function of the task and of the world \<open>'w\<close> it works on; in the program that is the
  cluster of distributed maps. While a handler runs, the sidecar task renews the lease; the times
  \<open>beats\<close> at which it does are an input.
\<close>

subsection \<open>The registry\<close>

type_synonym ('p, 'w) task_fn = "'p task \<Rightarrow> 'w \<Rightarrow> task_result \<times> 'w"
type_synonym ('p, 'w) registry = "(str, ('p, 'w) task_fn) dashmap"

definition new_registry :: "('p, 'w) registry" where
  "new_registry = []"

definition register :: "str \<Rightarrow> ('p, 'w) task_fn \<Rightarrow> ('p, 'w) registry \<Rightarrow> ('p, 'w) registry" where
  "register handler_name handler reg = dm_insert handler_name handler reg"

definition execute :: "('p, 'w) registry \<Rightarrow> 'p task \<Rightarrow> 'w \<Rightarrow> task_result \<times> 'w" where
  "execute reg t w =
     (case dm_get reg (task_handler t) of
        Some handler_fn \<Rightarrow> handler_fn t w
      | None \<Rightarrow> (Inl (lit ''Unknown task handler: '' @ task_handler t), w))"

definition list_handlers :: "('p, 'w) registry \<Rightarrow> str list" where
  "list_handlers reg = map fst reg"

definition has_handler :: "str \<Rightarrow> ('p, 'w) registry \<Rightarrow> bool" where
  "has_handler handler_name reg = dm_contains_key reg handler_name"

definition handler_count :: "('p, 'w) registry \<Rightarrow> nat" where
  "handler_count reg = length reg"

subsection \<open>A worker\<close>

text \<open>The renewal loop: it stops at the first error of \<open>renew_lease\<close>.\<close>

fun lease_renewal :: "(str \<Rightarrow> u64) \<Rightarrow> str \<Rightarrow> u64 list \<Rightarrow> 'p queue \<Rightarrow> 'p queue" where
  "lease_renewal hash task_id [] q = q"
| "lease_renewal hash task_id (t # beats) q =
     (case renew_lease hash task_id (q\<lparr>now := t\<rparr>) of
        (Inr _, q1) \<Rightarrow> lease_renewal hash task_id beats q1
      | (Inl _, q1) \<Rightarrow> q1)"

definition execute_task :: "('p, 'w) registry \<Rightarrow> 'p task \<Rightarrow> 'w \<Rightarrow> task_result \<times> 'w" where
  "execute_task reg t w = execute reg t w"

definition execute_with_lease :: "(str \<Rightarrow> u64) \<Rightarrow> ('p, 'w) registry \<Rightarrow> u64 list \<Rightarrow> str \<Rightarrow> 'p task
    \<Rightarrow> 'w \<times> 'p queue \<Rightarrow> 'w \<times> 'p queue" where
  "execute_with_lease hash reg beats task_id t st =
     (case st of (w, q) \<Rightarrow>
        let q1 = lease_renewal hash task_id beats q
        in case execute_task reg t w of
             (result, w1) \<Rightarrow> (w1, snd (complete_task hash task_id result q1)))"

fun claim_first :: "(str \<Rightarrow> u64) \<Rightarrow> (str \<times> 'p task_entry) list \<Rightarrow> 'p queue
    \<Rightarrow> (str \<times> 'p task_entry) option \<times> 'p queue" where
  "claim_first hash [] q = (None, q)"
| "claim_first hash ((task_id, entry) # tasks) q =
     (case try_claim_task hash task_id q of
        (Inr True, q1) \<Rightarrow> (Some (task_id, entry), q1)
      | (Inr False, q1) \<Rightarrow> claim_first hash tasks q1
      | (Inl e, q1) \<Rightarrow> claim_first hash tasks q1)"

text \<open>What one turn of \<open>worker_loop\<close> does: sleep 100 ms, sleep 50 ms, or run a task.\<close>

datatype worker_action = NothingToDo | NothingClaimed | Ran str

definition worker_step :: "(str \<Rightarrow> u64) \<Rightarrow> ('p, 'w) registry \<Rightarrow> u64 list \<Rightarrow> 'w \<times> 'p queue
    \<Rightarrow> worker_action \<times> 'w \<times> 'p queue" where
  "worker_step hash reg beats st =
     (case st of (w, q) \<Rightarrow>
        let tasks = my_pending_tasks q
        in if tasks = [] then (NothingToDo, w, q)
           else (case claim_first hash tasks q of
                   (None, q1) \<Rightarrow> (NothingClaimed, w, q1)
                 | (Some (task_id, entry), q1) \<Rightarrow>
                     (Ran task_id, execute_with_lease hash reg beats task_id (etask entry) (w, q1))))"

text \<open>The loop, one turn for each list of heartbeat times.\<close>

fun worker_run :: "(str \<Rightarrow> u64) \<Rightarrow> ('p, 'w) registry \<Rightarrow> u64 list list \<Rightarrow> 'w \<times> 'p queue \<Rightarrow> 'w \<times> 'p queue" where
  "worker_run hash reg [] st = st"
| "worker_run hash reg (beats # turns) st = worker_run hash reg turns (snd (worker_step hash reg beats st))"

subsection \<open>What a turn does to the queue\<close>

lemma try_claim_False: "fst (try_claim_task hash i q) \<noteq> Inr True \<Longrightarrow> try_claim_task hash i q = (Inr False, q)"
  by (auto simp: try_claim_task_def Let_def split: option.splits if_splits)

lemma claim_first_None:
  "claim_first hash ts q = (None, q') \<Longrightarrow> q' = q \<and> (\<forall>(i, e) \<in> set ts. fst (try_claim_task hash i q) \<noteq> Inr True)"
proof (induction ts)
  case Nil
  then show ?case by simp
next
  case (Cons t ts)
  obtain i e where t: "t = (i, e)" by (cases t)
  have no: "fst (try_claim_task hash i q) \<noteq> Inr True"
    using Cons.prems t by (auto split: prod.splits)
  with Cons.prems t try_claim_False [OF no] Cons.IH show ?case by auto
qed

lemma claim_first_Some:
  "claim_first hash ts q = (Some (i, e), q') \<Longrightarrow> (i, e) \<in> set ts \<and> try_claim_task hash i q = (Inr True, q')"
proof (induction ts)
  case Nil
  then show ?case by simp
next
  case (Cons t ts)
  obtain j d where t: "t = (j, d)" by (cases t)
  show ?case
  proof (cases "fst (try_claim_task hash j q) = Inr True")
    case True
    with Cons.prems t show ?thesis by (auto split: prod.splits)
  next
    case False
    with Cons.prems t try_claim_False [OF False] Cons.IH show ?thesis by auto
  qed
qed

definition about :: "str \<Rightarrow> 'p queue_op \<Rightarrow> bool" where
  "about i op \<longleftrightarrow> op = Claim i \<or> op = Renew i \<or> (\<exists>r. op = Complete i r) \<or> (\<exists>t. op = ClockTo t)"

lemma lease_renewal_run:
  "\<exists>ops. lease_renewal hash i beats q = queue_run hash ops q \<and> (\<forall>op \<in> set ops. about i op)"
proof (induction beats arbitrary: q)
  case Nil
  show ?case by (intro exI [of _ "[]"]) simp
next
  case (Cons t beats)
  let ?q = "snd (renew_lease hash i (q\<lparr>now := t\<rparr>))"
  from Cons.IH [of ?q] obtain ops where ops: "lease_renewal hash i beats ?q = queue_run hash ops ?q"
    "\<forall>op \<in> set ops. about i op" by blast
  show ?case
  proof (cases "\<exists>e. fst (renew_lease hash i (q\<lparr>now := t\<rparr>)) = Inl e")
    case True
    then have "lease_renewal hash i (t # beats) q = ?q" by (auto split: prod.splits)
    then show ?thesis by (intro exI [of _ "[ClockTo t, Renew i]"]) (simp add: about_def)
  next
    case False
    then have "lease_renewal hash i (t # beats) q = lease_renewal hash i beats ?q"
      by (auto split: prod.splits sum.splits)
    with ops show ?thesis
      by (intro exI [of _ "[ClockTo t, Renew i] @ ops"]) (auto simp: about_def)
  qed
qed

text \<open>A turn that runs the task \<open>i\<close> is a run of operations about \<open>i\<close> that ends with its completion.\<close>

lemma queue_run_append: "queue_run hash (ops @ ops') q = queue_run hash ops' (queue_run hash ops q)"
  by (simp add: queue_run_def)

lemma worker_step_Ran:
  assumes "worker_step hash reg beats (w, q) = (Ran i, w', q')"
  shows "\<exists>e ops. (i, e) \<in> set (my_pending_tasks q) \<and> fst (try_claim_task hash i q) = Inr True \<and>
    w' = snd (execute reg (etask e) w) \<and> (\<forall>op \<in> set ops. about i op) \<and>
    q' = queue_run hash (Claim i # ops @ [Complete i (fst (execute reg (etask e) w))]) q"
proof -
  obtain e q1 where c: "claim_first hash (my_pending_tasks q) q = (Some (i, e), q1)"
    and st: "(w', q') = execute_with_lease hash reg beats i (etask e) (w, q1)"
    using assms by (auto simp: worker_step_def Let_def split: if_splits prod.splits option.splits)
  note cs = claim_first_Some [OF c]
  obtain ops where ops: "lease_renewal hash i beats q1 = queue_run hash ops q1" "\<forall>op \<in> set ops. about i op"
    using lease_renewal_run by blast
  have "w' = snd (execute reg (etask e) w)"
    and "q' = snd (complete_task hash i (fst (execute reg (etask e) w)) (queue_run hash ops q1))"
    using st ops(1) by (auto simp: execute_with_lease_def execute_task_def split: prod.splits)
  moreover have q1: "snd (try_claim_task hash i q) = q1" using cs by simp
  have "queue_run hash (Claim i # ops @ [Complete i r]) q = snd (complete_task hash i r (queue_run hash ops q1))" for r
    by (simp only: queue_run_simps queue_run_append queue_step.simps q1)
  ultimately have "w' = snd (execute reg (etask e) w) \<and>
      q' = queue_run hash (Claim i # ops @ [Complete i (fst (execute reg (etask e) w))]) q" by simp
  moreover have "(i, e) \<in> set (my_pending_tasks q)" "fst (try_claim_task hash i q) = Inr True"
    using cs by simp_all
  ultimately show ?thesis using ops(2) by blast
qed

lemma get_task_local_other:
  assumes "\<forall>op \<in> set ops. about i op" and "j \<noteq> i"
  shows "get_task_local hash j (queue_run hash ops q) = get_task_local hash j q"
  using assms(1)
proof (induction ops arbitrary: q)
  case Nil
  then show ?case by simp
next
  case (Cons op ops)
  have "get_task_local hash j (queue_step hash op q) = get_task_local hash j q"
    unfolding get_task_local_after using Cons.prems assms(2)
    by (auto simp: about_def get_task_local_def try_claim_task_def renew_lease_def complete_task_def Let_def
        split: option.splits sum.splits)
  with Cons show ?case by simp
qed

text \<open>The tasks a worker of this node can still claim.\<close>

definition pending_ids :: "(str \<Rightarrow> u64) \<Rightarrow> 'p queue \<Rightarrow> str set" where
  "pending_ids hash q = {i. fst (try_claim_task hash i q) = Inr True \<and>
     task_partition hash i q \<in> set (get_my_primary_partitions q)}"

lemma pending_ids_listed:
  assumes "queue_wf q"
  shows "pending_ids hash q \<subseteq> fst ` set (my_pending_tasks q)"
proof
  fix i
  assume i: "i \<in> pending_ids hash q"
  then obtain e where "task_at q (task_partition hash i q) i = Some e" "estatus e = Pending"
    by (auto simp: pending_ids_def try_claim_iff get_task_local_def)
  then have "(i, e) \<in> set (my_pending_tasks q)"
    using i by (auto simp: my_pending_iff [OF assms] is_available_def pending_ids_def)
  then show "i \<in> fst ` set (my_pending_tasks q)" by force
qed

lemma finite_pending_ids: "queue_wf q \<Longrightarrow> finite (pending_ids hash q)"
  using pending_ids_listed finite_subset by blast

lemma primary_frame [simp]:
  "get_my_primary_partitions (queue_run hash ops q) = get_my_primary_partitions q"
  "task_partition hash i (queue_run hash ops q) = task_partition hash i q"
  by (simp_all add: get_my_primary_partitions_def task_partition_def)

lemma completed_entry:
  assumes "get_task_local hash i q = Some e"
  shows "get_task_local hash i (queue_run hash (ops @ [Complete i r]) q) \<noteq> None \<and>
    (\<forall>e'. get_task_local hash i (queue_run hash (ops @ [Complete i r]) q) = Some e' \<longrightarrow>
      estatus e' = (case r of Inr _ \<Rightarrow> Completed | Inl msg \<Rightarrow> Failed msg))"
proof -
  obtain e' where "get_task_local hash i (queue_run hash ops q) = Some e'"
    using get_task_local_run [OF assms] by blast
  from get_task_local_step [OF this, of "Complete i r"] show ?thesis
    by (auto simp: queue_run_append entry_after_def split: sum.splits)
qed

text \<open>Every task is filed under the partition of its id, as all senders of the program do.\<close>

definition filed :: "(str \<Rightarrow> u64) \<Rightarrow> 'p queue \<Rightarrow> bool" where
  "filed hash q \<longleftrightarrow> (\<forall>p i e. task_at q p i = Some e \<longrightarrow> p = task_partition hash i q)"

lemma filed_step: "filed hash q \<Longrightarrow> about i op \<Longrightarrow> filed hash (queue_step hash op q)"
  by (auto simp: filed_def about_def task_partition_def try_claim_task_def renew_lease_def complete_task_def
      Let_def split: option.splits if_splits)

lemma filed_run: "filed hash q \<Longrightarrow> \<forall>op \<in> set ops. about i op \<Longrightarrow> filed hash (queue_run hash ops q)"
  by (induction ops arbitrary: q) (auto simp: filed_step)

lemma worker_step_pending:
  assumes wf: "queue_wf q" and filed: "filed hash q" and "worker_step hash reg beats (w, q) = (a, w', q')"
  shows "queue_wf q' \<and> filed hash q' \<and>
    (pending_ids hash q \<noteq> {} \<longrightarrow> card (pending_ids hash q') < card (pending_ids hash q)) \<and>
    (pending_ids hash q = {} \<longrightarrow> pending_ids hash q' = {})"
proof (cases a)
  case (Ran i)
  from worker_step_Ran [OF assms(3) [unfolded Ran]] obtain e ops where
    claim: "fst (try_claim_task hash i q) = Inr True"
    and listed: "(i, e) \<in> set (my_pending_tasks q)"
    and ops: "\<forall>op \<in> set ops. about i op"
    and q': "q' = queue_run hash (Claim i # ops @ [Complete i (fst (execute reg (etask e) w))]) q"
    by blast
  let ?ops = "Claim i # ops @ [Complete i (fst (execute reg (etask e) w))]"
  have ab: "\<forall>op \<in> set ?ops. about i op" using ops by (auto simp: about_def)
  obtain e0 where "get_task_local hash i q = Some e0" using claim by (auto simp: try_claim_iff)
  from completed_entry [OF this, of "Claim i # ops" "fst (execute reg (etask e) w)"]
  have "fst (try_claim_task hash i q') \<noteq> Inr True"
    unfolding q' by (auto simp: try_claim_iff split: sum.splits)
  moreover have "fst (try_claim_task hash j q') = Inr True \<longleftrightarrow> fst (try_claim_task hash j q) = Inr True"
    if "j \<noteq> i" for j
    using get_task_local_other [OF ab that, of hash q] unfolding q' by (simp only: try_claim_iff)
  moreover have "get_my_primary_partitions q' = get_my_primary_partitions q"
    "task_partition hash j q' = task_partition hash j q" for j
    unfolding q' by (simp_all only: primary_frame)
  ultimately have "j \<in> pending_ids hash q' \<longleftrightarrow> j \<in> pending_ids hash q - {i}" for j
    unfolding pending_ids_def by (cases "j = i") simp_all
  then have sub: "pending_ids hash q' = pending_ids hash q - {i}" by blast
  obtain p where "p \<in> set (get_my_primary_partitions q)" "task_at q p i = Some e"
    using listed by (auto simp: my_pending_iff [OF wf])
  then have "i \<in> pending_ids hash q"
    using filed claim by (auto simp: pending_ids_def filed_def)
  moreover have "queue_wf q'" unfolding q' using wf by (rule queue_wf_run)
  moreover have "filed hash q'" unfolding q' using filed ab by (rule filed_run)
  ultimately show ?thesis using sub card_Diff1_less [OF finite_pending_ids [OF wf], of i hash] by auto
next
  case NothingToDo
  then have "my_pending_tasks q = []" "q' = q"
    using assms(3) by (auto simp: worker_step_def Let_def split: if_splits prod.splits option.splits)
  with pending_ids_listed [OF wf, of hash] wf filed show ?thesis by simp
next
  case NothingClaimed
  then obtain q1 where "claim_first hash (my_pending_tasks q) q = (None, q1)" "q' = q1"
    using assms(3) by (auto simp: worker_step_def Let_def split: if_splits prod.splits option.splits)
  with claim_first_None have "q' = q" and none: "\<forall>(i, e) \<in> set (my_pending_tasks q). fst (try_claim_task hash i q) \<noteq> Inr True"
    by blast+
  have "pending_ids hash q = {}"
    using pending_ids_listed [OF wf, of hash] none by (force simp: pending_ids_def)
  with \<open>q' = q\<close> wf filed show ?thesis by simp
qed

text \<open>A task that is over: completed or failed. It stays so.\<close>

definition finished :: "(str \<Rightarrow> u64) \<Rightarrow> 'p queue \<Rightarrow> str \<Rightarrow> bool" where
  "finished hash q i \<longleftrightarrow> (case get_task_local hash i q of None \<Rightarrow> False
     | Some e \<Rightarrow> estatus e = Completed \<or> (\<exists>msg. estatus e = Failed msg))"

lemma finished_iff: "finished hash q i \<longleftrightarrow> (\<exists>e. get_task_local hash i q = Some e \<and> Completed \<le> estatus e)"
proof -
  have "Completed \<le> s \<longleftrightarrow> s = Completed \<or> (\<exists>msg. s = Failed msg)" for s by (cases s) simp_all
  then show ?thesis by (auto simp: finished_def split: option.splits)
qed

lemma finished_run: "finished hash q i \<Longrightarrow> finished hash (queue_run hash ops q) i"
  unfolding finished_iff using get_task_local_run order_trans by metis

lemma worker_step_finishes:
  assumes "queue_wf q" and "filed hash q" and "worker_step hash reg beats (w, q) = (a, w', q')"
    and "i \<in> pending_ids hash q \<or> finished hash q i"
  shows "i \<in> pending_ids hash q' \<or> finished hash q' i"
proof (cases a)
  case (Ran j)
  from worker_step_Ran [OF assms(3) [unfolded Ran]] obtain e ops where
    claim: "fst (try_claim_task hash j q) = Inr True" and "(j, e) \<in> set (my_pending_tasks q)"
    and ops: "\<forall>op \<in> set ops. about j op"
    and q': "q' = queue_run hash (Claim j # ops @ [Complete j (fst (execute reg (etask e) w))]) q"
    by blast
  let ?ops = "Claim j # ops @ [Complete j (fst (execute reg (etask e) w))]"
  have ab: "\<forall>op \<in> set ?ops. about j op" using ops by (auto simp: about_def)
  show ?thesis
  proof (cases "finished hash q i")
    case True
    then show ?thesis unfolding q' by (intro disjI2 finished_run)
  next
    case False
    then have i: "i \<in> pending_ids hash q" using assms(4) by simp
    show ?thesis
    proof (cases "i = j")
      case True
      obtain e0 where "get_task_local hash j q = Some e0" using claim by (auto simp: try_claim_iff)
      from completed_entry [OF this, of "Claim j # ops" "fst (execute reg (etask e) w)"]
      have "finished hash q' j" unfolding q' finished_def by (auto split: option.splits sum.splits)
      with True show ?thesis by simp
    next
      case other: False
      have "i \<in> pending_ids hash q'"
        using i get_task_local_other [OF ab other, of hash q] unfolding q' pending_ids_def
        by (simp only: try_claim_iff primary_frame mem_Collect_eq)
      then show ?thesis ..
    qed
  qed
next
  case NothingToDo
  then show ?thesis
    using assms(3,4) by (auto simp: worker_step_def Let_def split: if_splits prod.splits option.splits)
next
  case NothingClaimed
  then obtain q1 where "claim_first hash (my_pending_tasks q) q = (None, q1)" "q' = q1"
    using assms(3) by (auto simp: worker_step_def Let_def split: if_splits prod.splits option.splits)
  with claim_first_None assms(4) show ?thesis by blast
qed

subsection \<open>Examples\<close>

definition sample_registry :: "(unit, nat) registry" where
  "sample_registry = register (lit ''index_document'') (\<lambda>t w. (Inr (), Suc w)) new_registry"

lemma sample_queue_only:
  "task_at sample_queue p i = (if p = 7 \<and> i = lit ''t'' then Some (pending_entry sample_task 100) else None)"
  by (simp add: sample_queue_def)

lemma sample_queue_facts:
  "queue_wf sample_queue" "filed const_hash sample_queue"
  "pending_ids const_hash sample_queue \<subseteq> {lit ''t''}"
proof -
  show "queue_wf sample_queue" by (simp add: sample_queue_def queue_wf_store_task)
  show "filed const_hash sample_queue" by (simp add: filed_def sample_queue_only)
  show "pending_ids const_hash sample_queue \<subseteq> {lit ''t''}"
    by (auto simp: pending_ids_def try_claim_iff get_task_local_def sample_queue_only split: if_splits)
qed

lemma sample_primary: "(7 :: u32) \<in> set (get_my_primary_partitions sample_queue)"
proof -
  have "ring_owners 2 [lit ''a''] k = [lit ''a'']" for k
    by (simp add: ring_owners_def)
  then show ?thesis
    by (simp add: get_my_primary_partitions_def Let_def get_owners_ring set_partitions sample_queue_def)
      (simp add: new_queue_def new_partition_manager_def new_with_replication_def max_def)
qed

lemma sample_worker_step:
  "\<exists>w' q'. worker_step const_hash sample_registry [] (0, sample_queue) = (Ran (lit ''t''), w', q')"
proof -
  note prim = sample_primary
  have claim: "fst (try_claim_task const_hash (lit ''t'') sample_queue) = Inr True"
    by (simp add: try_claim_iff sample_queue_task pending_entry_def)
  then have listed: "(lit ''t'', pending_entry sample_task 100) \<in> set (my_pending_tasks sample_queue)"
    using prim by (auto simp: my_pending_iff [OF sample_queue_facts(1)] sample_queue_only is_available_def pending_entry_def)
  obtain c q1 where c: "claim_first const_hash (my_pending_tasks sample_queue) sample_queue = (c, q1)"
    by (cases "claim_first const_hash (my_pending_tasks sample_queue) sample_queue")
  have "c \<noteq> None"
  proof
    assume "c = None"
    with claim_first_None [of const_hash "my_pending_tasks sample_queue" sample_queue q1] c claim
    have "\<forall>(i, e) \<in> set (my_pending_tasks sample_queue). fst (try_claim_task const_hash i sample_queue) \<noteq> Inr True"
      by simp
    from bspec [OF this listed] claim show False by simp
  qed
  then obtain i e where ie: "c = Some (i, e)" by auto
  have "get_task_local const_hash i sample_queue \<noteq> None"
    using claim_first_Some [OF c [unfolded ie]] try_claim_iff [of const_hash i sample_queue] by auto
  then have "i = lit ''t''" by (simp add: get_task_local_def sample_queue_only split: if_splits)
  moreover have "my_pending_tasks sample_queue \<noteq> []" using listed by auto
  ultimately show ?thesis using c ie
    by (simp add: worker_step_def Let_def execute_with_lease_def split: prod.split)
qed

subsection \<open>Properties\<close>

text \<open>C20: a turn of a worker that runs a task runs the work of exactly that task and finishes it: the task was
  pending, what happens to the world is one execution of its own work, and its entry ends completed if
  its handler returned Ok, failed with the handler's message otherwise, and failed with "Unknown task
  handler" if no handler of that name is registered. No other task changes.\<close>
theorem worker_finishes_task:
  assumes "queue_wf q" and "filed hash q" and "worker_step hash reg beats (w, q) = (Ran i, w', q')"
  shows "case (get_task_local hash i q, get_task_local hash i q') of
      (Some e, Some e') \<Rightarrow> estatus e = Pending \<and> w' = snd (execute reg (etask e) w) \<and>
        etask e' = etask e \<and> lease_expires e' = None \<and>
        estatus e' = (case dm_get reg (task_handler (etask e)) of
            None \<Rightarrow> Failed (lit ''Unknown task handler: '' @ task_handler (etask e))
          | Some handler \<Rightarrow> (case fst (handler (etask e) w) of Inr _ \<Rightarrow> Completed | Inl msg \<Rightarrow> Failed msg)) \<and>
        (\<forall>j. j \<noteq> i \<longrightarrow> get_task_local hash j q' = get_task_local hash j q)
    | _ \<Rightarrow> False"
proof -
  from worker_step_Ran [OF assms(3)] obtain e ops where
    listed: "(i, e) \<in> set (my_pending_tasks q)"
    and claim: "fst (try_claim_task hash i q) = Inr True"
    and about: "\<forall>op \<in> set ops. about i op"
    and w': "w' = snd (execute reg (etask e) w)"
    and q': "q' = queue_run hash (Claim i # ops @ [Complete i (fst (execute reg (etask e) w))]) q"
    by blast
  have e: "get_task_local hash i q = Some e"
    using listed assms(2) by (auto simp: my_pending_iff [OF assms(1)] get_task_local_def filed_def)
  have pending: "estatus e = Pending" using claim e by (simp add: try_claim_iff)
  obtain e1 where e1: "get_task_local hash i (queue_run hash (Claim i # ops) q) = Some e1" "etask e1 = etask e"
    using get_task_local_run [OF e] by blast
  from get_task_local_step [OF e1(1), of "Complete i (fst (execute reg (etask e) w))"]
  have "get_task_local hash i q' = Some (entry_after hash i (Complete i (fst (execute reg (etask e) w)))
      (queue_run hash (Claim i # ops) q) e1)"
    unfolding q' by (simp add: queue_run_append)
  note done_entry = this
  have "\<forall>op \<in> set (Claim i # ops @ [Complete i (fst (execute reg (etask e) w))]). about i op"
    using about by (auto simp: about_def)
  from get_task_local_other [OF this] have "\<forall>j. j \<noteq> i \<longrightarrow> get_task_local hash j q' = get_task_local hash j q"
    unfolding q' by blast
  note others = this
  let ?r = "fst (execute reg (etask e) w)"
  have "etask (entry_after hash i (Complete i ?r) q0 e1) = etask e \<and>
      lease_expires (entry_after hash i (Complete i ?r) q0 e1) = None \<and>
      estatus (entry_after hash i (Complete i ?r) q0 e1) = (case ?r of Inr _ \<Rightarrow> Completed | Inl msg \<Rightarrow> Failed msg)" for q0
    using e1(2) by (simp add: entry_after_def split: sum.split)
  moreover have "(case ?r of Inr _ \<Rightarrow> Completed | Inl msg \<Rightarrow> Failed msg) = (case dm_get reg (task_handler (etask e)) of
            None \<Rightarrow> Failed (lit ''Unknown task handler: '' @ task_handler (etask e))
          | Some handler \<Rightarrow> (case fst (handler (etask e) w) of Inr _ \<Rightarrow> Completed | Inl msg \<Rightarrow> Failed msg))"
    by (simp add: execute_def split: option.split)
  ultimately show ?thesis
    unfolding e done_entry using w' pending others by simp
qed

theorem worker_finishes_task_witness:
  "\<exists>w' q' e'. worker_step const_hash sample_registry [] (0, sample_queue) = (Ran (lit ''t''), w', q') \<and>
     get_task_local const_hash (lit ''t'') q' = Some e' \<and> estatus e' = Completed"
proof -
  obtain w' q' where st: "worker_step const_hash sample_registry [] (0, sample_queue) = (Ran (lit ''t''), w', q')"
    using sample_worker_step by blast
  from worker_finishes_task [OF sample_queue_facts(1,2) st] show ?thesis using st
    by (auto simp: sample_queue_task sample_registry_def register_def pending_entry_def sample_task_def
        split: option.splits)
qed

text \<open>C12: a worker drains the queue: if no new tasks arrive, a single worker finishes every task that is
  pending in the partitions this node is primary for, one per turn: with as many turns as there are
  such tasks each of them is completed or failed and none is left to claim, whatever the handlers
  return and whenever the leases are renewed.\<close>
theorem worker_drains_queue:
  assumes "queue_wf q" and "filed hash q" and "card (pending_ids hash q) \<le> length turns"
  shows "(\<forall>i \<in> pending_ids hash q. finished hash (snd (worker_run hash reg turns (w, q))) i) \<and>
    pending_ids hash (snd (worker_run hash reg turns (w, q))) = {}"
proof -
  have "pending_ids hash (snd (worker_run hash reg turns (w, q))) = {} \<and>
    (\<forall>i. i \<in> pending_ids hash q \<or> finished hash q i \<longrightarrow> finished hash (snd (worker_run hash reg turns (w, q))) i)"
    using assms
  proof (induction turns arbitrary: w q)
    case Nil
    then show ?case using finite_pending_ids [of q hash] by simp
  next
    case (Cons beats turns)
    obtain a w' q' where st: "worker_step hash reg beats (w, q) = (a, w', q')"
      by (cases "worker_step hash reg beats (w, q)") auto
    from worker_step_pending [OF Cons.prems(1,2) st] have
      "queue_wf q'" "filed hash q'" "card (pending_ids hash q') \<le> length turns"
      using Cons.prems(3) by (cases "pending_ids hash q = {}"; force)+
    from Cons.IH [OF this, of w'] worker_step_finishes [OF Cons.prems(1,2) st] st show ?case by auto
  qed
  then show ?thesis by blast
qed

theorem worker_drains_queue_witness:
  "finished const_hash (snd (worker_run const_hash sample_registry [[200, 300]] (0, sample_queue))) (lit ''t'')"
proof -
  have "card (pending_ids const_hash sample_queue) \<le> length [[200 :: u64, 300]]"
    using card_mono [OF _ sample_queue_facts(3)] by simp
  moreover have "lit ''t'' \<in> pending_ids const_hash sample_queue"
    using sample_primary by (simp add: pending_ids_def try_claim_iff sample_queue_task pending_entry_def)
  ultimately show ?thesis
    using worker_drains_queue [OF sample_queue_facts(1,2), of "[[200, 300]]" sample_registry 0] by blast
qed

end
