(* ===== verification/Ingestion.thy ===== *)
theory Ingestion
  imports Documents QueueGuarantees Executor
begin

text \<open>
  The ingestion handlers (\<open>src/src/ingestion/handlers.rs\<close>), the handler that creates a book by hand
  (\<open>src/src/search/handlers.rs\<close>) and the task \<open>index_document\<close> that \<open>src/src/main.rs\<close> registers.
  They work on the three distributed maps and on the queue at once, the record \<open>platform\<close>; the
  record \<open>services\<close> holds what does not come from the repository: Unicode tables and regular
  expressions, the key hash, the JSON codecs and the text of error messages. The download is an
  argument: \<open>None\<close> when the request fails.
\<close>

record raw_document =
  rd_book_id :: str
  rd_header :: str
  rd_body :: str
  rd_source_url :: str

record 'p platform =
  datalake :: "(str, raw_document) cluster"
  books :: books_net
  index_map :: index_net
  tasks :: "'p queue_net"

record 'p services =
  uni :: unicode
  key_hash :: "str \<Rightarrow> u64"
  doc_cd :: "(str, raw_document) codec"
  book_cd :: "(str, book_metadata) codec"
  ids_cd :: "(str, str list) codec"
  index_payload :: "str \<Rightarrow> 'p"
  payload_book_id :: "'p \<Rightarrow> str option"
  show_error :: "error \<Rightarrow> str"

subsection \<open>Ingestion\<close>

record ingest_response =
  ir_book_id :: str
  ir_status :: str
  ir_source_url :: str

definition source_url_of :: "str \<Rightarrow> str" where
  "source_url_of book_id =
     lit ''https://www.gutenberg.org/cache/epub/'' @ book_id @ lit ''/pg'' @ book_id @ lit ''.txt''"

definition index_task :: "'p services \<Rightarrow> str \<Rightarrow> 'p task" where
  "index_task sv book_id = Execute (lit ''index_document'') (index_payload sv book_id)"

text \<open>
  The identifiers the code draws are arguments: those of the two write operations and of the task.
  A handler that panicked would give no response, \<open>None\<close>.
\<close>

definition handle_ingest_gutenberg :: "'p services \<Rightarrow> (str \<Rightarrow> str option) \<Rightarrow> sock_addr \<Rightarrow> str \<Rightarrow> str \<Rightarrow> str
    \<Rightarrow> str \<Rightarrow> 'p platform \<Rightarrow> (status \<times> ingest_response) option \<times> 'p platform" where
  "handle_ingest_gutenberg sv download self op1 op2 task_id book_id w =
     (let source_url = source_url_of book_id;
          respond = (\<lambda>st msg. Some (st, \<lparr>ir_book_id = book_id, ir_status = lit msg, ir_source_url = source_url\<rparr>))
      in case get (key_hash sv) (doc_cd sv) self book_id (datalake w) of
           (Some _, d1) \<Rightarrow> (respond OK ''already_exists'', w\<lparr>datalake := d1\<rparr>)
         | (None, d1) \<Rightarrow>
             (case download source_url of
                None \<Rightarrow> (respond BAD_GATEWAY ''download_failed'', w\<lparr>datalake := d1\<rparr>)
              | Some text \<Rightarrow>
                  (case split_gutenberg_text (uni sv) text of
                     None \<Rightarrow> (None, w\<lparr>datalake := d1\<rparr>)
                   | Some None \<Rightarrow> (respond UNPROCESSABLE_ENTITY ''invalid_format'', w\<lparr>datalake := d1\<rparr>)
                   | Some (Some (header, body)) \<Rightarrow>
                       (let (word_count, unique_words) = compute_counts (uni sv) body;
                            metadata = parse_metadata (uni sv) header book_id word_count unique_words;
                            raw_doc = \<lparr>rd_book_id = book_id, rd_header = header, rd_body = body,
                              rd_source_url = source_url\<rparr>
                        in case put (key_hash sv) (doc_cd sv) self book_id raw_doc op1 d1 of
                             (Inl err, d2) \<Rightarrow>
                               (respond INTERNAL_SERVER_ERROR ''datalake_store_failed'', w\<lparr>datalake := d2\<rparr>)
                           | (Inr _, d2) \<Rightarrow>
                               (let (_, b1) = put (key_hash sv) (book_cd sv) self book_id metadata op2 (books w);
                                    (_, q1) = submit (key_hash sv) self task_id (index_task sv book_id) (tasks w)
                                in (respond ACCEPTED ''ingested'',
                                    w\<lparr>datalake := d2, books := b1, tasks := q1\<rparr>))))))"

definition handle_ingest_status :: "'p services \<Rightarrow> sock_addr \<Rightarrow> str \<Rightarrow> 'p platform
    \<Rightarrow> (status \<times> str \<times> str) \<times> 'p platform" where
  "handle_ingest_status sv self book_id w =
     (case get (key_hash sv) (doc_cd sv) self book_id (datalake w) of
        (Some _, d1) \<Rightarrow> ((OK, book_id, lit ''available''), w\<lparr>datalake := d1\<rparr>)
      | (None, d1) \<Rightarrow> ((OK, book_id, lit ''missing''), w\<lparr>datalake := d1\<rparr>))"

subsection \<open>Books created by hand\<close>

record create_book_request =
  cb_title :: str
  cb_author :: str
  cb_language :: str
  cb_year :: "u32 option"

definition handle_create_book :: "'p services \<Rightarrow> sock_addr \<Rightarrow> str \<Rightarrow> str \<Rightarrow> str \<Rightarrow> create_book_request
    \<Rightarrow> 'p platform \<Rightarrow> (status \<times> str) \<times> 'p platform" where
  "handle_create_book sv self book_id op task_id req w =
     (let book_meta = \<lparr>bm_book_id = book_id, bm_title = cb_title req, bm_author = cb_author req,
            bm_language = cb_language req, bm_year = cb_year req, bm_word_count = 0, bm_unique_words = 0\<rparr>
      in case put (key_hash sv) (book_cd sv) self book_id book_meta op (books w) of
           (Inl e, b1) \<Rightarrow> ((INTERNAL_SERVER_ERROR, book_id), w\<lparr>books := b1\<rparr>)
         | (Inr _, b1) \<Rightarrow>
             (let (_, q1) = submit (key_hash sv) self task_id (index_task sv book_id) (tasks w)
              in ((CREATED, book_id), w\<lparr>books := b1, tasks := q1\<rparr>)))"

subsection \<open>The task \<open>index_document\<close>\<close>

text \<open>The loop over the tokens, each with the identifier its put draws.\<close>

definition add_posting :: "str \<Rightarrow> str list \<Rightarrow> str list" where
  "add_posting book_id book_ids = (if book_id \<in> set book_ids then book_ids else book_ids @ [book_id])"

fun index_tokens :: "(str \<Rightarrow> u64) \<Rightarrow> (str, str list) codec \<Rightarrow> sock_addr \<Rightarrow> str \<Rightarrow> (str \<times> str) list
    \<Rightarrow> index_net \<Rightarrow> (error + unit) \<times> index_net" where
  "index_tokens hash cd self book_id [] n = (Inr (), n)"
| "index_tokens hash cd self book_id ((token, op) # tokens) n =
     (case get hash cd self token n of
        (posted, n1) \<Rightarrow>
          (case put hash cd self token (add_posting book_id (unwrap_or [] posted)) op n1 of
             (Inl e, n2) \<Rightarrow> (Inl e, n2)
           | (Inr _, n2) \<Rightarrow> index_tokens hash cd self book_id tokens n2))"

text \<open>\<open>order\<close> is the iteration order of the \<open>HashSet\<close> of tokens, with those identifiers.\<close>

definition index_document :: "'p services \<Rightarrow> (str set \<Rightarrow> (str \<times> str) list) \<Rightarrow> sock_addr
    \<Rightarrow> ('p, 'p platform) task_fn" where
  "index_document sv order self t w =
     (case payload_book_id sv (task_payload t) of
        None \<Rightarrow> (Inl (show_error sv DeserializeError), w)
      | Some book_id \<Rightarrow>
          (case get (key_hash sv) (doc_cd sv) self book_id (datalake w) of
             (None, d1) \<Rightarrow> (Inr (), w\<lparr>datalake := d1\<rparr>)
           | (Some raw_doc, d1) \<Rightarrow>
               (let tokens = tokenize_text (uni sv) (rd_body raw_doc)
                in case index_tokens (key_hash sv) (ids_cd sv) self book_id (order tokens) (index_map w) of
                     (Inl e, x1) \<Rightarrow> (Inl (show_error sv e), w\<lparr>datalake := d1, index_map := x1\<rparr>)
                   | (Inr _, x1) \<Rightarrow> (Inr (), w\<lparr>datalake := d1, index_map := x1\<rparr>))))"

definition task_registry :: "'p services \<Rightarrow> (str set \<Rightarrow> (str \<times> str) list) \<Rightarrow> sock_addr
    \<Rightarrow> ('p, 'p platform) registry" where
  "task_registry sv order self = register (lit ''index_document'') (index_document sv order self) new_registry"

text \<open>A turn of a worker of the node at \<open>self\<close>: its queue is the one the cluster \<open>tasks\<close> has there.\<close>

definition node_turn :: "'p services \<Rightarrow> (str set \<Rightarrow> (str \<times> str) list) \<Rightarrow> sock_addr \<Rightarrow> u64 list
    \<Rightarrow> 'p platform \<Rightarrow> worker_action \<times> 'p platform" where
  "node_turn sv order self beats w =
     (case worker_step (key_hash sv) (task_registry sv order self) beats (w, servers (tasks w) self) of
        (action, w1, q1) \<Rightarrow> (action, w1\<lparr>tasks := set_server self q1 (tasks w1)\<rparr>))"

subsection \<open>A healthy platform\<close>

text \<open>
  All nodes agree on the members, no request between the maps is lost, and the maps implement the abstract
  maps \<open>D\<close> (documents), \<open>B\<close> (metadata) and \<open>I\<close> (postings).
\<close>

definition platform_ok :: "'p services \<Rightarrow> str list \<Rightarrow> (str \<Rightarrow> sock_addr) \<Rightarrow> partition_manager
    \<Rightarrow> (str \<Rightarrow> raw_document option) \<Rightarrow> (str \<Rightarrow> book_metadata option) \<Rightarrow> (str \<Rightarrow> str list option)
    \<Rightarrow> 'p platform \<Rightarrow> bool" where
  "platform_ok sv ids addr pm D B I w \<longleftrightarrow>
     readable (key_hash sv) (doc_cd sv) ids addr pm D (datalake w) \<and>
     readable (key_hash sv) (book_cd sv) ids addr pm B (books w) \<and>
     readable (key_hash sv) (ids_cd sv) ids addr pm I (index_map w) \<and>
     queue_healthy ids addr pm (servers (tasks w)) \<and> (\<forall>a. queue_wf (servers (tasks w) a))"

text \<open>Node \<open>i\<close> may coordinate writes of \<open>k\<close>: it is not one of the backups, whose own writes pass it by.\<close>

definition coordinates :: "(str \<Rightarrow> u64) \<Rightarrow> ('k, 'v) codec \<Rightarrow> str list \<Rightarrow> partition_manager \<Rightarrow> str \<Rightarrow> 'k \<Rightarrow> bool" where
  "coordinates hash cd ids pm i k \<longleftrightarrow> i \<in> set ids \<and> i \<notin> set (drop 1 (placement ids pm (key_partition hash cd pm k)))"

lemma readable_put:
  assumes "readable hash cd ids addr pm A n" and "coordinates hash cd ids pm i k" and "fresh_op op ids addr n"
  shows "\<exists>n'. put hash cd (addr i) k v op n = (Inr (), n') \<and> readable hash cd ids addr pm (A(k \<mapsto> v)) n' \<and>
    (\<forall>op'. op' \<noteq> op \<and> fresh_op op' ids addr n \<longrightarrow> fresh_op op' ids addr n')"
proof -
  have r: "healthy ids addr pm n" "codec_ok cd" "consistent hash cd ids addr pm n A" "reliable n"
    "all_listening ids addr n" using assms(1) by (simp_all add: readable_def)
  have i: "i \<in> set ids" "i \<notin> set (drop 1 (placement ids pm (key_partition hash cd pm k)))"
    using assms(2) by (simp_all add: coordinates_def)
  from put_step [OF r(1-3) i assms(3) r(4,5), of v] obtain n' where
    "put_with_op hash cd (addr i) k v op n = (Inr (), n')" "same_network n n'" "healthy ids addr pm n'"
    "consistent hash cd ids addr pm n' (A(k \<mapsto> v))"
    "\<forall>op'. op' \<noteq> op \<and> fresh_op op' ids addr n \<longrightarrow> fresh_op op' ids addr n'" by blast
  then show ?thesis using r by (intro exI [of _ n']) (simp add: put_def readable_def reliable_same all_listening_same)
qed

lemma readable_get':
  assumes "readable hash cd ids addr pm A n" and "i \<in> set ids" and "url_safe cd k"
  shows "\<exists>n'. get hash cd (addr i) k n = (A k, n') \<and> servers n' = servers n \<and> readable hash cd ids addr pm A n' \<and>
    (\<forall>op. fresh_op op ids addr n' \<longleftrightarrow> fresh_op op ids addr n)"
  using readable_get [OF assms] readable_same [OF assms(1)] by (auto simp: fresh_op_def)

subsection \<open>Ingestion of a new book\<close>

definition stored_document :: "str \<Rightarrow> str \<Rightarrow> str \<Rightarrow> raw_document" where
  "stored_document book_id header body =
     \<lparr>rd_book_id = book_id, rd_header = header, rd_body = body, rd_source_url = source_url_of book_id\<rparr>"

definition stored_metadata :: "unicode \<Rightarrow> str \<Rightarrow> str \<Rightarrow> str \<Rightarrow> book_metadata" where
  "stored_metadata u book_id header body =
     parse_metadata u header book_id (fst (compute_counts u body)) (snd (compute_counts u body))"

text \<open>The task is nowhere but where its submission put it, and it is the right one.\<close>

definition task_scheduled :: "'p services \<Rightarrow> str list \<Rightarrow> (str \<Rightarrow> sock_addr) \<Rightarrow> partition_manager \<Rightarrow> str \<Rightarrow> str
    \<Rightarrow> 'p platform \<Rightarrow> bool" where
  "task_scheduled sv ids addr pm task_id book_id w \<longleftrightarrow>
     (\<forall>j \<in> set (placement ids pm (get_partition (key_hash sv) pm task_id)).
        task_at (servers (tasks w) (addr j)) (get_partition (key_hash sv) pm task_id) task_id \<noteq> None) \<and>
     (\<forall>a p e. task_at (servers (tasks w) a) p task_id = Some e \<longrightarrow> etask e = index_task sv book_id \<and> estatus e = Pending)"

lemma submit_schedules:
  assumes "queue_healthy ids addr pm (servers n)" and "\<forall>a. queue_wf (servers n a)"
    and "reliable n" and "all_listening ids addr n" and "i \<in> set ids"
    and "\<And>a p. task_at (servers n a) p uuid = None"
  shows "\<exists>n'. submit hash (addr i) uuid t n = (Inr uuid, n') \<and> queue_healthy ids addr pm (servers n') \<and>
    (\<forall>a. queue_wf (servers n' a)) \<and>
    (\<forall>j \<in> set (placement ids pm (get_partition hash pm uuid)).
        task_at (servers n' (addr j)) (get_partition hash pm uuid) uuid \<noteq> None) \<and>
    (\<forall>a p e. task_at (servers n' a) p uuid = Some e \<longrightarrow> etask e = t \<and> estatus e = Pending) \<and>
    (\<forall>a p i. i \<noteq> uuid \<longrightarrow> task_at (servers n' a) p i = task_at (servers n a) p i)"
proof -
  let ?p = "get_partition hash pm uuid"
  obtain n' where e: "submit hash (addr i) uuid t n = (Inr uuid, n')"
    using submit_reliable [OF assms(1,5,3,4)] by blast
  from submit_complete [OF assms(1,5,6) e] have
    sub: "submitting (servers n) ?p uuid t (servers n')"
    and there: "\<forall>a \<in> addr ` set (placement ids pm ?p). task_at (servers n' a) ?p uuid \<noteq> None" by blast+
  have "queue_wf (servers n' a)" for a using sub assms(2) unfolding submitting_def by blast
  moreover have "etask e = t \<and> estatus e = Pending" if "task_at (servers n' a) p uuid = Some e" for a p e
  proof -
    have "p = ?p \<or> task_at (servers n' a) p uuid = task_at (servers n a) p uuid"
      and c: "case task_at (servers n' a) ?p uuid of None \<Rightarrow> True | Some e \<Rightarrow> etask e = t \<and> estatus e = Pending"
      using sub unfolding submitting_def by blast+
    then have "p = ?p" using that assms(6) by simp
    with c that show ?thesis by simp
  qed
  moreover have "task_at (servers n' a) p i = task_at (servers n a) p i" if "i \<noteq> uuid" for a p i
    using sub that unfolding submitting_def by blast
  ultimately show ?thesis using e submitting_healthy [OF assms(1) sub] there by blast
qed

lemma platform_okD:
  assumes "platform_ok sv ids addr pm D B I w"
  shows "readable (key_hash sv) (doc_cd sv) ids addr pm D (datalake w)"
    and "readable (key_hash sv) (book_cd sv) ids addr pm B (books w)"
    and "readable (key_hash sv) (ids_cd sv) ids addr pm I (index_map w)"
    and "queue_healthy ids addr pm (servers (tasks w))" and "\<forall>a. queue_wf (servers (tasks w) a)"
  using assms by (simp_all add: platform_ok_def)

lemma ingest_effect:
  assumes ok: "platform_ok sv ids addr pm D B I w" and net: "reliable (tasks w)" "all_listening ids addr (tasks w)"
    and co: "coordinates (key_hash sv) (doc_cd sv) ids pm i book_id" "coordinates (key_hash sv) (book_cd sv) ids pm i book_id"
    and url: "url_safe (doc_cd sv) book_id" and new: "D book_id = None"
    and parsed: "download (source_url_of book_id) = Some ebook"
      "split_gutenberg_text (uni sv) ebook = Some (Some (header, body))"
    and fresh: "fresh_op op1 ids addr (datalake w)" "fresh_op op2 ids addr (books w)"
      "\<forall>a p. task_at (servers (tasks w) a) p task_id = None"
  shows "\<exists>w'. handle_ingest_gutenberg sv download (addr i) op1 op2 task_id book_id w =
      (Some (ACCEPTED, \<lparr>ir_book_id = book_id, ir_status = lit ''ingested'', ir_source_url = source_url_of book_id\<rparr>), w') \<and>
    platform_ok sv ids addr pm (D(book_id \<mapsto> stored_document book_id header body))
      (B(book_id \<mapsto> stored_metadata (uni sv) book_id header body)) I w' \<and>
    task_scheduled sv ids addr pm task_id book_id w' \<and> index_map w' = index_map w \<and>
    (\<forall>a p i. i \<noteq> task_id \<longrightarrow> task_at (servers (tasks w') a) p i = task_at (servers (tasks w) a) p i)"
proof -
  note d = platform_okD [OF ok]
  have i: "i \<in> set ids" using co(1) by (simp add: coordinates_def)
  obtain d1 where d1: "get (key_hash sv) (doc_cd sv) (addr i) book_id (datalake w) = (None, d1)"
    "readable (key_hash sv) (doc_cd sv) ids addr pm D d1" "fresh_op op1 ids addr d1"
    using readable_get' [OF d(1) i url] new fresh(1) by auto
  let ?doc = "stored_document book_id header body" and ?meta = "stored_metadata (uni sv) book_id header body"
  obtain d2 where d2: "put (key_hash sv) (doc_cd sv) (addr i) book_id ?doc op1 d1 = (Inr (), d2)"
    "readable (key_hash sv) (doc_cd sv) ids addr pm (D(book_id \<mapsto> ?doc)) d2"
    using readable_put [OF d1(2) co(1) d1(3), of ?doc] by blast
  obtain b1 where b1: "put (key_hash sv) (book_cd sv) (addr i) book_id ?meta op2 (books w) = (Inr (), b1)"
    "readable (key_hash sv) (book_cd sv) ids addr pm (B(book_id \<mapsto> ?meta)) b1"
    using readable_put [OF d(2) co(2) fresh(2), of ?meta] by blast
  let ?t = "index_task sv book_id"
  obtain q1 where q1: "submit (key_hash sv) (addr i) task_id ?t (tasks w) = (Inr task_id, q1)"
    "queue_healthy ids addr pm (servers q1)" "\<forall>a. queue_wf (servers q1 a)"
    "\<forall>j \<in> set (placement ids pm (get_partition (key_hash sv) pm task_id)).
        task_at (servers q1 (addr j)) (get_partition (key_hash sv) pm task_id) task_id \<noteq> None"
    "\<forall>a p e. task_at (servers q1 a) p task_id = Some e \<longrightarrow> etask e = ?t \<and> estatus e = Pending"
    "\<forall>a p i. i \<noteq> task_id \<longrightarrow> task_at (servers q1 a) p i = task_at (servers (tasks w) a) p i"
    using submit_schedules [OF d(4,5) net i spec [OF spec [OF fresh(3)]], of "key_hash sv" ?t] by blast
  let ?w = "w\<lparr>datalake := d2, books := b1, tasks := q1\<rparr>"
  have "handle_ingest_gutenberg sv download (addr i) op1 op2 task_id book_id w =
      (Some (ACCEPTED, \<lparr>ir_book_id = book_id, ir_status = lit ''ingested'', ir_source_url = source_url_of book_id\<rparr>), ?w)"
    using d1(1) d2(1) b1(1) q1(1) parsed
    by (simp add: handle_ingest_gutenberg_def Let_def stored_document_def stored_metadata_def case_prod_beta)
  moreover have "platform_ok sv ids addr pm (D(book_id \<mapsto> ?doc)) (B(book_id \<mapsto> ?meta)) I ?w"
    using d2(2) b1(2) d(3) q1(2,3) by (simp add: platform_ok_def)
  moreover have "task_scheduled sv ids addr pm task_id book_id ?w"
    using q1(4,5) by (simp add: task_scheduled_def)
  ultimately show ?thesis using q1(6) by (intro exI [of _ ?w]) simp
qed

subsection \<open>Ingestion at any node\<close>

text \<open>
  A platform whose nodes are up and lose no message, where the copies need not agree: \<open>CD\<close>, \<open>CB\<close> and \<open>CI\<close>
  say which document, metadata and postings each node holds under each key.
\<close>

definition platform_running :: "'p services \<Rightarrow> str list \<Rightarrow> (str \<Rightarrow> sock_addr) \<Rightarrow> partition_manager
    \<Rightarrow> (str \<Rightarrow> str \<Rightarrow> raw_document option) \<Rightarrow> (str \<Rightarrow> str \<Rightarrow> book_metadata option)
    \<Rightarrow> (str \<Rightarrow> str \<Rightarrow> str list option) \<Rightarrow> 'p platform \<Rightarrow> bool" where
  "platform_running sv ids addr pm CD CB CI w \<longleftrightarrow>
     running (key_hash sv) (doc_cd sv) ids addr pm CD (datalake w) \<and>
     running (key_hash sv) (book_cd sv) ids addr pm CB (books w) \<and>
     running (key_hash sv) (ids_cd sv) ids addr pm CI (index_map w) \<and>
     queue_healthy ids addr pm (servers (tasks w)) \<and> (\<forall>a. queue_wf (servers (tasks w) a))"

lemma platform_runningD:
  assumes "platform_running sv ids addr pm CD CB CI w"
  shows "running (key_hash sv) (doc_cd sv) ids addr pm CD (datalake w)"
    and "running (key_hash sv) (book_cd sv) ids addr pm CB (books w)"
    and "running (key_hash sv) (ids_cd sv) ids addr pm CI (index_map w)"
    and "queue_healthy ids addr pm (servers (tasks w))" and "\<forall>a. queue_wf (servers (tasks w) a)"
  using assms by (simp_all add: platform_running_def)

text \<open>The key \<open>k\<close> is nowhere, or every node sees \<open>v\<close> under it.\<close>

definition absent :: "str list \<Rightarrow> (str \<Rightarrow> str \<Rightarrow> 'v option) \<Rightarrow> str \<Rightarrow> bool" where
  "absent ids C k \<longleftrightarrow> (\<forall>j \<in> set ids. C j k = None)"

definition seen_everywhere :: "(str \<Rightarrow> u64) \<Rightarrow> (str, 'v) codec \<Rightarrow> str list \<Rightarrow> partition_manager
    \<Rightarrow> (str \<Rightarrow> str \<Rightarrow> 'v option) \<Rightarrow> str \<Rightarrow> 'v \<Rightarrow> bool" where
  "seen_everywhere hash cd ids pm C k v \<longleftrightarrow>
     (\<forall>l \<in> set ids. visible (owners_of hash cd ids pm k) (\<lambda>j. C j k) l = Some v)"

lemma absent_not_visible:
  assumes "absent ids C k" and "l \<in> set ids" and "set own \<subseteq> set ids"
  shows "visible own (\<lambda>j. C j k) l = None"
proof -
  have "first_copy (map (\<lambda>j. C j k) own) = None"
    using assms(1,3) by (induction own) (auto simp: absent_def)
  with assms(1,2) show ?thesis by (simp add: visible_def absent_def)
qed

text \<open>A new key is seen everywhere after one put, at whichever node.\<close>

lemma put_new_key:
  assumes r: "running hash cd ids addr pm C n" and i: "i \<in> set ids" and op: "fresh_op op ids addr n"
    and new: "absent ids C k"
  shows "\<exists>n' C'. put hash cd (addr i) k v op n = (Inr (), n') \<and> running hash cd ids addr pm C' n' \<and>
    seen_everywhere hash cd ids pm C' k v"
proof -
  let ?own = "owners_of hash cd ids pm k"
  let ?C = "\<lambda>j k'. if k' = k then written ?own i v (\<lambda>j. C j k) j else C j k'"
  obtain n' where n': "put hash cd (addr i) k v op n = (Inr (), n')" "running hash cd ids addr pm ?C n'"
    using running_put [OF r i op, of k v] by (auto simp: put_def)
  have own: "?own \<noteq> []" using placement_cases [OF runningD(1) [OF r] i] by (metis list.distinct(1))
  have d: "distinct ?own" using runningD(1) [OF r] by (simp add: healthy_def distinct_placement)
  have "visible ?own (written ?own i v (\<lambda>j. C j k)) l = Some v" if "l \<in> set ids" for l
    using visible_written [OF own d, of l "\<lambda>j. C j k" i v] new that i by (simp add: absent_def)
  then have "seen_everywhere hash cd ids pm ?C k v" by (simp add: seen_everywhere_def)
  with n' show ?thesis by (intro exI conjI)
qed

lemma ingest_running:
  assumes ok: "platform_running sv ids addr pm CD CB CI w" and net: "reliable (tasks w)" "all_listening ids addr (tasks w)"
    and i: "i \<in> set ids"
    and url: "url_safe (doc_cd sv) book_id" and new: "absent ids CD book_id" "absent ids CB book_id"
    and parsed: "download (source_url_of book_id) = Some ebook"
      "split_gutenberg_text (uni sv) ebook = Some (Some (header, body))"
    and fresh: "fresh_op op1 ids addr (datalake w)" "fresh_op op2 ids addr (books w)"
      "\<forall>a p. task_at (servers (tasks w) a) p task_id = None"
  shows "\<exists>w' CD' CB'. handle_ingest_gutenberg sv download (addr i) op1 op2 task_id book_id w =
      (Some (ACCEPTED, \<lparr>ir_book_id = book_id, ir_status = lit ''ingested'', ir_source_url = source_url_of book_id\<rparr>), w') \<and>
    platform_running sv ids addr pm CD' CB' CI w' \<and>
    seen_everywhere (key_hash sv) (doc_cd sv) ids pm CD' book_id (stored_document book_id header body) \<and>
    seen_everywhere (key_hash sv) (book_cd sv) ids pm CB' book_id (stored_metadata (uni sv) book_id header body) \<and>
    task_scheduled sv ids addr pm task_id book_id w' \<and> index_map w' = index_map w \<and>
    (\<forall>a p i. i \<noteq> task_id \<longrightarrow> task_at (servers (tasks w') a) p i = task_at (servers (tasks w) a) p i)"
proof -
  note d = platform_runningD [OF ok]
  let ?doc = "stored_document book_id header body" and ?meta = "stored_metadata (uni sv) book_id header body"
  obtain d1 where d1: "get (key_hash sv) (doc_cd sv) (addr i) book_id (datalake w) = (None, d1)"
    "servers d1 = servers (datalake w)" "running (key_hash sv) (doc_cd sv) ids addr pm CD d1"
    using running_get [OF d(1) i url [unfolded url_safe_def]] absent_not_visible [OF new(1) i set_placement] by auto
  have "fresh_op op1 ids addr d1" using fresh(1) d1(2) by (simp add: fresh_op_def)
  then obtain d2 CD' where d2: "put (key_hash sv) (doc_cd sv) (addr i) book_id ?doc op1 d1 = (Inr (), d2)"
    "running (key_hash sv) (doc_cd sv) ids addr pm CD' d2"
    "seen_everywhere (key_hash sv) (doc_cd sv) ids pm CD' book_id ?doc"
    using put_new_key [OF d1(3) i _ new(1)] by blast
  obtain b1 CB' where b1: "put (key_hash sv) (book_cd sv) (addr i) book_id ?meta op2 (books w) = (Inr (), b1)"
    "running (key_hash sv) (book_cd sv) ids addr pm CB' b1"
    "seen_everywhere (key_hash sv) (book_cd sv) ids pm CB' book_id ?meta"
    using put_new_key [OF d(2) i fresh(2) new(2)] by blast
  let ?t = "index_task sv book_id"
  obtain q1 where q1: "submit (key_hash sv) (addr i) task_id ?t (tasks w) = (Inr task_id, q1)"
    "queue_healthy ids addr pm (servers q1)" "\<forall>a. queue_wf (servers q1 a)"
    "\<forall>j \<in> set (placement ids pm (get_partition (key_hash sv) pm task_id)).
        task_at (servers q1 (addr j)) (get_partition (key_hash sv) pm task_id) task_id \<noteq> None"
    "\<forall>a p e. task_at (servers q1 a) p task_id = Some e \<longrightarrow> etask e = ?t \<and> estatus e = Pending"
    "\<forall>a p i. i \<noteq> task_id \<longrightarrow> task_at (servers q1 a) p i = task_at (servers (tasks w) a) p i"
    using submit_schedules [OF d(4,5) net i spec [OF spec [OF fresh(3)]], of "key_hash sv" ?t] by blast
  let ?w = "w\<lparr>datalake := d2, books := b1, tasks := q1\<rparr>"
  have "handle_ingest_gutenberg sv download (addr i) op1 op2 task_id book_id w =
      (Some (ACCEPTED, \<lparr>ir_book_id = book_id, ir_status = lit ''ingested'', ir_source_url = source_url_of book_id\<rparr>), ?w)"
    using d1(1) d2(1) b1(1) q1(1) parsed
    by (simp add: handle_ingest_gutenberg_def Let_def stored_document_def stored_metadata_def case_prod_beta)
  moreover have "platform_running sv ids addr pm CD' CB' CI ?w"
    using d2(2) b1(2) d q1(2,3) by (simp add: platform_running_def)
  moreover have "task_scheduled sv ids addr pm task_id book_id ?w"
    using q1(4,5) by (simp add: task_scheduled_def)
  ultimately show ?thesis using q1(6) d2(3) b1(3) by (intro exI [of _ ?w] exI [of _ CD'] exI [of _ CB']) simp
qed

subsection \<open>Indexing\<close>

lemma unwrap_postings: "unwrap_or [] (I t) = postings I t"
  by (simp add: unwrap_or_def postings_def)

lemma in_add_posting [simp]: "b \<in> set (add_posting b ids)"
  by (simp add: add_posting_def)

text \<open>The loop over the tokens at node \<open>j\<close>: afterwards every owner of a term has the book among its postings, but
  for \<open>j\<close> itself where it is a backup of the term; nothing else has changed.\<close>

lemma index_tokens_running:
  assumes j: "j \<in> set ids"
  shows "running hash cd ids addr pm C n \<Longrightarrow> \<forall>op \<in> set (map snd ts). fresh_op op ids addr n \<Longrightarrow>
    distinct (map snd ts) \<Longrightarrow>
    \<exists>n' C'. index_tokens hash cd (addr j) b ts n = (Inr (), n') \<and> running hash cd ids addr pm C' n' \<and>
      (\<forall>t i. t \<in> set (map fst ts) \<and> receives (owners_of hash cd ids pm t) j i \<longrightarrow> (\<exists>l. C' i t = Some l \<and> b \<in> set l)) \<and>
      (\<forall>t i. t \<notin> set (map fst ts) \<or> \<not> receives (owners_of hash cd ids pm t) j i \<longrightarrow> C' i t = C i t)"
proof (induction ts arbitrary: C n)
  case Nil
  then show ?case by (intro exI [of _ n] exI [of _ C]) simp
next
  case (Cons x ts)
  obtain t op where x: "x = (t, op)" by (cases x)
  obtain r n1 where g: "get hash cd (addr j) t n = (r, n1)" by (cases "get hash cd (addr j) t n")
  have n1: "running hash cd ids addr pm C n1" using get_keeps_running [OF Cons.prems(1) g] .
  have fr: "fresh_op op' ids addr n1 \<longleftrightarrow> fresh_op op' ids addr n" for op'
    using get_servers [of hash cd "addr j" t n] g by (simp add: fresh_op_def)
  let ?v = "add_posting b (unwrap_or [] r)"
  let ?C = "\<lambda>i k. if k = t then written (owners_of hash cd ids pm t) j ?v (\<lambda>i. C i t) i else C i k"
  have "fresh_op op ids addr n1" using Cons.prems(2) x fr by simp
  from running_put [OF n1 j this, of t ?v] obtain n2 where
    n2: "put hash cd (addr j) t ?v op n1 = (Inr (), n2)" "running hash cd ids addr pm ?C n2"
    and fr2: "\<And>op'. op' \<noteq> op \<Longrightarrow> fresh_op op' ids addr n1 \<Longrightarrow> fresh_op op' ids addr n2"
    unfolding put_def by blast
  have "\<forall>op' \<in> set (map snd ts). fresh_op op' ids addr n2"
  proof
    fix op'
    assume o: "op' \<in> set (map snd ts)"
    then have "op' \<noteq> op" "fresh_op op' ids addr n1" using Cons.prems(2,3) x fr by auto
    then show "fresh_op op' ids addr n2" by (rule fr2)
  qed
  from Cons.IH [OF n2(2) this] Cons.prems(3) obtain n' C' where
    e: "index_tokens hash cd (addr j) b ts n2 = (Inr (), n')" and r': "running hash cd ids addr pm C' n'"
    and has: "\<And>s i. s \<in> set (map fst ts) \<and> receives (owners_of hash cd ids pm s) j i \<Longrightarrow> \<exists>l. C' i s = Some l \<and> b \<in> set l"
    and same: "\<And>s i. s \<notin> set (map fst ts) \<or> \<not> receives (owners_of hash cd ids pm s) j i \<Longrightarrow> C' i s = ?C i s" by auto
  have "\<exists>l. C' i s = Some l \<and> b \<in> set l" if "s \<in> set (map fst (x # ts))" "receives (owners_of hash cd ids pm s) j i" for s i
  proof (cases "s \<in> set (map fst ts)")
    case False
    then have "s = t" using that(1) x by simp
    then show ?thesis using same [of s i] False that(2) by (simp add: written_def)
  qed (use has that(2) in blast)
  moreover have "C' i s = C i s" if "s \<notin> set (map fst (x # ts)) \<or> \<not> receives (owners_of hash cd ids pm s) j i" for s i
    using same [of s i] that x by (auto simp: written_def)
  moreover have "index_tokens hash cd (addr j) b (x # ts) n = (Inr (), n')" using x g n2(1) e by simp
  ultimately show ?case using r' by blast
qed

text \<open>What the task needs: its payload can be read back, the iteration visits every term, and each write draws an
  identifier of its own.\<close>

definition can_index :: "'p services \<Rightarrow> (str set \<Rightarrow> (str \<times> str) list) \<Rightarrow> str list \<Rightarrow> (str \<Rightarrow> sock_addr)
    \<Rightarrow> str \<Rightarrow> str set \<Rightarrow> index_net \<Rightarrow> bool" where
  "can_index sv order ids addr book_id T n \<longleftrightarrow>
     payload_book_id sv (index_payload sv book_id) = Some book_id \<and> url_safe (doc_cd sv) book_id \<and>
     set (map fst (order T)) = T \<and> distinct (map snd (order T)) \<and>
     (\<forall>op \<in> set (map snd (order T)). fresh_op op ids addr n)"

definition terms_indexed :: "'p services \<Rightarrow> str list \<Rightarrow> partition_manager \<Rightarrow> str \<Rightarrow> str \<Rightarrow> str set
    \<Rightarrow> (str \<Rightarrow> str \<Rightarrow> str list option) \<Rightarrow> (str \<Rightarrow> str \<Rightarrow> str list option) \<Rightarrow> bool" where
  "terms_indexed sv ids pm q book_id T C C' \<longleftrightarrow>
     (\<forall>t j. if t \<in> T \<and> receives (owners_of (key_hash sv) (ids_cd sv) ids pm t) q j
        then \<exists>l. C' j t = Some l \<and> book_id \<in> set l else C' j t = C j t)"

lemma index_document_running:
  assumes ok: "platform_running sv ids addr pm CD CB CI w" and q: "q \<in> set ids"
    and doc: "seen_everywhere (key_hash sv) (doc_cd sv) ids pm CD book_id doc"
    and can: "can_index sv order ids addr book_id (tokenize_text (uni sv) (rd_body doc)) (index_map w)"
  shows "\<exists>w' CI'. index_document sv order (addr q) (index_task sv book_id) w = (Inr (), w') \<and>
    platform_running sv ids addr pm CD CB CI' w' \<and> books w' = books w \<and> tasks w' = tasks w \<and>
    terms_indexed sv ids pm q book_id (tokenize_text (uni sv) (rd_body doc)) CI CI'"
proof -
  let ?T = "tokenize_text (uni sv) (rd_body doc)"
  note d = platform_runningD [OF ok]
  have c: "payload_book_id sv (index_payload sv book_id) = Some book_id" "url_safe (doc_cd sv) book_id"
    "set (map fst (order ?T)) = ?T" "distinct (map snd (order ?T))"
    "\<forall>op \<in> set (map snd (order ?T)). fresh_op op ids addr (index_map w)"
    using can by (simp_all add: can_index_def)
  obtain d1 where d1: "get (key_hash sv) (doc_cd sv) (addr q) book_id (datalake w) = (Some doc, d1)"
    "running (key_hash sv) (doc_cd sv) ids addr pm CD d1"
    using running_get [OF d(1) q c(2) [unfolded url_safe_def]] doc q by (auto simp: seen_everywhere_def)
  from index_tokens_running [OF q d(3) c(5,4), of book_id] obtain x1 CI' where
    x1: "index_tokens (key_hash sv) (ids_cd sv) (addr q) book_id (order ?T) (index_map w) = (Inr (), x1)"
    "running (key_hash sv) (ids_cd sv) ids addr pm CI' x1" "terms_indexed sv ids pm q book_id ?T CI CI'"
    unfolding c(3) terms_indexed_def by (metis (no_types, lifting))
  let ?w = "w\<lparr>datalake := d1, index_map := x1\<rparr>"
  have "index_document sv order (addr q) (index_task sv book_id) w = (Inr (), ?w)"
    using c(1) d1(1) x1(1) by (simp add: index_document_def index_task_def Let_def)
  moreover have "platform_running sv ids addr pm CD CB CI' ?w"
    using d d1(2) x1(2) by (simp add: platform_running_def)
  ultimately show ?thesis using x1(3) by (intro exI [of _ ?w] exI [of _ CI']) simp
qed

subsection \<open>The worker runs it\<close>

lemma execute_index:
  "execute (task_registry sv order self) (index_task sv book_id) w = index_document sv order self (index_task sv book_id) w"
  by (simp add: execute_def task_registry_def register_def new_registry_def index_task_def)

lemma get_partition_less: "0 < num_partitions pm \<Longrightarrow> get_partition hash pm k < num_partitions pm"
  unfolding get_partition_def by (simp add: word_less_nat_alt unat_mod)

text \<open>The primary of a task that is pending everywhere, while no other task is, runs it in its next turn.\<close>

lemma primary_runs_it:
  fixes n :: "'p queue_net"
  assumes h: "queue_healthy ids addr pm (servers n)" and wf: "queue_wf (servers n (addr q))"
    and pl: "placement ids pm (get_partition hash pm i) = q # bs" and np: "0 < num_partitions pm"
    and e: "task_at (servers n (addr q)) (get_partition hash pm i) i = Some e" "estatus e = Pending"
    and only: "\<forall>i'. fst (try_claim_task hash i' (servers n (addr q))) = Inr True \<longrightarrow> i' = i"
  shows "\<exists>w' q'. worker_step hash reg beats (w, servers n (addr q)) = (Ran i, w', q')"
proof -
  let ?q = "servers n (addr q)" and ?p = "get_partition hash pm i"
  have q: "q \<in> set ids" using set_placement [of ids pm ?p] pl by auto
  have own: "get_owners (queue_partitioner ?q) (queue_membership ?q) ?p = q # bs"
    using queue_healthyD(2) [OF h q, of ?p] pl by (simp add: task_owners_at_def)
  have "?p \<in> set (get_my_primary_partitions ?q)"
    using own queue_healthyD(1,3) [OF h q] get_partition_less [OF np, of hash i]
    by (simp add: get_my_primary_partitions_def set_partitions)
  then have listed: "(i, e) \<in> set (my_pending_tasks ?q)"
    using e by (auto simp: my_pending_iff [OF wf] is_available_def)
  have claim: "fst (try_claim_task hash i ?q) = Inr True"
    using e queue_healthyD(1) [OF h q] by (simp add: try_claim_iff get_task_local_def task_partition_def)
  obtain c q1 where c: "claim_first hash (my_pending_tasks ?q) ?q = (c, q1)"
    by (cases "claim_first hash (my_pending_tasks ?q) ?q")
  have "c \<noteq> None"
  proof
    assume "c = None"
    with claim_first_None [of hash "my_pending_tasks ?q" ?q q1] c
    have "\<forall>(i, e) \<in> set (my_pending_tasks ?q). fst (try_claim_task hash i ?q) \<noteq> Inr True" by simp
    from bspec [OF this listed] claim show False by simp
  qed
  then obtain i' e' where ie: "c = Some (i', e')" by auto
  have "fst (try_claim_task hash i' ?q) = Inr True" using claim_first_Some [OF c [unfolded ie]] by simp
  then have "i' = i" using only by blast
  moreover have "my_pending_tasks ?q \<noteq> []" using listed by auto
  ultimately show ?thesis using c ie
    by (simp add: worker_step_def Let_def execute_with_lease_def split: prod.split)
qed

lemma node_turn_running:
  assumes ok: "platform_running sv ids addr pm CD CB CI w"
    and doc: "seen_everywhere (key_hash sv) (doc_cd sv) ids pm CD book_id doc"
    and can: "can_index sv order ids addr book_id (tokenize_text (uni sv) (rd_body doc)) (index_map w)"
    and sched: "task_scheduled sv ids addr pm task_id book_id w" and np: "0 < num_partitions pm"
    and pl: "placement ids pm (get_partition (key_hash sv) pm task_id) = q # bs"
    and idle: "\<forall>a p i e. i \<noteq> task_id \<longrightarrow> task_at (servers (tasks w) a) p i = Some e \<longrightarrow> estatus e \<noteq> Pending"
  shows "\<exists>w' CI'. node_turn sv order (addr q) beats w = (Ran task_id, w') \<and>
    platform_running sv ids addr pm CD CB CI' w' \<and>
    terms_indexed sv ids pm q book_id (tokenize_text (uni sv) (rd_body doc)) CI CI'"
proof -
  let ?q = "servers (tasks w) (addr q)" and ?p = "get_partition (key_hash sv) pm task_id"
  let ?reg = "task_registry sv order (addr q)" and ?T = "tokenize_text (uni sv) (rd_body doc)"
  note d = platform_runningD [OF ok]
  have q: "q \<in> set ids" using set_placement [of ids pm ?p] pl by auto
  have "task_at ?q ?p task_id \<noteq> None" using sched pl by (simp add: task_scheduled_def)
  then obtain e where e: "task_at ?q ?p task_id = Some e" by blast
  have right: "etask e' = index_task sv book_id \<and> estatus e' = Pending"
    if "task_at ?q p task_id = Some e'" for p e' using that sched unfolding task_scheduled_def by blast
  have only: "\<forall>i'. fst (try_claim_task (key_hash sv) i' ?q) = Inr True \<longrightarrow> i' = task_id"
  proof (intro allI impI)
    fix i'
    assume "fst (try_claim_task (key_hash sv) i' ?q) = Inr True"
    then obtain p e' where "task_at ?q p i' = Some e'" "estatus e' = Pending"
      by (auto simp: try_claim_iff get_task_local_def)
    with idle show "i' = task_id" by blast
  qed
  have wf: "queue_wf ?q" using d(5) by blast
  obtain w1 q1 where
    st: "worker_step (key_hash sv) ?reg beats (w, ?q) = (Ran task_id, w1, q1)"
    using primary_runs_it [where reg = ?reg and beats = beats and w = w, OF d(4) wf pl np e conjunct2 [OF right [OF e]] only] by blast
  from worker_step_Ran [OF st] obtain e' ops where
    e': "(task_id, e') \<in> set (my_pending_tasks ?q)" and w1: "w1 = snd (execute ?reg (etask e') w)"
    and q1: "q1 = queue_run (key_hash sv) ops ?q" by blast
  have "etask e' = index_task sv book_id" using e' right by (auto simp: my_pending_iff [OF wf])
  then have "w1 = snd (index_document sv order (addr q) (index_task sv book_id) w)"
    using w1 by (simp add: execute_index)
  with index_document_running [OF ok q doc can] obtain CI' where
    w1_ok: "platform_running sv ids addr pm CD CB CI' w1" and t: "tasks w1 = tasks w"
    and idx: "terms_indexed sv ids pm q book_id ?T CI CI'" by auto
  let ?w = "w1\<lparr>tasks := set_server (addr q) q1 (tasks w1)\<rparr>"
  have "queue_healthy ids addr pm (servers (set_server (addr q) q1 (tasks w)))"
    using d(4) by (rule queue_healthy_cong) (simp add: q1 set_server_def)
  moreover have "\<forall>a. queue_wf (servers (set_server (addr q) q1 (tasks w)) a)"
  proof
    fix a
    show "queue_wf (servers (set_server (addr q) q1 (tasks w)) a)"
      using spec [OF d(5), of a] queue_wf_run [OF wf, of "key_hash sv" ops]
      by (cases "a = addr q") (simp_all add: q1 set_server_def)
  qed
  ultimately have "platform_running sv ids addr pm CD CB CI' ?w"
    using w1_ok t by (simp add: platform_running_def)
  moreover have "node_turn sv order (addr q) beats w = (Ran task_id, ?w)"
    using st by (simp add: node_turn_def)
  ultimately show ?thesis using idx by blast
qed

end
