(* ===== verification/Pipeline.thy ===== *)
theory Pipeline
  imports Ingestion
begin

text \<open>
  The pipeline from ingestion over the task queue to the search, end to end, and where it loses
  books: what an ingestion, the indexing task and a search do together.
\<close>

subsection \<open>An example: three nodes, one copy of everything\<close>

definition one_copy :: partition_manager where
  "one_copy = new_with_replication 1"

definition new_cluster :: "partition_manager \<Rightarrow> ('k, 'v) cluster" where
  "new_cluster pm = quiet_net (\<lambda>a. new_dmap (stable_view three_ids (fst a)) pm 0)"

definition empty_cluster :: "('k, 'v) cluster" where
  "empty_cluster = new_cluster one_copy"

lemma one_copy_simps [simp]: "replication_factor one_copy = 1" "num_partitions one_copy = 256"
  by (simp_all add: one_copy_def new_with_replication_def)

lemma new_cluster_healthy: "0 < replication_factor pm \<Longrightarrow> healthy three_ids node_addr pm (new_cluster pm)"
  by (simp add: healthy_def new_cluster_def new_dmap_def new_with_base_def Let_def node_addr_def knows_def stable_view_ok
      get_member_def image_image inj_on_def del: three_ids_simps(2))

lemma new_cluster_simps [simp]:
  "reliable (new_cluster pm)" "all_listening ids addr (new_cluster pm)"
  "peek (servers (new_cluster pm) a) p k = None" "fresh_op op ids addr (new_cluster pm)"
  by (simp_all add: new_cluster_def)
     (simp_all add: new_dmap_def new_with_base_def Let_def peek_def fresh_op_def new_cluster_def)


lemma empty_cluster_readable:
  "codec_ok cd \<Longrightarrow> readable hash cd three_ids node_addr one_copy (\<lambda>_. None) empty_cluster"
  by (simp add: readable_def empty_cluster_def new_cluster_healthy consistent_def)

lemma empty_cluster_fresh: "fresh_op op ids addr empty_cluster"
  by (simp add: empty_cluster_def)

definition document_to_nat :: "raw_document \<Rightarrow> nat" where
  "document_to_nat d = to_nat (rd_book_id d, rd_header d, rd_body d, rd_source_url d)"

definition document_from_nat :: "nat \<Rightarrow> raw_document" where
  "document_from_nat x = (case from_nat x of (i, h, b, s) \<Rightarrow>
     \<lparr>rd_book_id = i, rd_header = h, rd_body = b, rd_source_url = s\<rparr>)"

definition sample_services :: "str services" where
  "sample_services = \<lparr>uni = ascii_unicode, key_hash = length_hash,
     doc_cd = number_codec document_to_nat document_from_nat, book_cd = metadata_codec, ids_cd = ids_codec,
     index_payload = (\<lambda>b. b), payload_book_id = Some, show_error = (\<lambda>e. [])\<rparr>"

definition new_platform :: "partition_manager \<Rightarrow> str platform" where
  "new_platform pm = \<lparr>datalake = new_cluster pm, books = new_cluster pm, index_map = new_cluster pm,
     tasks = quiet_net (\<lambda>a. new_queue (stable_view three_ids (fst a)) pm 0)\<rparr>"

definition sample_platform :: "str platform" where
  "sample_platform = new_platform one_copy"

lemma new_platform_simps [simp]:
  "datalake (new_platform pm) = new_cluster pm" "books (new_platform pm) = new_cluster pm"
  "index_map (new_platform pm) = new_cluster pm" "reliable (tasks (new_platform pm))"
  "all_listening ids addr (tasks (new_platform pm))" "task_at (servers (tasks (new_platform pm)) a) p i = None"
  by (simp_all add: new_platform_def)

definition sample_ebook :: str where
  "sample_ebook = lit ''Title: Moby Dick*** START OF THE PROJECT GUTENBERG EBOOK *** the sea *** END OF THE PROJECT GUTENBERG EBOOK''"

lemma sample_ebook_split:
  "split_gutenberg_text ascii_unicode sample_ebook = Some (Some (lit ''Title: Moby Dick'', lit ''*** the sea''))"
  by code_simp


text \<open>The identifier of the write of a term is the term itself.\<close>

definition sample_order :: "str set \<Rightarrow> (str \<times> str) list" where
  "sample_order T = map (\<lambda>t. (t, t)) (sorted_list_of_set T)"

lemma one_copy_coordinates: "i \<in> set three_ids \<Longrightarrow> coordinates hash cd three_ids one_copy i k"
  using length_ring_owners [of 1 "sort three_ids"] by (simp add: coordinates_def placement_def)

lemma sample_document_codec: "codec_ok (number_codec document_to_nat document_from_nat)"
  by (rule number_codec_ok) (simp add: document_to_nat_def document_from_nat_def)

lemma new_queue_healthy:
  assumes "0 < replication_factor pm"
  shows "queue_healthy three_ids node_addr pm (servers (tasks (new_platform pm)))"
    and "queue_wf (servers (tasks (new_platform pm)) a)"
  using assms
  by (simp_all add: new_platform_def queue_healthy_def new_queue_def knows_def stable_view_ok get_member_def
      image_image node_addr_def queue_wf_def inj_on_def del: three_ids_simps(2))


lemma sample_platform_ok:
  "platform_ok sample_services three_ids node_addr one_copy (\<lambda>_. None) (\<lambda>_. None) (\<lambda>_. None) sample_platform"
  by (simp add: platform_ok_def sample_services_def sample_platform_def sample_document_codec new_queue_healthy)
     (simp add: empty_cluster_readable sample_document_codec flip: empty_cluster_def)

subsection \<open>Properties\<close>

text \<open>C34: what a refused ingestion leaves behind, whatever the network and the download do: any answer but
  "ingested" has scheduled no task and changed neither the metadata nor the index, and any answer
  but "ingested" and 500 has changed no node of the datalake either. After a 500, the refusal of the
  datalake to store the document, copies of that one document may be there, but no other document of any node
  has changed.\<close>
theorem refused_ingest_stores_nothing:
  assumes "handle_ingest_gutenberg sv download self op1 op2 task_id book_id w = (Some (st, resp), w')"
    and "st \<noteq> ACCEPTED" and "parse (doc_cd sv) (to_string (doc_cd sv) book_id) = Some book_id"
  shows "books w' = books w \<and> index_map w' = index_map w \<and> tasks w' = tasks w \<and>
    (if st = INTERNAL_SERVER_ERROR
     then \<forall>a p k. k = book_id \<or> peek (servers (datalake w') a) p k = peek (servers (datalake w) a) p k
     else servers (datalake w') = servers (datalake w)) \<and>
    (st = OK \<longleftrightarrow> fst (get (key_hash sv) (doc_cd sv) self book_id (datalake w)) \<noteq> None)"
proof -
  obtain r d1 where g: "get (key_hash sv) (doc_cd sv) self book_id (datalake w) = (r, d1)"
    by (cases "get (key_hash sv) (doc_cd sv) self book_id (datalake w)")
  have same: "servers d1 = servers (datalake w)" using get_servers [of "key_hash sv" "doc_cd sv" self book_id "datalake w"] g by simp
  define framed where "framed d2 \<longleftrightarrow>
    (\<forall>a p k. k = book_id \<or> peek (servers d2 a) p k = peek (servers (datalake w) a) p k)" for d2 :: "(str, raw_document) cluster"
  have frame: "framed d2" if "put (key_hash sv) (doc_cd sv) self book_id doc op1 d1 = (Inl e, d2)" for doc e d2
  proof -
    have "others_as (servers d1) book_id (servers d2)"
      using put_frame [OF assms(3), of d1 "key_hash sv" self doc op1] that by (simp add: put_def)
    then show ?thesis unfolding framed_def others_as_def same by metis
  qed
  show ?thesis
    unfolding framed_def [symmetric] using assms(1,2) g same frame
    by (auto simp: handle_ingest_gutenberg_def Let_def split: option.splits prod.splits sum.splits)
qed

theorem refused_ingest_stores_nothing_witness:
  "\<exists>w'. handle_ingest_gutenberg sample_services (\<lambda>url. None) (node_addr (lit ''a'')) (lit ''u1'') (lit ''u2'') (lit ''u3'')
       (lit ''15'') sample_platform = (Some (BAD_GATEWAY, \<lparr>ir_book_id = lit ''15'', ir_status = lit ''download_failed'',
         ir_source_url = source_url_of (lit ''15'')\<rparr>), w') \<and> books w' = books sample_platform"
proof -
  have url: "url_safe (doc_cd sample_services) (lit ''15'')" and a: "lit ''a'' \<in> set three_ids"
    by (simp_all add: sample_services_def url_safe_def number_codec_def SLASH_def lit_simps)
  obtain d1 where "get (key_hash sample_services) (doc_cd sample_services) (node_addr (lit ''a'')) (lit ''15'')
      (datalake sample_platform) = (None, d1)"
    using readable_get' [OF platform_okD(1) [OF sample_platform_ok] a url] by auto
  then have e: "handle_ingest_gutenberg sample_services (\<lambda>url. None) (node_addr (lit ''a'')) (lit ''u1'') (lit ''u2'') (lit ''u3'')
       (lit ''15'') sample_platform = (Some (BAD_GATEWAY, \<lparr>ir_book_id = lit ''15'', ir_status = lit ''download_failed'',
         ir_source_url = source_url_of (lit ''15'')\<rparr>), sample_platform\<lparr>datalake := d1\<rparr>)"
    by (simp add: handle_ingest_gutenberg_def)
  have "parse (doc_cd sample_services) (to_string (doc_cd sample_services) (lit ''15'')) = Some (lit ''15'')"
    by (simp add: sample_services_def number_codec_def)
  from refused_ingest_stores_nothing [OF e _ this] e show ?thesis by auto
qed

text \<open>A book whose ingestion ended with a 500 at the primary of its document is never indexed: the document is
  stored there, so every later ingestion at that node, as long as it runs, answers "already_exists" and
  schedules nothing, and the metadata is nowhere.\<close>
theorem failed_ingest_is_never_repaired:
  assumes "handle_ingest_gutenberg sv download self op1 op2 task_id book_id w
      = (Some (INTERNAL_SERVER_ERROR, resp), w1)"
    and "parse (doc_cd sv) (to_string (doc_cd sv) book_id) = Some book_id"
    and "\<not> dm_contains_key (processed_ops (servers (datalake w) self)) op1"
    and "owners_at self (key_partition (key_hash sv) (doc_cd sv) (partitioner (servers (datalake w) self)) book_id)
      (datalake w) = nid (local_node (membership (servers (datalake w) self))) # bs"
  shows "\<exists>w2. handle_ingest_gutenberg sv download' self op1' op2' task_id' book_id w1
      = (Some (OK, \<lparr>ir_book_id = book_id, ir_status = lit ''already_exists'', ir_source_url = source_url_of book_id\<rparr>), w2) \<and>
    books w2 = books w \<and> tasks w2 = tasks w \<and> index_map w2 = index_map w"
proof -
  let ?p = "key_partition (key_hash sv) (doc_cd sv) (partitioner (servers (datalake w) self)) book_id"
  obtain r d1 where g: "get (key_hash sv) (doc_cd sv) self book_id (datalake w) = (r, d1)"
    by (cases "get (key_hash sv) (doc_cd sv) self book_id (datalake w)")
  have same: "servers d1 = servers (datalake w)" using get_servers [of "key_hash sv" "doc_cd sv" self book_id "datalake w"] g by simp
  obtain doc e d2 where d2: "put (key_hash sv) (doc_cd sv) self book_id doc op1 d1 = (Inl e, d2)"
    and w1: "w1 = w\<lparr>datalake := d2\<rparr>"
    using assms(1) g by (auto simp: handle_ingest_gutenberg_def Let_def split: option.splits prod.splits sum.splits)
  have "holds_copy self ?p book_id (servers d2)"
    using primary_put_holds_copy [where cd = "doc_cd sv" and hash = "key_hash sv" and n = d1 and self = self
        and op = op1 and v = doc and own = "nid (local_node (membership (servers (datalake w) self))) # bs", OF assms(2)]
      assms(3,4) d2 same by (simp add: put_def owners_at_def)
  then obtain v where "peek (servers d2 self) ?p book_id = Some v" by (auto simp: holds_copy_def)
  then have "get (key_hash sv) (doc_cd sv) self book_id d2 = (Some v, d2)"
    using put_partitioner [of "key_hash sv" "doc_cd sv" self book_id doc op1 d1 self] d2 same
    by (simp add: get_def put_def Let_def)
  then show ?thesis using w1 by (simp add: handle_ingest_gutenberg_def)
qed





text \<open>C35: ingestion is idempotent: once a book is in the datalake, ingesting it again at any node answers
  "already_exists" without downloading, and changes no node.\<close>
theorem ingest_is_idempotent:
  assumes "platform_ok sv ids addr pm D B I w" and "D book_id \<noteq> None" and "i \<in> set ids"
    and "url_safe (doc_cd sv) book_id"
  shows "case handle_ingest_gutenberg sv download (addr i) op1 op2 task_id book_id w of (r, w') \<Rightarrow>
    r = Some (OK, \<lparr>ir_book_id = book_id, ir_status = lit ''already_exists'', ir_source_url = source_url_of book_id\<rparr>) \<and>
    servers (datalake w') = servers (datalake w) \<and> books w' = books w \<and> index_map w' = index_map w \<and> tasks w' = tasks w"
proof -
  obtain doc where "D book_id = Some doc" using assms(2) by blast
  with readable_get' [OF platform_okD(1) [OF assms(1)] assms(3,4)] obtain d1 where
    "get (key_hash sv) (doc_cd sv) (addr i) book_id (datalake w) = (Some doc, d1)"
    "servers d1 = servers (datalake w)" by metis
  then show ?thesis by (simp add: handle_ingest_gutenberg_def)
qed

text \<open>The sample platform after it has taken in a book.\<close>

lemma sample_ingested:
  "\<exists>w1. platform_ok sample_services three_ids node_addr one_copy
     [lit ''15'' \<mapsto> stored_document (lit ''15'') (lit ''Title: Moby Dick'') (lit ''*** the sea'')]
     [lit ''15'' \<mapsto> stored_metadata ascii_unicode (lit ''15'') (lit ''Title: Moby Dick'') (lit ''*** the sea'')]
     (\<lambda>_. None) w1 \<and> index_map w1 = index_map sample_platform"
proof -
  have a: "lit ''a'' \<in> set three_ids" by simp
  have net: "reliable (tasks sample_platform)" "all_listening three_ids node_addr (tasks sample_platform)"
    by (simp_all add: sample_platform_def)
  have url: "url_safe (doc_cd sample_services) (lit ''15'')"
    by (simp add: sample_services_def url_safe_def number_codec_def SLASH_def lit_simps)
  have split: "split_gutenberg_text (uni sample_services) sample_ebook = Some (Some (lit ''Title: Moby Dick'', lit ''*** the sea''))"
    by (simp add: sample_services_def sample_ebook_split)
  have fr: "fresh_op (lit ''u1'') three_ids node_addr (datalake sample_platform)"
    "fresh_op (lit ''u2'') three_ids node_addr (books sample_platform)"
    "\<forall>a p. task_at (servers (tasks sample_platform) a) p (lit ''u3'') = None"
    by (simp_all add: sample_platform_def empty_cluster_fresh)
  have u: "uni sample_services = ascii_unicode" by (simp add: sample_services_def)
  from ingest_effect [where download = "\<lambda>url. Some sample_ebook" and book_id = "lit ''15''",
      OF sample_platform_ok net one_copy_coordinates [OF a] one_copy_coordinates [OF a] url refl refl split fr]
  show ?thesis unfolding u by blast
qed

theorem ingest_is_idempotent_witness:
  "\<exists>w1 w2. handle_ingest_gutenberg sample_services (\<lambda>url. None) (node_addr (lit ''b'')) (lit ''u4'') (lit ''u5'') (lit ''u6'')
       (lit ''15'') w1 = (Some (OK, \<lparr>ir_book_id = lit ''15'', ir_status = lit ''already_exists'',
         ir_source_url = source_url_of (lit ''15'')\<rparr>), w2) \<and> books w2 = books w1"
proof -
  obtain w1 where ok: "platform_ok sample_services three_ids node_addr one_copy
     [lit ''15'' \<mapsto> stored_document (lit ''15'') (lit ''Title: Moby Dick'') (lit ''*** the sea'')]
     [lit ''15'' \<mapsto> stored_metadata ascii_unicode (lit ''15'') (lit ''Title: Moby Dick'') (lit ''*** the sea'')]
     (\<lambda>_. None) w1" using sample_ingested by blast
  have "url_safe (doc_cd sample_services) (lit ''15'')"
    by (simp add: sample_services_def url_safe_def number_codec_def SLASH_def lit_simps)
  from ingest_is_idempotent [OF ok _ _ this, of "lit ''b''" "\<lambda>url. None" "lit ''u4''" "lit ''u5''" "lit ''u6''"]
  show ?thesis by (auto split: prod.splits)
qed

text \<open>C36: a book created by hand is never indexed: its indexing task finds no document in the datalake and ends
  successfully without touching the index, so no search finds the book.\<close>
theorem created_book_is_not_indexed:
  assumes "platform_ok sv ids addr pm D B I w" and "reliable (tasks w)" and "all_listening ids addr (tasks w)"
    and "coordinates (key_hash sv) (book_cd sv) ids pm i book_id" and "fresh_op op ids addr (books w)"
    and "D book_id = None" and "j \<in> set ids" and "url_safe (doc_cd sv) book_id"
    and "payload_book_id sv (index_payload sv book_id) = Some book_id"
    and "\<forall>a p. task_at (servers (tasks w) a) p task_id = None"
  shows "case handle_create_book sv (addr i) book_id op task_id req w of (r, w1) \<Rightarrow>
    r = (CREATED, book_id) \<and> task_scheduled sv ids addr pm task_id book_id w1 \<and>
    (case execute (task_registry sv order (addr j)) (index_task sv book_id) w1 of (res, w2) \<Rightarrow>
       res = Inr () \<and> index_map w2 = index_map w)"
proof -
  note d = platform_okD [OF assms(1)]
  have i: "i \<in> set ids" using assms(4) by (simp add: coordinates_def)
  let ?meta = "\<lparr>bm_book_id = book_id, bm_title = cb_title req, bm_author = cb_author req,
            bm_language = cb_language req, bm_year = cb_year req, bm_word_count = 0, bm_unique_words = 0\<rparr>"
  obtain b1 where b1: "put (key_hash sv) (book_cd sv) (addr i) book_id ?meta op (books w) = (Inr (), b1)"
    using readable_put [OF d(2) assms(4,5), of ?meta] by blast
  let ?t = "index_task sv book_id"
  obtain q1 where q1: "submit (key_hash sv) (addr i) task_id ?t (tasks w) = (Inr task_id, q1)"
    "\<forall>j \<in> set (placement ids pm (get_partition (key_hash sv) pm task_id)).
        task_at (servers q1 (addr j)) (get_partition (key_hash sv) pm task_id) task_id \<noteq> None"
    "\<forall>a p e. task_at (servers q1 a) p task_id = Some e \<longrightarrow> etask e = ?t \<and> estatus e = Pending"
    using submit_schedules [OF d(4,5) assms(2,3) i spec [OF spec [OF assms(10)]], of "key_hash sv" ?t] by blast
  let ?w = "w\<lparr>books := b1, tasks := q1\<rparr>"
  have "handle_create_book sv (addr i) book_id op task_id req w = ((CREATED, book_id), ?w)"
    using b1 q1(1) by (simp add: handle_create_book_def Let_def)
  moreover have "task_scheduled sv ids addr pm task_id book_id ?w" using q1(2,3) by (simp add: task_scheduled_def)
  moreover obtain d1 where "get (key_hash sv) (doc_cd sv) (addr j) book_id (datalake ?w) = (None, d1)"
    using readable_get' [OF d(1) assms(7,8)] assms(6) by auto
  ultimately show ?thesis
    using assms(9) by (simp add: execute_index index_document_def) (simp add: index_task_def)
qed

theorem created_book_is_not_indexed_witness:
  "\<exists>r w1. handle_create_book sample_services (node_addr (lit ''a'')) (lit ''b1'') (lit ''u1'') (lit ''u2'')
      \<lparr>cb_title = lit ''T'', cb_author = lit ''A'', cb_language = lit ''en'', cb_year = None\<rparr> sample_platform = ((CREATED, lit ''b1''), w1) \<and>
    index_map (snd (execute (task_registry sample_services sample_order (node_addr (lit ''b'')))
      (index_task sample_services (lit ''b1'')) w1)) = index_map sample_platform"
proof -
  have ab: "lit ''a'' \<in> set three_ids" "lit ''b'' \<in> set three_ids" by simp_all
  have net: "reliable (tasks sample_platform)" "all_listening three_ids node_addr (tasks sample_platform)"
    "fresh_op (lit ''u1'') three_ids node_addr (books sample_platform)"
    "\<forall>a p. task_at (servers (tasks sample_platform) a) p (lit ''u2'') = None"
    by (simp_all add: sample_platform_def empty_cluster_fresh)
  have url: "url_safe (doc_cd sample_services) (lit ''b1'')"
    "payload_book_id sample_services (index_payload sample_services (lit ''b1'')) = Some (lit ''b1'')"
    by (simp_all add: sample_services_def url_safe_def number_codec_def SLASH_def lit_simps)
  from created_book_is_not_indexed [OF sample_platform_ok net(1,2) one_copy_coordinates [OF ab(1)] net(3) refl ab(2) url net(4),
      where req = "\<lparr>cb_title = lit ''T'', cb_author = lit ''A'', cb_language = lit ''en'', cb_year = None\<rparr>"
        and order = sample_order]
  show ?thesis by (auto split: prod.splits)
qed

text \<open>C28: a node indexes through stale copies: when a backup of a term indexes two books one after the other,
  with nobody else writing and no request lost, both tasks succeed, but the first book is no longer
  among the postings at any other owner of the term.\<close>
theorem backup_indexer_loses_posting:
  assumes "readable hash cd ids addr pm I n" and "i \<in> set (drop 1 (placement ids pm (key_partition hash cd pm t)))"
    and "I t = Some ids0" and "b1 \<notin> set ids0" and "b1 \<noteq> b2"
    and "fresh_op op1 ids addr n" and "fresh_op op2 ids addr n" and "op1 \<noteq> op2"
  shows "case index_tokens hash cd (addr i) b1 [(t, op1)] n of (r1, n1) \<Rightarrow>
    case index_tokens hash cd (addr i) b2 [(t, op2)] n1 of (r2, n2) \<Rightarrow>
      r1 = Inr () \<and> r2 = Inr () \<and>
      (\<forall>j \<in> set (placement ids pm (key_partition hash cd pm t)) - {i}.
         case peek (servers n2 (addr j)) (key_partition hash cd pm t) t of None \<Rightarrow> False | Some bs \<Rightarrow> b1 \<notin> set bs)"
proof -
  let ?p = "key_partition hash cd pm t"
  have r: "healthy ids addr pm n" "codec_ok cd" "consistent hash cd ids addr pm n I" "reliable n" "all_listening ids addr n"
    using assms(1) by (simp_all add: readable_def)
  have i: "i \<in> set ids" "i \<in> set (placement ids pm ?p)"
    using set_placement [of ids pm ?p] assms(2) by (auto dest: in_set_dropD)
  have local: "get hash cd (addr i) t m = (Some ids0, m)"
    if "healthy ids addr pm m" "peek (servers m (addr i)) ?p t = Some ids0" for m
    using that healthyD(2) [OF that(1) i(1)] by (simp add: get_def Let_def)
  have p0: "peek (servers n (addr i)) ?p t = Some ids0" using consistentD [OF r(3) i(1), of t] i(2) assms(3) by simp
  from backup_put [OF r(1,2) assms(2,6) r(4,5), of "add_posting b1 ids0"] obtain n1 where
    put1: "put_with_op hash cd (addr i) t (add_posting b1 ids0) op1 n = (Inr (), n1)" and nw: "same_network n n1"
    and h1: "healthy ids addr pm n1" and at: "servers n1 (addr i) = snd (should_process op1 (servers n (addr i)))"
    and fr: "\<forall>op'. op' \<noteq> op1 \<and> fresh_op op' ids addr n \<longrightarrow> fresh_op op' ids addr n1" by blast
  have p1: "peek (servers n1 (addr i)) ?p t = Some ids0" using p0 at by simp
  have net1: "reliable n1" "all_listening ids addr n1" using r(4,5) nw by (simp_all add: reliable_same all_listening_same)
  have "fresh_op op2 ids addr n1" using spec [OF fr, of op2] assms(7,8) by simp
  from backup_put [OF h1 r(2) assms(2) this net1, of "add_posting b2 ids0"] obtain n2 where
    put2: "put_with_op hash cd (addr i) t (add_posting b2 ids0) op2 n1 = (Inr (), n2)"
    and others: "\<forall>j \<in> set (placement ids pm ?p) - {i}. peek (servers n2 (addr j)) ?p t = Some (add_posting b2 ids0)" by blast
  have "index_tokens hash cd (addr i) b1 [(t, op1)] n = (Inr (), n1)"
    using local [OF r(1) p0] put1 by (simp add: put_def unwrap_or_def)
  moreover have "index_tokens hash cd (addr i) b2 [(t, op2)] n1 = (Inr (), n2)"
    using local [OF h1 p1] put2 by (simp add: put_def unwrap_or_def)
  moreover have "b1 \<notin> set (add_posting b2 ids0)" using assms(4,5) by (simp add: add_posting_def)
  ultimately show ?thesis using others by simp
qed

theorem backup_indexer_loses_posting_witness:
  "case index_tokens length_hash ids_codec (node_addr (lit ''c'')) (lit ''16'') [(lit ''x'', lit ''u1'')]
     (loaded_cluster length_hash ids_codec three_ids new_partition_manager (lit ''x'') [lit ''15'']) of (r1, n1) \<Rightarrow>
   case index_tokens length_hash ids_codec (node_addr (lit ''c'')) (lit ''17'') [(lit ''x'', lit ''u2'')] n1 of (r2, n2) \<Rightarrow>
     r1 = Inr () \<and> r2 = Inr () \<and>
     (case peek (servers n2 (node_addr (lit ''b''))) 1 (lit ''x'') of None \<Rightarrow> False | Some bs \<Rightarrow> lit ''16'' \<notin> set bs)"
proof -
  let ?n = "loaded_cluster length_hash ids_codec three_ids new_partition_manager (lit ''x'') [lit ''15'']"
  have kp: "key_partition length_hash ids_codec new_partition_manager (lit ''x'') = 1"
    by (simp add: key_partition_def ids_codec_def number_codec_def get_partition_def length_hash_def
        new_partition_manager_def new_with_replication_def)
  have pl: "placement three_ids new_partition_manager (key_partition length_hash ids_codec new_partition_manager (lit ''x''))
      = [lit ''b'', lit ''c'']" unfolding kp by (rule sample_placement)
  have c: "lit ''c'' \<in> set (drop 1 (placement three_ids new_partition_manager
      (key_partition length_hash ids_codec new_partition_manager (lit ''x''))))" unfolding pl by simp
  have ne: "lit ''16'' \<notin> set [lit ''15'']" "lit ''16'' \<noteq> lit ''17''" "lit ''u1'' \<noteq> lit ''u2''" "lit ''b'' \<noteq> lit ''c''"
    by (simp_all add: lit_simps)
  have I: "[lit ''x'' \<mapsto> [lit ''15'']] (lit ''x'') = Some [lit ''15'']" by simp
  from backup_indexer_loses_posting [OF loaded_readable [OF sample_codecs_ok(1)] c I ne(1,2)
      loaded_cluster_fresh loaded_cluster_fresh ne(3)] ne(4)
  show ?thesis unfolding pl kp by (simp del: index_tokens.simps add: sample_placement split: prod.splits option.splits)
qed

text \<open>C29: two workers that index different books at the same time lose one of them: both read the postings of
  a term before either writes, both writes succeed, and the first book is not in the index.\<close>
theorem concurrent_indexers_lose_posting:
  assumes "readable hash cd ids addr pm I n" and "coordinates hash cd ids pm i t" and "coordinates hash cd ids pm j t"
    and "b1 \<notin> set (postings I t)" and "b1 \<noteq> b2" and "url_safe cd t"
    and "fresh_op op1 ids addr n" and "fresh_op op2 ids addr n" and "op1 \<noteq> op2"
  shows "case get hash cd (addr i) t n of (read1, n1) \<Rightarrow>
    case get hash cd (addr j) t n1 of (read2, n2) \<Rightarrow>
    case put hash cd (addr i) t (add_posting b1 (unwrap_or [] read1)) op1 n2 of (r1, n3) \<Rightarrow>
    case put hash cd (addr j) t (add_posting b2 (unwrap_or [] read2)) op2 n3 of (r2, n4) \<Rightarrow>
      r1 = Inr () \<and> r2 = Inr () \<and>
      (\<exists>I'. readable hash cd ids addr pm I' n4 \<and> b1 \<notin> set (postings I' t) \<and> b2 \<in> set (postings I' t))"
proof -
  have ij: "i \<in> set ids" "j \<in> set ids" using assms(2,3) by (simp_all add: coordinates_def)
  obtain n1 where n1: "get hash cd (addr i) t n = (I t, n1)" "readable hash cd ids addr pm I n1"
    "\<And>op. fresh_op op ids addr n1 \<longleftrightarrow> fresh_op op ids addr n"
    using readable_get' [OF assms(1) ij(1) assms(6)] by blast
  obtain n2 where n2: "get hash cd (addr j) t n1 = (I t, n2)" "readable hash cd ids addr pm I n2"
    "\<And>op. fresh_op op ids addr n2 \<longleftrightarrow> fresh_op op ids addr n1"
    using readable_get' [OF n1(2) ij(2) assms(6)] by blast
  have f: "fresh_op op1 ids addr n2" "fresh_op op2 ids addr n2" using assms(7,8) n1(3) n2(3) by simp_all
  let ?v = "\<lambda>b. add_posting b (postings I t)"
  obtain n3 where n3: "put hash cd (addr i) t (?v b1) op1 n2 = (Inr (), n3)" "readable hash cd ids addr pm (I(t \<mapsto> ?v b1)) n3"
    "\<And>op'. op' \<noteq> op1 \<Longrightarrow> fresh_op op' ids addr n2 \<Longrightarrow> fresh_op op' ids addr n3"
    using readable_put [OF n2(2) assms(2) f(1), of "?v b1"] by blast
  have f2: "fresh_op op2 ids addr n3" by (rule n3(3) [OF not_sym [OF assms(9)] f(2)])
  obtain n4 where n4: "put hash cd (addr j) t (?v b2) op2 n3 = (Inr (), n4)"
    "readable hash cd ids addr pm (I(t \<mapsto> ?v b1, t \<mapsto> ?v b2)) n4"
    using readable_put [OF n3(2) assms(3) f2, of "?v b2"] by blast
  have "b1 \<notin> set (postings (I(t \<mapsto> ?v b1, t \<mapsto> ?v b2)) t)" "b2 \<in> set (postings (I(t \<mapsto> ?v b1, t \<mapsto> ?v b2)) t)"
    using assms(4,5) by (simp_all add: postings_def add_posting_def)
  with n4 show ?thesis using n1(1) n2(1) n3(1) by (simp add: unwrap_postings) blast
qed

theorem concurrent_indexers_lose_posting_witness:
  "case get length_hash ids_codec (node_addr (lit ''a'')) (lit ''sea'') empty_cluster of (read1, n1) \<Rightarrow>
    case get length_hash ids_codec (node_addr (lit ''b'')) (lit ''sea'') n1 of (read2, n2) \<Rightarrow>
    case put length_hash ids_codec (node_addr (lit ''a'')) (lit ''sea'') (add_posting (lit ''16'') (unwrap_or [] read1)) (lit ''u1'') n2 of (r1, n3) \<Rightarrow>
    case put length_hash ids_codec (node_addr (lit ''b'')) (lit ''sea'') (add_posting (lit ''17'') (unwrap_or [] read2)) (lit ''u2'') n3 of (r2, n4) \<Rightarrow>
      r1 = Inr () \<and> r2 = Inr () \<and>
      (\<exists>I'. readable length_hash ids_codec three_ids node_addr one_copy I' n4 \<and>
         lit ''16'' \<notin> set (postings I' (lit ''sea'')) \<and> lit ''17'' \<in> set (postings I' (lit ''sea'')))"
proof -
  have ab: "lit ''a'' \<in> set three_ids" "lit ''b'' \<in> set three_ids" by simp_all
  have none: "lit ''16'' \<notin> set (postings (\<lambda>_. None) (lit ''sea''))" by (simp add: postings_def)
  have ne: "lit ''16'' \<noteq> lit ''17''" "lit ''u1'' \<noteq> lit ''u2''" by (simp_all add: lit_simps)
  have url: "url_safe ids_codec (lit ''sea'')"
    by (simp add: url_safe_def ids_codec_def number_codec_def SLASH_def lit_simps)
  show ?thesis
    by (rule concurrent_indexers_lose_posting [OF empty_cluster_readable [OF sample_codecs_ok(1)]
        one_copy_coordinates [OF ab(1)] one_copy_coordinates [OF ab(2)] none ne(1) url empty_cluster_fresh
        empty_cluster_fresh ne(2)])
qed

end
