(* ===== verification/Node.thy ===== *)
theory Node
  imports Ingestion
begin

text \<open>
  A node as \<open>src/src/main.rs\<close> puts it together: the command line, the components it starts with,
  the router and the statistics endpoint. What the operating system gives (environment variables,
  the result of parsing a socket address, memory and processor figures) is an argument.
\<close>

subsection \<open>The command line\<close>

text \<open>How the loop over the arguments ends: it indexes \<open>args[i + 1]\<close> out of bounds and panics, an address
  does not parse, or it gives the bind address and the seeds.\<close>

datatype parsed_args = ArgsPanic | BadAddress | Parsed "sock_addr option" "sock_addr list"

partial_function (option) parse_args :: "(str \<Rightarrow> sock_addr option) \<Rightarrow> str list \<Rightarrow> nat \<Rightarrow> sock_addr option
    \<Rightarrow> sock_addr list \<Rightarrow> parsed_args option" where
  "parse_args parse_addr args i bind_addr seed_nodes =
     (if i < length args then
        if args ! i = lit ''--bind'' then
          if length args \<le> i + 1 then Some ArgsPanic
          else (case parse_addr (args ! (i + 1)) of
                  None \<Rightarrow> Some BadAddress
                | Some a \<Rightarrow> parse_args parse_addr args (i + 2) (Some a) seed_nodes)
        else if args ! i = lit ''--seed'' then
          if length args \<le> i + 1 then Some ArgsPanic
          else (case parse_addr (args ! (i + 1)) of
                  None \<Rightarrow> Some BadAddress
                | Some a \<Rightarrow> parse_args parse_addr args (i + 2) bind_addr (seed_nodes @ [a]))
        else parse_args parse_addr args (i + 1) bind_addr seed_nodes
      else Some (Parsed bind_addr seed_nodes))"

datatype startup = Usage | Panic | AddressError | Start sock_addr "sock_addr list"

definition startup :: "(str \<Rightarrow> sock_addr option) \<Rightarrow> str list \<Rightarrow> startup option" where
  "startup parse_addr args =
     (if length args < 3 then Some Usage
      else map_option (\<lambda>r. case r of
          ArgsPanic \<Rightarrow> Panic
        | BadAddress \<Rightarrow> AddressError
        | Parsed None seeds \<Rightarrow> Panic
        | Parsed (Some b) seeds \<Rightarrow> Start b seeds) (parse_args parse_addr args 1 None []))"

subsection \<open>The components of a node\<close>

definition env_usize :: "nat \<Rightarrow> str option \<Rightarrow> nat" where
  "env_usize dflt var = unwrap_or dflt (Option.bind var (parse_unsigned 64))"

record 'p node_state =
  ns_membership :: membership
  ns_partitioner :: partition_manager
  ns_books :: "(str, book_metadata) dmap"
  ns_datalake :: "(str, raw_document) dmap"
  ns_queue :: "'p queue"
  ns_index_map :: "(str, str list) dmap"
  ns_max_body :: nat
  ns_listen :: sock_addr

text \<open>\<open>None\<close>: the membership service could not be set up and \<open>main\<close> returns its error. The second
  component is what the membership service sends to the seeds. \<open>ms_now\<close> and \<open>t\<close> are the
  times the membership service and the stores read.\<close>

definition init_node :: "str \<Rightarrow> nat \<Rightarrow> bool \<Rightarrow> (nat \<Rightarrow> bool) \<Rightarrow> u64 \<Rightarrow> (str \<Rightarrow> str option) \<Rightarrow> sock_addr
    \<Rightarrow> sock_addr list \<Rightarrow> 'p node_state option \<times> datagrams" where
  "init_node uuid ms_now bound sendable t env bind_addr seed_nodes =
     (case new_service uuid bind_addr ms_now bound sendable seed_nodes of
        (None, out) \<Rightarrow> (None, out)
      | (Some ms, out) \<Rightarrow>
          (let replication_factor = env_usize 2 (env (lit ''REPLICATION_FACTOR''));
               pm = new_with_replication replication_factor;
               max_body_bytes = env_usize (20 * 1024 * 1024) (env (lit ''MAX_BODY_BYTES''))
           in (Some \<lparr>ns_membership = ms, ns_partitioner = pm, ns_books = new_with_base ms pm (lit ''/books'') t,
               ns_datalake = new_with_base ms pm (lit ''/datalake'') t, ns_queue = new_queue ms pm t,
               ns_index_map = new_with_base ms pm (lit ''/index'') t, ns_max_body = max_body_bytes,
               ns_listen = (fst bind_addr, snd bind_addr + 1000)\<rparr>, out)))"

subsection \<open>The router\<close>

datatype http_method = GET | POST

definition ENDPOINT_REPLICATE :: str where "ENDPOINT_REPLICATE = lit ''/replicate''"
definition ENDPOINT_FORWARD_PUT :: str where "ENDPOINT_FORWARD_PUT = lit ''/forward_put''"
definition ENDPOINT_PUT :: str where "ENDPOINT_PUT = lit ''/put''"
definition ENDPOINT_GET :: str where "ENDPOINT_GET = lit ''/get''"
definition ENDPOINT_GET_INTERNAL :: str where "ENDPOINT_GET_INTERNAL = lit ''/internal/get''"
definition ENDPOINT_PARTITION_DUMP :: str where "ENDPOINT_PARTITION_DUMP = lit ''/internal/partition''"
definition ENDPOINT_SUBMIT_TASK :: str where "ENDPOINT_SUBMIT_TASK = lit ''/task/submit''"
definition ENDPOINT_INTERNAL_SUBMIT :: str where "ENDPOINT_INTERNAL_SUBMIT = lit ''/internal/submit_task''"
definition ENDPOINT_TASK_INTERNAL_GET :: str where "ENDPOINT_TASK_INTERNAL_GET = lit ''/internal/get_task''"
definition ENDPOINT_TASK_STATUS :: str where "ENDPOINT_TASK_STATUS = lit ''/task/status''"
definition ENDPOINT_TASK_REPLICATE :: str where "ENDPOINT_TASK_REPLICATE = lit ''/internal/replicate_task''"
definition ENDPOINT_TASK_PARTITION_DUMP :: str where "ENDPOINT_TASK_PARTITION_DUMP = lit ''/internal/task_partition''"

text \<open>The routes of the three maps, below their prefixes.\<close>

definition map_routes :: "str \<Rightarrow> (http_method \<times> str) list" where
  "map_routes prefix = map (\<lambda>(m, path). (m, prefix @ path))
     [(POST, ENDPOINT_PUT), (GET, ENDPOINT_GET @ lit ''/:key''), (GET, ENDPOINT_GET_INTERNAL @ lit ''/:key''),
      (GET, ENDPOINT_PARTITION_DUMP @ lit ''/:id''), (POST, ENDPOINT_FORWARD_PUT), (POST, ENDPOINT_REPLICATE)]"

definition app_routes :: "(http_method \<times> str) list" where
  "app_routes =
     [(GET, lit ''/health/routes''), (GET, lit ''/health/stats''), (POST, lit ''/ingest/:book_id''),
      (GET, lit ''/ingest/status/:book_id''), (GET, lit ''/search''), (POST, lit ''/books'')]
     @ map_routes (lit ''/books'') @ map_routes (lit ''/datalake'') @ map_routes (lit ''/index'')
     @ [(POST, ENDPOINT_SUBMIT_TASK), (GET, ENDPOINT_TASK_STATUS @ lit ''/:id''),
        (GET, ENDPOINT_TASK_INTERNAL_GET @ lit ''/:id''), (GET, ENDPOINT_TASK_PARTITION_DUMP @ lit ''/:id''),
        (POST, ENDPOINT_INTERNAL_SUBMIT), (POST, ENDPOINT_TASK_REPLICATE)]"

definition advertised :: "string list" where
  "advertised =
     [''/health/routes'', ''/health/stats'', ''/ingest/:book_id'', ''/ingest/status/:book_id'', ''/search'', ''/books'',
      ''/books/put'', ''/books/get/:key'', ''/books/internal/get/:key'', ''/books/forward_put'', ''/books/replicate'',
      ''/datalake/put'', ''/datalake/get/:key'', ''/datalake/internal/get/:key'', ''/datalake/forward_put'',
      ''/datalake/replicate'', ''/index/put'', ''/index/get/:key'', ''/index/internal/get/:key'', ''/index/forward_put'',
      ''/index/replicate'', ''/submit_task'', ''/task_status/:id'', ''/internal/task/:id'', ''/internal/submit_task'',
      ''/internal/task_partition/:id'', ''/task_replicate'']"

definition handle_routes :: "str list" where
  "handle_routes = map lit advertised"

subsection \<open>The statistics endpoint\<close>

record node_info =
  ni_node_id :: str
  ni_gossip_addr :: str
  ni_http_addr :: str

record 'f node_stats =
  st_node_id :: str
  st_gossip_addr :: str
  st_http_addr :: str
  st_alive_nodes :: nat
  st_nodes :: "node_info list"
  st_books_partitions :: nat
  st_books_entries :: nat
  st_datalake_partitions :: nat
  st_datalake_entries :: nat
  st_index_partitions :: nat
  st_index_entries :: nat
  st_queue_partitions :: nat
  st_queue_tasks :: nat
  st_queue_pending :: nat
  st_queue_running :: nat
  st_queue_completed :: nat
  st_queue_failed :: nat
  st_cpu_usage :: 'f
  st_mem_used_mb :: u64
  st_mem_total_mb :: u64

text \<open>\<open>show_addr\<close> prints an address; the last three arguments are the figures of \<open>sysinfo\<close>, memory in
  bytes.\<close>

definition handle_stats :: "(sock_addr \<Rightarrow> str) \<Rightarrow> 'p node_state \<Rightarrow> 'f \<Rightarrow> u64 \<Rightarrow> u64 \<Rightarrow> 'f node_stats" where
  "handle_stats show_addr s cpu_usage used_memory total_memory =
     (let alive_members = get_alive_members (ns_membership s);
          nodes = map (\<lambda>n. \<lparr>ni_node_id = nid n, ni_gossip_addr = show_addr (gossip_addr n),
            ni_http_addr = show_addr (http_addr n)\<rparr>) alive_members;
          (pending, running, completed, failed) = local_task_status_counts (ns_queue s);
          node = local_node (ns_membership s)
      in \<lparr>st_node_id = nid node, st_gossip_addr = show_addr (gossip_addr node),
          st_http_addr = show_addr (http_addr node), st_alive_nodes = length nodes, st_nodes = nodes,
          st_books_partitions = local_partition_count (ns_books s), st_books_entries = local_entry_count (ns_books s),
          st_datalake_partitions = local_partition_count (ns_datalake s),
          st_datalake_entries = local_entry_count (ns_datalake s),
          st_index_partitions = local_partition_count (ns_index_map s),
          st_index_entries = local_entry_count (ns_index_map s),
          st_queue_partitions = local_task_partitions (ns_queue s), st_queue_tasks = local_task_count (ns_queue s),
          st_queue_pending = pending, st_queue_running = running, st_queue_completed = completed,
          st_queue_failed = failed, st_cpu_usage = cpu_usage,
          st_mem_used_mb = used_memory div (1024 * 1024), st_mem_total_mb = total_memory div (1024 * 1024)\<rparr>)"

subsection \<open>The loop over the arguments\<close>

lemma parse_args_terminates_aux: "length args - i = k \<Longrightarrow> parse_args pa args i b ss \<noteq> None"
proof (induction k arbitrary: i b ss rule: less_induct)
  case (less k)
  show ?case
  proof (cases "i < length args")
    case True
    then have "parse_args pa args (i + 2) b' ss' \<noteq> None" "parse_args pa args (i + 1) b ss \<noteq> None" for b' ss'
      using less.IH [of "length args - (i + 2)" "i + 2"] less.IH [of "length args - (i + 1)" "i + 1"] less.prems by simp_all
    with True show ?thesis by (subst parse_args.simps) (auto split: option.split)
  next
    case False
    then show ?thesis by (subst parse_args.simps) simp
  qed
qed

definition seed_args :: "str list \<Rightarrow> str list" where
  "seed_args seeds = concat (map (\<lambda>s. [lit ''--seed'', s]) seeds)"

lemma seed_neq_bind: "lit ''--seed'' \<noteq> lit ''--bind''"
  by (simp add: lit_simps)

lemma parse_seed_args:
  "map pa seeds = map Some addrs \<Longrightarrow>
     parse_args pa (before @ seed_args seeds) (length before) b ss = Some (Parsed b (ss @ addrs))"
proof (induction seeds arbitrary: before addrs ss)
  case Nil
  then show ?case by (subst parse_args.simps) (simp add: seed_args_def)
next
  case (Cons s seeds)
  then obtain a addrs' where a: "addrs = a # addrs'" "pa s = Some a" "map pa seeds = map Some addrs'"
    by (cases addrs) auto
  let ?before = "before @ [lit ''--seed'', s]"
  have split: "before @ seed_args (s # seeds) = ?before @ seed_args seeds" by (simp add: seed_args_def)
  have "parse_args pa (?before @ seed_args seeds) (length before) b ss
      = parse_args pa (?before @ seed_args seeds) (length ?before) b (ss @ [a])"
    using a(2) seed_neq_bind by (subst parse_args.simps) (simp add: nth_append)
  with Cons.IH [OF a(3), of ?before "ss @ [a]"] a(1) show ?case by (simp only: split) simp
qed

subsection \<open>Properties\<close>

text \<open>C40: reading the command line ends, for every list of arguments and every result of parsing addresses: the
  node starts, prints its usage, refuses an address or panics.\<close>
theorem startup_terminates: "startup parse_addr args \<noteq> None"
  using parse_args_terminates_aux [OF refl, of parse_addr args 1 None "[]"] by (auto simp: startup_def)

text \<open>A node started with \<open>--bind\<close> and any number of \<open>--seed\<close> arguments gets exactly these addresses, the
  seeds in order.\<close>
theorem startup_reads_addresses:
  assumes "parse_addr b = Some bind_addr" and "map parse_addr seeds = map Some addrs"
  shows "startup parse_addr (prog # lit ''--bind'' # b # seed_args seeds) = Some (Start bind_addr addrs)"
proof -
  let ?args = "[prog, lit ''--bind'', b] @ seed_args seeds"
  have "parse_args parse_addr ?args 1 None [] = parse_args parse_addr ?args 3 (Some bind_addr) []"
    using assms(1) by (subst parse_args.simps) (simp add: numeral_3_eq_3)
  with parse_seed_args [OF assms(2), of "[prog, lit ''--bind'', b]" "Some bind_addr" "[]"] show ?thesis
    by (simp add: startup_def numeral_3_eq_3)
qed

theorem startup_reads_addresses_witness:
  "startup (\<lambda>s. Some (s, 5000)) [lit ''node'', lit ''--bind'', lit ''a'', lit ''--seed'', lit ''b''] =
     Some (Start (lit ''a'', 5000) [(lit ''b'', 5000)])"
  using startup_reads_addresses [of "\<lambda>s. Some (s, 5000)" "lit ''a''" "(lit ''a'', 5000)" "[lit ''b'']" "[(lit ''b'', 5000)]"]
  by (simp add: seed_args_def)

text \<open>A new node is well formed whatever the environment says: its member table, stores and queue satisfy
  their invariants, it keeps at least one copy of everything, it serves HTTP at the very address
  that it advertises to the cluster, and the partitions are the same for its maps and its queue.\<close>
theorem init_node_ok:
  "case fst (init_node uuid ms_now bound sendable t env bind_addr seed_nodes) of
     None \<Rightarrow> \<not> (bound \<and> list_all sendable [0..<length seed_nodes])
   | Some s \<Rightarrow>
       members_ok (ns_membership s) \<and> dmap_wf (ns_books s) \<and> dmap_wf (ns_datalake s) \<and> dmap_wf (ns_index_map s) \<and>
       queue_wf (ns_queue s) \<and> 0 < replication_factor (ns_partitioner s) \<and>
       ns_listen s = http_addr (local_node (ns_membership s)) \<and>
       partitioner (ns_books s) = ns_partitioner s \<and> partitioner (ns_datalake s) = ns_partitioner s \<and>
       partitioner (ns_index_map s) = ns_partitioner s \<and> queue_partitioner (ns_queue s) = ns_partitioner s"
proof (cases "new_service uuid bind_addr ms_now bound sendable seed_nodes")
  case (Pair ms out)
  show ?thesis
  proof (cases ms)
    case None
    then show ?thesis
      using Pair new_service_NoneD [of uuid bind_addr ms_now bound sendable seed_nodes] by (simp add: init_node_def)
  next
    case (Some m)
    then have "m = initial_service uuid bind_addr ms_now"
      using Pair new_service_SomeD [of uuid bind_addr ms_now bound sendable seed_nodes m] by simp
    then have "members_ok m" "http_addr (local_node m) = http_addr_of bind_addr"
      by (simp_all add: members_ok_initial)
    then show ?thesis
      by (simp add: init_node_def Pair Some Let_def dmap_wf_new http_addr_of_def)
        (simp add: new_with_base_def new_queue_def new_with_replication_def Let_def)
  qed
qed

text \<open>The two lists as literals.\<close>

definition router_paths :: "string list" where
  "router_paths =
     [''/health/routes'', ''/health/stats'', ''/ingest/:book_id'', ''/ingest/status/:book_id'', ''/search'', ''/books'']
     @ concat (map (\<lambda>p. map (\<lambda>e. p @ e) [''/put'', ''/get/:key'', ''/internal/get/:key'', ''/internal/partition/:id'',
         ''/forward_put'', ''/replicate'']) [''/books'', ''/datalake'', ''/index''])
     @ [''/task/submit'', ''/task/status/:id'', ''/internal/get_task/:id'', ''/internal/task_partition/:id'',
        ''/internal/submit_task'', ''/internal/replicate_task'']"

lemma lit_append: "lit s @ lit t = lit (s @ t)"
  by (simp add: lit_def)

lemma inj_lit: "inj lit"
proof (rule injI)
  fix s t :: string
  assume "lit s = lit t"
  moreover have "inj (of_char :: char \<Rightarrow> nat)" by (simp add: inj_def)
  ultimately show "s = t" by (simp add: lit_def inj_map_eq_map)
qed

lemma app_routes_paths: "map snd app_routes = map lit router_paths"
  by (simp add: app_routes_def map_routes_def router_paths_def lit_append ENDPOINT_REPLICATE_def
      ENDPOINT_FORWARD_PUT_def ENDPOINT_PUT_def ENDPOINT_GET_def ENDPOINT_GET_INTERNAL_def ENDPOINT_PARTITION_DUMP_def
      ENDPOINT_SUBMIT_TASK_def ENDPOINT_INTERNAL_SUBMIT_def ENDPOINT_TASK_INTERNAL_GET_def ENDPOINT_TASK_STATUS_def
      ENDPOINT_TASK_REPLICATE_def ENDPOINT_TASK_PARTITION_DUMP_def)

lemma filter_lit:
  "filter (\<lambda>p. p \<notin> set (map lit ys)) (map lit xs) = map lit (filter (\<lambda>p. p \<notin> set ys) xs)"
  using inj_lit by (simp add: filter_map comp_def inj_image_mem_iff)

text \<open>The list of routes a node gives out is not the router's: four of the paths it names are served by no
  method, and seven routes that are served are not named.\<close>
theorem advertised_routes_differ:
  "filter (\<lambda>p. p \<notin> set (map snd app_routes)) handle_routes =
     map lit [''/submit_task'', ''/task_status/:id'', ''/internal/task/:id'', ''/task_replicate''] \<and>
   filter (\<lambda>p. p \<notin> set handle_routes) (map snd app_routes) =
     map lit [''/books/internal/partition/:id'', ''/datalake/internal/partition/:id'', ''/index/internal/partition/:id'',
       ''/task/submit'', ''/task/status/:id'', ''/internal/get_task/:id'', ''/internal/replicate_task'']"
proof -
  have "filter (\<lambda>p. p \<notin> set router_paths) advertised =
      [''/submit_task'', ''/task_status/:id'', ''/internal/task/:id'', ''/task_replicate'']"
    "filter (\<lambda>p. p \<notin> set advertised) router_paths =
      [''/books/internal/partition/:id'', ''/datalake/internal/partition/:id'', ''/index/internal/partition/:id'',
       ''/task/submit'', ''/task/status/:id'', ''/internal/get_task/:id'', ''/internal/replicate_task'']"
    by code_simp+
  then show ?thesis unfolding app_routes_paths handle_routes_def filter_lit by simp
qed

text \<open>The statistics of a node are consistent: the four status counts add up to the number of tasks, and the
  number of alive nodes is the number of nodes listed.\<close>
theorem stats_add_up:
  "case handle_stats show_addr s cpu used mem of st \<Rightarrow>
     st_queue_pending st + st_queue_running st + st_queue_completed st + st_queue_failed st = st_queue_tasks st \<and>
     st_alive_nodes st = length (st_nodes st) \<and>
     st_alive_nodes st = length (get_alive_members (ns_membership s))"
  using status_counts_add_up [of "ns_queue s"] by (simp add: handle_stats_def Let_def split: prod.splits)

end
