(* ===== verification/Routes.thy ===== *)
theory Routes
  imports Pipeline
begin

text \<open>
  The handlers that \<open>src/src/main.rs\<close> registers for the three maps: the generic handlers of
  \<open>storage/handlers.rs\<close> at the types of the map that the prefix of the route stands for, on the whole
  platform. The handlers that only touch the node they run at go through \<open>serve\<close>.
\<close>

subsection \<open>The map of metadata\<close>

definition handle_get_internal_book :: "'p services \<Rightarrow> sock_addr \<Rightarrow> str
    \<Rightarrow> 'p platform \<Rightarrow> get_response \<times> 'p platform" where
  "handle_get_internal_book sv self key_str w =
     (case serve (handle_get_internal (key_hash sv) (book_cd sv)) self key_str (books w) of (resp, n) \<Rightarrow> (resp, w\<lparr>books := n\<rparr>))"


definition handle_forward_put_book :: "'p services \<Rightarrow> sock_addr \<Rightarrow> write_request
    \<Rightarrow> 'p platform \<Rightarrow> put_response \<times> 'p platform" where
  "handle_forward_put_book sv self req w =
     (case handle_forward_put (book_cd sv) self req (books w) of (resp, n) \<Rightarrow> (resp, w\<lparr>books := n\<rparr>))"


definition handle_replicate_book :: "'p services \<Rightarrow> sock_addr \<Rightarrow> write_request
    \<Rightarrow> 'p platform \<Rightarrow> put_response \<times> 'p platform" where
  "handle_replicate_book sv self req w =
     (case serve (handle_replicate (book_cd sv)) self req (books w) of (resp, n) \<Rightarrow> (resp, w\<lparr>books := n\<rparr>))"

definition handle_partition_dump_book :: "'p services \<Rightarrow> sock_addr \<Rightarrow> u32
    \<Rightarrow> 'p platform \<Rightarrow> (status \<times> partition_dump) \<times> 'p platform" where
  "handle_partition_dump_book sv self p w =
     (case serve (handle_partition_dump (book_cd sv)) self p (books w) of (resp, n) \<Rightarrow> (resp, w\<lparr>books := n\<rparr>))"

subsection \<open>The map of documents\<close>

definition handle_get_internal_datalake :: "'p services \<Rightarrow> sock_addr \<Rightarrow> str
    \<Rightarrow> 'p platform \<Rightarrow> get_response \<times> 'p platform" where
  "handle_get_internal_datalake sv self key_str w =
     (case serve (handle_get_internal (key_hash sv) (doc_cd sv)) self key_str (datalake w) of (resp, n) \<Rightarrow> (resp, w\<lparr>datalake := n\<rparr>))"

definition handle_get_datalake :: "'p services \<Rightarrow> sock_addr \<Rightarrow> str
    \<Rightarrow> 'p platform \<Rightarrow> get_response \<times> 'p platform" where
  "handle_get_datalake sv self key_str w =
     (case handle_get (key_hash sv) (doc_cd sv) self key_str (datalake w) of (resp, n) \<Rightarrow> (resp, w\<lparr>datalake := n\<rparr>))"

definition handle_forward_put_datalake :: "'p services \<Rightarrow> sock_addr \<Rightarrow> write_request
    \<Rightarrow> 'p platform \<Rightarrow> put_response \<times> 'p platform" where
  "handle_forward_put_datalake sv self req w =
     (case handle_forward_put (doc_cd sv) self req (datalake w) of (resp, n) \<Rightarrow> (resp, w\<lparr>datalake := n\<rparr>))"

definition handle_put_datalake :: "'p services \<Rightarrow> sock_addr \<Rightarrow> put_request
    \<Rightarrow> 'p platform \<Rightarrow> put_response \<times> 'p platform" where
  "handle_put_datalake sv self req w =
     (case handle_put (key_hash sv) (doc_cd sv) self req (datalake w) of (resp, n) \<Rightarrow> (resp, w\<lparr>datalake := n\<rparr>))"

definition handle_replicate_datalake :: "'p services \<Rightarrow> sock_addr \<Rightarrow> write_request
    \<Rightarrow> 'p platform \<Rightarrow> put_response \<times> 'p platform" where
  "handle_replicate_datalake sv self req w =
     (case serve (handle_replicate (doc_cd sv)) self req (datalake w) of (resp, n) \<Rightarrow> (resp, w\<lparr>datalake := n\<rparr>))"

definition handle_partition_dump_datalake :: "'p services \<Rightarrow> sock_addr \<Rightarrow> u32
    \<Rightarrow> 'p platform \<Rightarrow> (status \<times> partition_dump) \<times> 'p platform" where
  "handle_partition_dump_datalake sv self p w =
     (case serve (handle_partition_dump (doc_cd sv)) self p (datalake w) of (resp, n) \<Rightarrow> (resp, w\<lparr>datalake := n\<rparr>))"

subsection \<open>The map of postings\<close>

definition handle_get_internal_index :: "'p services \<Rightarrow> sock_addr \<Rightarrow> str
    \<Rightarrow> 'p platform \<Rightarrow> get_response \<times> 'p platform" where
  "handle_get_internal_index sv self key_str w =
     (case serve (handle_get_internal (key_hash sv) (ids_cd sv)) self key_str (index_map w) of (resp, n) \<Rightarrow> (resp, w\<lparr>index_map := n\<rparr>))"

definition handle_get_index :: "'p services \<Rightarrow> sock_addr \<Rightarrow> str
    \<Rightarrow> 'p platform \<Rightarrow> get_response \<times> 'p platform" where
  "handle_get_index sv self key_str w =
     (case handle_get (key_hash sv) (ids_cd sv) self key_str (index_map w) of (resp, n) \<Rightarrow> (resp, w\<lparr>index_map := n\<rparr>))"

definition handle_forward_put_index :: "'p services \<Rightarrow> sock_addr \<Rightarrow> write_request
    \<Rightarrow> 'p platform \<Rightarrow> put_response \<times> 'p platform" where
  "handle_forward_put_index sv self req w =
     (case handle_forward_put (ids_cd sv) self req (index_map w) of (resp, n) \<Rightarrow> (resp, w\<lparr>index_map := n\<rparr>))"

definition handle_put_index :: "'p services \<Rightarrow> sock_addr \<Rightarrow> put_request
    \<Rightarrow> 'p platform \<Rightarrow> put_response \<times> 'p platform" where
  "handle_put_index sv self req w =
     (case handle_put (key_hash sv) (ids_cd sv) self req (index_map w) of (resp, n) \<Rightarrow> (resp, w\<lparr>index_map := n\<rparr>))"

definition handle_replicate_index :: "'p services \<Rightarrow> sock_addr \<Rightarrow> write_request
    \<Rightarrow> 'p platform \<Rightarrow> put_response \<times> 'p platform" where
  "handle_replicate_index sv self req w =
     (case serve (handle_replicate (ids_cd sv)) self req (index_map w) of (resp, n) \<Rightarrow> (resp, w\<lparr>index_map := n\<rparr>))"

definition handle_partition_dump_index :: "'p services \<Rightarrow> sock_addr \<Rightarrow> u32
    \<Rightarrow> 'p platform \<Rightarrow> (status \<times> partition_dump) \<times> 'p platform" where
  "handle_partition_dump_index sv self p w =
     (case serve (handle_partition_dump (ids_cd sv)) self p (index_map w) of (resp, n) \<Rightarrow> (resp, w\<lparr>index_map := n\<rparr>))"

subsection \<open>Properties\<close>




end
