(* ===== verification/Ui.thy ===== *)
theory Ui
  imports Documents Node
begin

text \<open>
  The dashboard server and proxy (\<open>src/ui/src/main.rs\<close>). The HTTP client is the argument \<open>send\<close>: an
  error with its text, or the status and the body, \<open>None\<close> when the body is no JSON. The percent encoding
  is the argument \<open>encode\<close>, \<open>show_nat\<close> prints a number.
\<close>

record app_state =
  node_url :: str

record ingest_params =
  ip_id :: str
  ip_node :: "str option"

record ui_search_params =
  up_q :: str
  up_limit :: "nat option"
  up_node :: "str option"

record node_params =
  np_node :: "str option"

record 'j proxy_response =
  pr_status :: u16
  pr_body :: 'j

type_synonym 'j upstream = "http_method \<Rightarrow> str \<Rightarrow> str + u16 \<times> 'j option"

subsection \<open>The target of a request\<close>

definition has_scheme :: "str \<Rightarrow> bool" where
  "has_scheme s \<longleftrightarrow> starts_with (lit ''http://'') s \<or> starts_with (lit ''https://'') s"

definition resolve_node_url :: "unicode \<Rightarrow> app_state \<Rightarrow> str option \<Rightarrow> str" where
  "resolve_node_url u state override_url =
     (let candidate = unwrap_or (node_url state) override_url;
          trimmed = trim u candidate
      in if trimmed = [] then node_url state
         else (let normalized = (if has_scheme trimmed then trimmed else lit ''http://'' @ trimmed)
               in trim_end_matches SLASH normalized))"

text \<open>What \<open>main\<close> makes of the environment variable \<open>NODE_URL\<close>.\<close>

definition init_state :: "str option \<Rightarrow> app_state" where
  "init_state env_node_url = \<lparr>node_url = trim_end_matches SLASH (unwrap_or (lit ''http://localhost'') env_node_url)\<rparr>"

subsection \<open>The proxy\<close>

definition forward :: "'j \<Rightarrow> str + u16 \<times> 'j option \<Rightarrow> (status \<times> str) + 'j proxy_response" where
  "forward invalid_json resp =
     (case resp of
        Inl e \<Rightarrow> Inl (BAD_GATEWAY, e)
      | Inr (st, body) \<Rightarrow> Inr \<lparr>pr_status = st, pr_body = unwrap_or invalid_json body\<rparr>)"

definition api_ingest :: "unicode \<Rightarrow> 'j \<Rightarrow> 'j upstream \<Rightarrow> app_state \<Rightarrow> ingest_params
    \<Rightarrow> (status \<times> str) + 'j proxy_response" where
  "api_ingest u invalid_json send state params =
     forward invalid_json (send POST (resolve_node_url u state (ip_node params) @ lit ''/ingest/'' @ ip_id params))"

definition api_search :: "unicode \<Rightarrow> (str \<Rightarrow> str) \<Rightarrow> (nat \<Rightarrow> str) \<Rightarrow> 'j \<Rightarrow> 'j upstream \<Rightarrow> app_state \<Rightarrow> ui_search_params
    \<Rightarrow> (status \<times> str) + 'j proxy_response" where
  "api_search u encode show_nat invalid_json send state params =
     (let limit = unwrap_or 5 (up_limit params)
      in forward invalid_json (send GET (resolve_node_url u state (up_node params)
           @ lit ''/search?q='' @ encode (up_q params) @ lit ''&limit='' @ show_nat limit)))"

definition api_status :: "unicode \<Rightarrow> 'j \<Rightarrow> 'j upstream \<Rightarrow> app_state \<Rightarrow> ingest_params
    \<Rightarrow> (status \<times> str) + 'j proxy_response" where
  "api_status u invalid_json send state params =
     forward invalid_json (send GET (resolve_node_url u state (ip_node params) @ lit ''/ingest/status/'' @ ip_id params))"

definition api_stats :: "unicode \<Rightarrow> 'j \<Rightarrow> 'j upstream \<Rightarrow> app_state \<Rightarrow> node_params
    \<Rightarrow> (status \<times> str) + 'j proxy_response" where
  "api_stats u invalid_json send state params =
     forward invalid_json (send GET (resolve_node_url u state (np_node params) @ lit ''/health/stats''))"

subsection \<open>Properties\<close>

lemma trim_between:
  assumes "list_all (is_whitespace u) a" and "list_all (is_whitespace u) b" and "trimmed u h"
  shows "trim u (a @ h @ b) = h"
proof -
  have h: "h \<noteq> []" "\<not> is_whitespace u (hd h)" "\<not> is_whitespace u (last h)" using assms(3) by (simp_all add: trimmed_def)
  have "dropWhile (is_whitespace u) (a @ h @ b) = h @ b"
    using assms(1) h by (cases h) (simp_all add: dropWhile_append list_all_iff)
  moreover have "dropWhile (is_whitespace u) (rev (h @ b)) = rev h"
  proof -
    have "dropWhile (is_whitespace u) (rev h) = rev h" using h by (simp add: dropWhile_eq_self_iff hd_rev)
    then show ?thesis using assms(2) by (simp add: dropWhile_append list_all_iff)
  qed
  ultimately show ?thesis by (simp add: trim_def trim_matches_def)
qed

lemma trim_slashes: "last h \<noteq> SLASH \<Longrightarrow> h \<noteq> [] \<Longrightarrow> trim_end_matches SLASH (h @ replicate k SLASH) = h"
proof -
  assume h: "last h \<noteq> SLASH" "h \<noteq> []"
  then have "dropWhile (\<lambda>x. x = SLASH) (rev h) = rev h" by (simp add: dropWhile_eq_self_iff hd_rev)
  then show ?thesis by (simp add: trim_end_matches_def dropWhile_append)
qed

text \<open>The proxy addresses the node it is told to: white space around the address and slashes after it do not
  matter and a missing scheme becomes \<open>http://\<close>; a blank address stands for the default, which is then
  used as it is, with or without a scheme.\<close>
theorem resolve_node_url_spec:
  assumes "list_all (is_whitespace u) a" and "list_all (is_whitespace u) b"
    and "trimmed u (h @ replicate k SLASH)" and "h \<noteq> []" and "last h \<noteq> SLASH"
  shows "resolve_node_url u state (Some (a @ (h @ replicate k SLASH) @ b)) =
      (if has_scheme (h @ replicate k SLASH) then h else lit ''http://'' @ h) \<and>
    resolve_node_url u state (Some a) = node_url state"
proof -
  have t: "trim u (a @ (h @ replicate k SLASH) @ b) = h @ replicate k SLASH" by (rule trim_between [OF assms(1-3)])
  have blank: "trim u a = []"
  proof -
    have "dropWhile (is_whitespace u) a = []" using assms(1) by (simp add: list_all_iff dropWhile_eq_Nil_conv)
    then show ?thesis by (simp add: trim_def trim_matches_def del: dropWhile_eq_Nil_conv)
  qed
  have "trim_end_matches SLASH ((lit ''http://'' @ h) @ replicate k SLASH) = lit ''http://'' @ h"
    using assms(4,5) by (intro trim_slashes) simp_all
  then show ?thesis
    using t blank trim_slashes [OF assms(5,4)] assms(4) by (simp add: resolve_node_url_def unwrap_or_def Let_def)
qed

theorem resolve_node_url_spec_witness:
  "resolve_node_url ascii_unicode (init_state (Some (lit ''localhost:80''))) (Some (lit '' node1:6000// '')) = lit ''http://node1:6000'' \<and>
   resolve_node_url ascii_unicode (init_state (Some (lit ''localhost:80''))) (Some (lit '' '')) = lit ''localhost:80''"
proof -
  have h: "list_all (is_whitespace ascii_unicode) (lit '' '')" "trimmed ascii_unicode (lit ''node1:6000'' @ replicate 2 SLASH)"
    "lit ''node1:6000'' \<noteq> []" "last (lit ''node1:6000'') \<noteq> SLASH"
    by (simp_all add: ascii_unicode_def trimmed_def lit_simps SLASH_def numeral_2_eq_2 ascii_letter_def ascii_upper_def)
  have e: "lit '' '' @ (lit ''node1:6000'' @ replicate 2 SLASH) @ lit '' '' = lit '' node1:6000// ''"
    "\<not> has_scheme (lit ''node1:6000'' @ replicate 2 SLASH)"
    "lit ''http://'' @ lit ''node1:6000'' = lit ''http://node1:6000''"
    "node_url (init_state (Some (lit ''localhost:80''))) = lit ''localhost:80''"
    by (simp_all add: lit_simps SLASH_def numeral_2_eq_2 has_scheme_def starts_with_def init_state_def trim_end_matches_def
        unwrap_or_def)
  from resolve_node_url_spec [OF h(1) h(1) h(2-4), of "init_state (Some (lit ''localhost:80''))"] show ?thesis
    unfolding e if_not_P [OF e(2)] .
qed

end
