(* ===== verification/Spec2Isabelle.thy ===== *)
theory Spec2Isabelle
  imports Gossip AntiEntropy Pipeline Node Routes Ui
begin

text \<open>
  A model of the distributed search cluster in \<open>src/src\<close> (Rust) and of its dashboard proxy in
  \<open>src/ui\<close>, with the theorems that say what the program guarantees and where it does not.

  \<^bold>\<open>The program.\<close> Every node runs the same process. A gossip service (UDP) keeps the table of members.
  The partitioner maps a key to one of 256 partitions and a partition to its owners, the primary
  and the backups, from the list of alive members. Three distributed maps (metadata, documents,
  inverted index) and a task queue keep their entries at the owners and talk over HTTP with retries.
  Ingestion downloads a book, stores it and submits an indexing task; a worker of the primary of the
  task claims it and writes the postings of each term; the search looks the terms of a query up, scores
  the books and fetches their metadata. Anti-entropy passes copy partitions a node should hold.

  \<^bold>\<open>Theories\<close>, in the order they build on each other:
  \<^item> \<open>Prelude\<close>: words, strings, \<open>DashMap\<close>, errors; the contracts \<open>keyed_store\<close> and \<open>sharded_store\<close>.
  \<^item> \<open>Http\<close> (the retry loops of \<open>storage/memory.rs\<close> and \<open>executor/queue.rs\<close>): a network \<open>net\<close> of servers,
    the fate of each request (delivered, lost, answer lost) and the sleeping time; the contract
    \<open>idempotent_service\<close> and the stronger \<open>readonly_service\<close>.
  \<^item> \<open>Replication\<close>: the contract \<open>replication_loop\<close> of both loops over the backups, and invariants of retries.
  \<^item> \<open>Membership\<close> (\<open>membership/service.rs\<close>, \<open>types.rs\<close>): one handler per message, one iteration of each
    loop; tables stay well formed, a dead member stays dead, what becomes of a silent member and when.
  \<^item> \<open>Gossip\<close>: the closed cluster as a transition system of nodes and datagrams in flight.
  \<^item> \<open>Partitioner\<close>, \<open>Placement\<close> (\<open>storage/partitioner.rs\<close>): owners, balance, one primary per partition; what
    it means that nodes agree on the members.
  \<^item> \<open>DistributedMap\<close> (local part of \<open>storage/memory.rs\<close>, \<open>handlers.rs\<close>, \<open>protocol.rs\<close>), \<open>MapCluster\<close> (what involves
    several nodes, and \<open>sync_partitions\<close> of \<open>main.rs\<close>), \<open>MapSpec\<close> (the abstract map, the effect of each
    operation, and \<open>write_invariant\<close>, the contract of what one write keeps), \<open>MapGuarantees\<close> (refinement of the
    abstract map, durability, lost writes), \<open>MapContent\<close> (what puts and gets do at any node when the copies need
    not agree), \<open>AntiEntropy\<close> (what the passes of \<open>sync_partitions\<close> recover, hide and bring together, writes that
    overlap).
  \<^item> \<open>TaskQueue\<close>, \<open>TaskLifecycle\<close> (local part of \<open>executor/queue.rs\<close>), \<open>QueueCluster\<close>, \<open>QueueGuarantees\<close>
    (submission, lookup, \<open>sync_queue_partitions\<close>), \<open>Executor\<close> (\<open>executor.rs\<close>, \<open>registry.rs\<close>): the life of a task.
  \<^item> \<open>Tokenizer\<close>, \<open>Search\<close> (\<open>search/\<close>): terms, scores, ranking against a specification over the abstract maps.
  \<^item> \<open>Documents\<close>, \<open>Ingestion\<close> (\<open>ingestion/\<close>, \<open>handle_create_book\<close>, the task \<open>index_document\<close> of \<open>main.rs\<close>),
    \<open>Pipeline\<close>: the record \<open>platform\<close> of all stores, and the way of a book from download to search.
  \<^item> \<open>Routes\<close>, \<open>Node\<close> (\<open>main.rs\<close>): the typed HTTP handlers, command line, start-up, router, statistics.
  \<^item> \<open>Ui\<close> (\<open>src/ui/src/main.rs\<close>): the proxy of the dashboard.

  \<^bold>\<open>Conventions.\<close> Definitions carry the names of the source. \<open>SocketAddr\<close> is a pair of IP text and port, an
  \<open>Arc\<close> is the value it points to, an \<open>async\<close> function is a state transformer that returns the new network.
  A cluster gives each address its server; \<open>self\<close> is the address of the node that runs the operation. Clocks,
  random numbers, UUIDs, iteration orders of hash tables, downloads and the fates of requests are arguments, so a
  theorem without a hypothesis on them holds for all. \<open>reliable\<close> and \<open>all_listening\<close> say that no request is lost;
  theorems about durability, failed ingestions and claims do not need them. Fallible operations return \<open>error + 'a\<close> or an option;
  the outer option of \<open>split_gutenberg_text\<close> and \<open>handle_ingest_gutenberg\<close> is \<open>None\<close> for a panic.

  \<^bold>\<open>Parameters.\<close> \<open>DefaultHasher\<close>, \<open>serde_json\<close> (the record \<open>codec\<close>, with \<open>codec_ok\<close>: decoding gives back what was
  encoded), the URL segment a key becomes, Unicode tables and the \<open>regex\<close> crate (the record \<open>unicode\<close>, with
  \<open>unicode_ok\<close>), \<open>reqwest\<close>, \<open>sysinfo\<close>. Each is instantiated in the witnesses.

  \<^bold>\<open>Bounds.\<close> Loops are structural recursions over the lists or attempts the source loops over; \<open>runs\<close>, \<open>lines\<close> and
  the loop over the command line have their own termination proofs. Counters of type \<open>usize\<close> that count
  entries in memory are natural numbers; ports, incarnations, partitions, leases and times are words.

  \<^bold>\<open>Atomicity.\<close> Every operation runs to its end before the next one at any node starts, except where a theorem
  lists the steps of two operations in turn (\<open>concurrent_indexers_lose_posting\<close>, \<open>overlapping_puts_diverge\<close>); membership events interleave freely.

  \<^bold>\<open>Not modelled:\<close> scheduling by tokio (spawned tasks, intervals), sockets and axum itself, bincode framing of
  datagrams (delivered as sent or not at all), logging, request body limits, the HTML page, Docker and nginx.
  A reply is typed: \<open>response.json()\<close> does not fail on a reply that has arrived, so the errors of \<open>fetch_remote\<close>
  and \<open>fetch_partition\<close> after a success status are those of decoding the entries. A task handler returns Ok or
  an error: one that panics would end the worker that runs it, as would a panic of \<open>u16\<close> arithmetic in a build
  with overflow checks, where the model wraps.
\<close>

end
